(* ===== verification/Rust_Prelude.thy ===== *)
theory Rust_Prelude
  imports Complex_Main
begin

text \<open>
  The part of Rust and of its standard library that the modelled sources use, and the
  generic lemmas the component theories share.

  \<^item> Unsigned machine integers (\<open>u64\<close>, \<open>usize\<close> on the 64-bit targets the proxy is built
    for, \<open>u32\<close>) are natural numbers with the wrap-around written out. The shipped binary is
    built with the release profile of \<open>Cargo.toml\<close>, which leaves overflow checks off, so
    plain \<open>+\<close> and \<open>-\<close> wrap modulo \<open>2 ^ 64\<close>; \<open>saturating_*\<close> and \<open>checked_*\<close> are the
    operations of the same name.
  \<^item> \<open>&str\<close>, \<open>String\<close>, \<open>&[u8]\<close> and \<open>Vec<u8>\<close> are lists of bytes (\<open>string\<close>, that is
    \<open>char list\<close>); \<open>str::len\<close> counts bytes, as \<open>length\<close> does here. UTF-8 validity is a
    predicate on such lists where the source calls \<open>from_utf8\<close>.
  \<^item> \<open>Result<T, E>\<close> is \<open>'e + 't\<close> with \<open>Inl\<close> for \<open>Err\<close>.
\<close>

section \<open>Collections of rewrite rules\<close>

named_theorems u64_simps \<open>bounded u64 arithmetic is ordinary arithmetic\<close>
named_theorems str_simps \<open>evaluation of the string functions\<close>

section \<open>Unsigned 64-bit integers\<close>

type_synonym u64 = nat
type_synonym u32 = nat
type_synonym usize = nat

abbreviation u64_mod :: nat where
  "u64_mod \<equiv> 18446744073709551616"

abbreviation u64_max :: nat where
  "u64_max \<equiv> 18446744073709551615"

definition u64_add :: "u64 \<Rightarrow> u64 \<Rightarrow> u64" where
  "u64_add a b = (a + b) mod u64_mod"

definition u64_sub :: "u64 \<Rightarrow> u64 \<Rightarrow> u64" where
  "u64_sub a b = (if b \<le> a then a - b else a + u64_mod - b)"

definition u64_mul :: "u64 \<Rightarrow> u64 \<Rightarrow> u64" where
  "u64_mul a b = (a * b) mod u64_mod"

definition saturating_add :: "u64 \<Rightarrow> u64 \<Rightarrow> u64" where
  "saturating_add a b = min (a + b) u64_max"

definition saturating_sub :: "u64 \<Rightarrow> u64 \<Rightarrow> u64" where
  "saturating_sub a b = (if a < b then 0 else a - b)"

definition checked_add :: "u64 \<Rightarrow> u64 \<Rightarrow> u64 option" where
  "checked_add a b = (if a + b < u64_mod then Some (a + b) else None)"

lemma u64_add_exact [u64_simps]: "a + b < u64_mod \<Longrightarrow> u64_add a b = a + b"
  by (simp add: u64_add_def)

lemma u64_sub_exact [u64_simps]: "b \<le> a \<Longrightarrow> u64_sub a b = a - b"
  by (simp add: u64_sub_def)

lemma u64_sub_1 [u64_simps]: "0 < a \<Longrightarrow> u64_sub a (Suc 0) = a - 1" "0 < a \<Longrightarrow> u64_sub a 1 = a - 1"
  by (simp_all add: u64_sub_def)

lemma u64_mul_exact [u64_simps]: "a * b < u64_mod \<Longrightarrow> u64_mul a b = a * b"
  by (simp add: u64_mul_def)

lemma saturating_sub_minus [u64_simps]: "saturating_sub a b = a - b"
  by (simp add: saturating_sub_def)

lemma saturating_add_exact [u64_simps]: "a + b < u64_mod \<Longrightarrow> saturating_add a b = a + b"
  by (simp add: saturating_add_def)

lemma u64_add_bound: "u64_add a b < u64_mod"
  by (simp add: u64_add_def)

lemma u64_sub_bound: "a < u64_mod \<Longrightarrow> b < u64_mod \<Longrightarrow> u64_sub a b < u64_mod"
  by (auto simp: u64_sub_def)

lemma saturating_add_bound: "saturating_add a b < u64_mod"
  by (simp add: saturating_add_def min_def)

lemma checked_add_Some:
  "checked_add a b = Some c \<longleftrightarrow> c = a + b \<and> a + b < u64_mod"
  by (auto simp: checked_add_def)

lemma checked_add_None: "checked_add a b = None \<longleftrightarrow> u64_mod \<le> a + b"
  by (auto simp: checked_add_def)

section \<open>Strings\<close>

text \<open>\<open>str::starts_with\<close>, \<open>strip_prefix\<close>, \<open>strip_suffix\<close>, \<open>contains\<close>.\<close>

fun strip_prefix :: "string \<Rightarrow> string \<Rightarrow> string option" where
  "strip_prefix [] s = Some s"
| "strip_prefix (p # ps) [] = None"
| "strip_prefix (p # ps) (c # cs) = (if p = c then strip_prefix ps cs else None)"

definition starts_with :: "string \<Rightarrow> string \<Rightarrow> bool" where
  "starts_with p s = (strip_prefix p s \<noteq> None)"

definition strip_suffix :: "string \<Rightarrow> string \<Rightarrow> string option" where
  "strip_suffix p s = map_option rev (strip_prefix (rev p) (rev s))"

definition ends_with :: "string \<Rightarrow> string \<Rightarrow> bool" where
  "ends_with p s = (strip_suffix p s \<noteq> None)"

fun contains_str :: "string \<Rightarrow> string \<Rightarrow> bool" where
  "contains_str p [] = (p = [])"
| "contains_str p (c # cs) = (starts_with p (c # cs) \<or> contains_str p cs)"

lemma strip_prefix_Some: "strip_prefix p s = Some t \<longleftrightarrow> s = p @ t"
  by (induction p s rule: strip_prefix.induct) auto

lemma strip_prefix_append [simp]: "strip_prefix p (p @ t) = Some t"
  by (simp add: strip_prefix_Some)

lemma starts_with_iff: "starts_with p s \<longleftrightarrow> (\<exists>t. s = p @ t)"
  by (auto simp: starts_with_def strip_prefix_Some)

lemma starts_with_append [simp]: "starts_with p (p @ t)"
  by (auto simp: starts_with_iff)

lemma strip_suffix_Some: "strip_suffix p s = Some t \<longleftrightarrow> s = t @ p"
proof
  assume "strip_suffix p s = Some t"
  then obtain u where u: "strip_prefix (rev p) (rev s) = Some u" "t = rev u"
    by (auto simp: strip_suffix_def)
  then have "rev s = rev p @ u" by (simp add: strip_prefix_Some)
  then have "s = rev u @ p" by (metis rev_append rev_rev_ident)
  with u show "s = t @ p" by simp
qed (simp add: strip_suffix_def)

lemma ends_with_iff: "ends_with p s \<longleftrightarrow> (\<exists>t. s = t @ p)"
  by (auto simp: ends_with_def strip_suffix_Some)

lemma contains_str_iff: "contains_str p s \<longleftrightarrow> (\<exists>u v. s = u @ p @ v)"
proof (induction s)
  case (Cons c cs)
  note IH = Cons.IH
  show ?case
  proof
    assume "contains_str p (c # cs)"
    then show "\<exists>u v. c # cs = u @ p @ v"
    proof (cases "starts_with p (c # cs)")
      case True
      then show ?thesis by (metis append_Nil starts_with_iff)
    next
      case False
      with \<open>contains_str p (c # cs)\<close> Cons.IH obtain u v where "cs = u @ p @ v" by auto
      then show ?thesis by (metis append_Cons)
    qed
  next
    assume "\<exists>u v. c # cs = u @ p @ v"
    then obtain u v where uv: "c # cs = u @ p @ v" by blast
    show "contains_str p (c # cs)"
    proof (cases u)
      case Nil
      with uv have "starts_with p (c # cs)" by (auto simp: starts_with_iff)
      then show ?thesis by simp
    next
      case (Cons d us)
      with uv have "cs = us @ p @ v" by simp
      with IH show ?thesis by auto
    qed
  qed
qed auto

text \<open>\<open>str::split\<close> and \<open>str::split_once\<close> on one character; splitting never gives \<open>[]\<close>.\<close>

fun split_char :: "char \<Rightarrow> string \<Rightarrow> string list" where
  "split_char d [] = [[]]"
| "split_char d (c # cs) =
     (if c = d then [] # split_char d cs
      else (case split_char d cs of [] \<Rightarrow> [[c]] | w # ws \<Rightarrow> (c # w) # ws))"

fun split_once :: "char \<Rightarrow> string \<Rightarrow> (string \<times> string) option" where
  "split_once d [] = None"
| "split_once d (c # cs) =
     (if c = d then Some ([], cs)
      else map_option (\<lambda>(a, b). (c # a, b)) (split_once d cs))"

lemma split_char_nonempty [simp]: "split_char d s \<noteq> []"
  by (induction s) (auto split: list.splits)

lemma split_char_no_sep: "d \<notin> set s \<Longrightarrow> split_char d s = [s]"
  by (induction s) auto

lemma split_char_sep: "d \<notin> set s \<Longrightarrow> split_char d (s @ d # t) = s # split_char d t"
  by (induction s) auto

lemma split_once_sep: "d \<notin> set s \<Longrightarrow> split_once d (s @ d # t) = Some (s, t)"
  by (induction s) auto

lemma split_once_Some:
  "split_once d s = Some (a, b) \<longleftrightarrow> s = a @ d # b \<and> d \<notin> set a"
proof (induction s arbitrary: a)
  case (Cons c cs)
  then show ?case by (cases a) auto
qed auto

lemma split_once_None: "split_once d s = None \<longleftrightarrow> d \<notin> set s"
  by (induction s) auto

text \<open>\<open>str::rsplit_once\<close>: at the last separator.\<close>

definition rsplit_once :: "char \<Rightarrow> string \<Rightarrow> (string \<times> string) option" where
  "rsplit_once d s = map_option (\<lambda>(a, b). (rev b, rev a)) (split_once d (rev s))"

lemma rsplit_once_Some:
  "rsplit_once d s = Some (a, b) \<longleftrightarrow> s = a @ d # b \<and> d \<notin> set b"
proof -
  have "rsplit_once d s = Some (a, b) \<longleftrightarrow> split_once d (rev s) = Some (rev b, rev a)"
    by (auto simp: rsplit_once_def)
  also have "\<dots> \<longleftrightarrow> rev s = rev (a @ d # b) \<and> d \<notin> set b" by (simp add: split_once_Some)
  finally show ?thesis by (simp only: rev_is_rev_conv)
qed

text \<open>\<open>str::to_ascii_lowercase\<close> and \<open>str::eq_ignore_ascii_case\<close>.\<close>

definition ascii_lower :: "char \<Rightarrow> char" where
  "ascii_lower c =
     (let n = of_char c :: nat in if 65 \<le> n \<and> n \<le> 90 then char_of (n + 32) else c)"

definition eq_ignore_ascii_case :: "string \<Rightarrow> string \<Rightarrow> bool" where
  "eq_ignore_ascii_case s t = (map ascii_lower s = map ascii_lower t)"

section \<open>White space and trimming\<close>

text \<open>
  \<open>str::trim\<close> strips the characters with the Unicode property \<open>White_Space\<close>: U+0009 to
  U+000D, U+0020, U+0085, U+00A0, U+1680, U+2000 to U+200A, U+2028, U+2029, U+202F, U+205F and
  U+3000. The two functions give the number of bytes of such a character's UTF-8 form at the
  front of a byte list, and at the front of a reversed one.
\<close>

fun white_space3 :: "nat \<Rightarrow> nat \<Rightarrow> nat \<Rightarrow> bool" where
  "white_space3 a b c =
     (a = 225 \<and> b = 154 \<and> c = 128 \<or>
      a = 226 \<and> b = 128 \<and> (128 \<le> c \<and> c \<le> 138 \<or> c = 168 \<or> c = 169 \<or> c = 175) \<or>
      a = 226 \<and> b = 129 \<and> c = 159 \<or>
      a = 227 \<and> b = 128 \<and> c = 128)"

definition ascii_white_space :: "nat \<Rightarrow> bool" where
  "ascii_white_space n = (n = 32 \<or> 9 \<le> n \<and> n \<le> 13)"

fun ws_front :: "nat list \<Rightarrow> nat" where
  "ws_front [] = 0"
| "ws_front (a # xs) =
     (if ascii_white_space a then 1
      else (case xs of
              [] \<Rightarrow> 0
            | b # ys \<Rightarrow>
                if a = 194 \<and> (b = 133 \<or> b = 160) then 2
                else (case ys of [] \<Rightarrow> 0 | c # _ \<Rightarrow> if white_space3 a b c then 3 else 0)))"

fun ws_back :: "nat list \<Rightarrow> nat" where
  "ws_back [] = 0"
| "ws_back (c # xs) =
     (if ascii_white_space c then 1
      else (case xs of
              [] \<Rightarrow> 0
            | b # ys \<Rightarrow>
                if b = 194 \<and> (c = 133 \<or> c = 160) then 2
                else (case ys of [] \<Rightarrow> 0 | a # _ \<Rightarrow> if white_space3 a b c then 3 else 0)))"

lemma ws_front_pos: "0 < ws_front (map of_char s) \<Longrightarrow> s \<noteq> []"
  by (cases s) auto

lemma ws_back_pos: "0 < ws_back (map of_char s) \<Longrightarrow> s \<noteq> []"
  by (cases s) auto

function trim_start :: "string \<Rightarrow> string" where
  "trim_start s =
     (let k = ws_front (map of_char s) in if k = 0 then s else trim_start (drop k s))"
  by pat_completeness auto
termination
  by (relation "measure length") (simp_all add: ws_front_pos)

function trim_back :: "string \<Rightarrow> string" where
  "trim_back s =
     (let k = ws_back (map of_char s) in if k = 0 then s else trim_back (drop k s))"
  by pat_completeness auto
termination
  by (relation "measure length") (simp_all add: ws_back_pos)

declare trim_start.simps [simp del] trim_back.simps [simp del]

definition trim_end :: "string \<Rightarrow> string" where
  "trim_end s = rev (trim_back (rev s))"

definition trim :: "string \<Rightarrow> string" where
  "trim s = trim_end (trim_start s)"

text \<open>A string of printable, non-blank ASCII characters is its own trimming.\<close>

definition graph_char :: "char \<Rightarrow> bool" where
  "graph_char c = (let n = of_char c :: nat in 33 \<le> n \<and> n \<le> 126)"

lemma graph_ws_front: "graph_char c \<Longrightarrow> ws_front (map of_char (c # s)) = 0"
  by (auto simp: graph_char_def Let_def ascii_white_space_def split: list.splits)

lemma graph_ws_back: "graph_char c \<Longrightarrow> ws_back (map of_char (c # s)) = 0"
  by (auto simp: graph_char_def Let_def ascii_white_space_def split: list.splits)

lemma trim_start_graph: "s = [] \<or> graph_char (hd s) \<Longrightarrow> trim_start s = s"
proof (cases s)
  case (Cons c cs)
  assume "s = [] \<or> graph_char (hd s)"
  with Cons have "ws_front (map of_char s) = 0" using graph_ws_front [of c cs] by simp
  then show ?thesis by (simp add: trim_start.simps [of s])
qed (simp add: trim_start.simps)

lemma trim_end_graph: "s = [] \<or> graph_char (last s) \<Longrightarrow> trim_end s = s"
proof (cases s rule: rev_cases)
  case Nil
  then show ?thesis by (simp add: trim_end_def trim_back.simps)
next
  case (snoc t c)
  assume "s = [] \<or> graph_char (last s)"
  with snoc have "ws_back (map of_char (rev s)) = 0" using graph_ws_back [of c "rev t"] by simp
  then have "trim_back (rev s) = rev s" by (simp add: trim_back.simps [of "rev s"])
  then show ?thesis by (simp add: trim_end_def)
qed

lemma trim_graph:
  "s = [] \<or> graph_char (hd s) \<and> graph_char (last s) \<Longrightarrow> trim s = s"
  using trim_start_graph [of s] trim_end_graph [of s] by (auto simp: trim_def)

lemma trim_Nil [simp]: "trim [] = []"
  by (rule trim_graph) simp

section \<open>Numbers in strings\<close>

text \<open>
  \<open>char::to_digit\<close>, \<open>u64::from_str_radix\<close> and \<open>str::parse::<u64>\<close>: an optional \<open>+\<close>, at least
  one digit, and an error when the value does not fit the type.
\<close>

definition to_digit :: "nat \<Rightarrow> char \<Rightarrow> nat option" where
  "to_digit radix c =
     (let n = of_char c :: nat;
          d = (if 48 \<le> n \<and> n \<le> 57 then n - 48
               else if 97 \<le> n \<and> n \<le> 122 then n - 87
               else if 65 \<le> n \<and> n \<le> 90 then n - 55
               else radix)
      in if d < radix then Some d else None)"

fun parse_digits :: "nat \<Rightarrow> nat \<Rightarrow> nat \<Rightarrow> string \<Rightarrow> nat option" where
  "parse_digits radix mx acc [] = Some acc"
| "parse_digits radix mx acc (c # cs) =
     (case to_digit radix c of
        None \<Rightarrow> None
      | Some d \<Rightarrow> (let v = acc * radix + d in if v > mx then None else parse_digits radix mx v cs))"

definition from_str_radix :: "nat \<Rightarrow> nat \<Rightarrow> string \<Rightarrow> nat option" where
  "from_str_radix radix mx s =
     (case s of
        [] \<Rightarrow> None
      | c # cs \<Rightarrow>
          if c = CHR ''+'' then (if cs = [] then None else parse_digits radix mx 0 cs)
          else parse_digits radix mx 0 s)"

definition parse_u64 :: "string \<Rightarrow> u64 option" where
  "parse_u64 s = from_str_radix 10 u64_max s"

text \<open>The \<open>Display\<close> form (\<open>{}\<close>, radix 10) and the \<open>LowerHex\<close> form (\<open>{:x}\<close>, radix 16).\<close>

definition digit_char :: "nat \<Rightarrow> char" where
  "digit_char d = (if d < 10 then char_of (48 + d) else char_of (87 + d))"

function show_radix :: "nat \<Rightarrow> nat \<Rightarrow> string" where
  "show_radix r n =
     (if r < 2 \<or> n < r then [digit_char n]
      else show_radix r (n div r) @ [digit_char (n mod r)])"
  by pat_completeness auto
termination
  by (relation "measure snd") auto

declare show_radix.simps [simp del]

definition show_nat :: "nat \<Rightarrow> string" where
  "show_nat n = show_radix 10 n"

lemma to_digit_digit_char: "d < radix \<Longrightarrow> radix \<le> 36 \<Longrightarrow> to_digit radix (digit_char d) = Some d"
  by (auto simp: to_digit_def digit_char_def Let_def)

lemma digit_char_graph: "d < 36 \<Longrightarrow> graph_char (digit_char d)"
  by (auto simp: graph_char_def digit_char_def Let_def)

lemma digit_char_range:
  "d < 36 \<Longrightarrow> (48 \<le> (of_char (digit_char d) :: nat) \<and> (of_char (digit_char d) :: nat) \<le> 57) \<or>
     97 \<le> (of_char (digit_char d) :: nat) \<and> (of_char (digit_char d) :: nat) \<le> 122"
  by (auto simp: digit_char_def)

lemma show_radix_nonempty [simp]: "show_radix r n \<noteq> []"
  by (subst show_radix.simps) simp

lemma show_radix_set: "2 \<le> r \<Longrightarrow> set (show_radix r n) \<subseteq> digit_char ` {..<r}"
proof (induction r n rule: show_radix.induct)
  case (1 r n)
  show ?case
  proof (cases "n < r")
    case True
    then show ?thesis by (simp add: show_radix.simps [of r n])
  next
    case False
    with "1.prems" have "set (show_radix r (n div r)) \<subseteq> digit_char ` {..<r}" "n mod r < r"
      using "1.IH" by simp_all
    with False "1.prems" show ?thesis by (simp add: show_radix.simps [of r n])
  qed
qed

lemma show_radix_digit:
  "2 \<le> r \<Longrightarrow> c \<in> set (show_radix r n) \<Longrightarrow> \<exists>d < r. c = digit_char d"
  using show_radix_set by fastforce

lemma parse_digits_append:
  "parse_digits r mx acc (s @ t) =
     (case parse_digits r mx acc s of None \<Rightarrow> None | Some v \<Rightarrow> parse_digits r mx v t)"
  by (induction s arbitrary: acc) (auto split: option.splits simp: Let_def)

lemma parse_show_radix:
  "2 \<le> r \<Longrightarrow> r \<le> 36 \<Longrightarrow> n \<le> mx \<Longrightarrow> parse_digits r mx 0 (show_radix r n) = Some n"
proof (induction r n rule: show_radix.induct)
  case (1 r n)
  show ?case
  proof (cases "n < r")
    case True
    with 1 show ?thesis
      by (simp add: show_radix.simps [of r n] to_digit_digit_char)
  next
    case False
    have "n div r \<le> mx" using 1 by (meson div_le_dividend le_trans)
    with 1 False have IH: "parse_digits r mx 0 (show_radix r (n div r)) = Some (n div r)"
      by simp
    have "n mod r < r" using 1 by simp
    with 1 False IH show ?thesis
      by (simp add: show_radix.simps [of r n] parse_digits_append to_digit_digit_char)
  qed
qed

lemma from_str_show_radix:
  assumes "2 \<le> r" "r \<le> 36" "n \<le> mx"
  shows "from_str_radix r mx (show_radix r n) = Some n"
proof -
  obtain c cs where s: "show_radix r n = c # cs" by (cases "show_radix r n") auto
  then have "\<exists>d < r. c = digit_char d" using show_radix_digit [of r c n] assms by auto
  then obtain d where "d < 36" "c = digit_char d" using assms(2) by (auto intro: order_less_le_trans)
  then have "c \<noteq> CHR ''+''" using digit_char_range [of d] by auto
  with s parse_show_radix [OF assms] show ?thesis by (simp add: from_str_radix_def)
qed

lemma parse_u64_show_nat: "n < u64_mod \<Longrightarrow> parse_u64 (show_nat n) = Some n"
  by (simp add: parse_u64_def show_nat_def from_str_show_radix)

lemma parse_digits_bound: "acc \<le> mx \<Longrightarrow> parse_digits r mx acc s = Some v \<Longrightarrow> v \<le> mx"
proof (induction s arbitrary: acc)
  case (Cons c cs)
  then obtain d where d: "to_digit r c = Some d" "acc * r + d \<le> mx"
    and rest: "parse_digits r mx (acc * r + d) cs = Some v"
    by (auto split: option.splits if_splits simp: Let_def)
  from d(2) rest show ?case by (rule Cons.IH)
qed simp

lemma parse_u64_bound: "parse_u64 s = Some v \<Longrightarrow> v < u64_mod"
proof -
  assume "parse_u64 s = Some v"
  then obtain t where "parse_digits 10 u64_max 0 t = Some v"
    unfolding parse_u64_def from_str_radix_def
    by (cases s) (auto simp del: parse_digits.simps split: if_splits)
  then have "v \<le> u64_max" by (rule parse_digits_bound [rotated]) simp
  then show ?thesis by simp
qed

lemma show_radix_graph: "2 \<le> r \<Longrightarrow> r \<le> 36 \<Longrightarrow> c \<in> set (show_radix r n) \<Longrightarrow> graph_char c"
  using show_radix_digit [of r c n] digit_char_graph by (auto intro: order_less_le_trans)

lemma trim_show_radix: "2 \<le> r \<Longrightarrow> r \<le> 36 \<Longrightarrow> trim (show_radix r n) = show_radix r n"
  by (intro trim_graph disjI2) (simp add: show_radix_graph [of r _ n])

lemma show_radix_chars:
  assumes "2 \<le> r" "r \<le> 36" "c \<in> set (show_radix r n)"
  shows "(48 \<le> (of_char c :: nat) \<and> (of_char c :: nat) \<le> 57) \<or>
         97 \<le> (of_char c :: nat) \<and> (of_char c :: nat) \<le> 122"
proof -
  obtain d where d: "d < r" "c = digit_char d" using show_radix_digit assms by blast
  with assms(2) have "d < 36" by simp
  with d digit_char_range show ?thesis by blast
qed

lemma parse_show_nat_inj:
  assumes "show_nat m = show_nat n"
  shows "m = n"
proof -
  have "parse_digits 10 (max m n) 0 (show_nat m) = Some m"
    unfolding show_nat_def by (rule parse_show_radix) simp_all
  moreover have "parse_digits 10 (max m n) 0 (show_nat n) = Some n"
    unfolding show_nat_def by (rule parse_show_radix) simp_all
  ultimately show ?thesis using assms by (metis option.inject)
qed

lemma show_nat_nonempty [simp]: "show_nat n \<noteq> []"
  by (simp add: show_nat_def)

lemma show_nat_digit:
  assumes "c \<in> set (show_nat n)"
  shows "48 \<le> (of_char c :: nat) \<and> (of_char c :: nat) \<le> 57"
proof -
  obtain d where "d < 10" "c = digit_char d"
    using assms show_radix_digit [of 10 c n] by (auto simp: show_nat_def)
  then show ?thesis by (auto simp: digit_char_def)
qed

lemma show_nat_notin: "(of_char c :: nat) < 48 \<or> 57 < (of_char c :: nat) \<Longrightarrow> c \<notin> set (show_nat n)"
  using show_nat_digit by fastforce

lemma show_nat_graph: "c \<in> set (show_nat n) \<Longrightarrow> graph_char c"
  unfolding show_nat_def by (rule show_radix_graph [of 10]) simp_all

lemma graph_show_nat [simp]: "graph_char (hd (show_nat n))" "graph_char (last (show_nat n))"
  by (simp_all add: show_nat_graph [OF hd_in_set] show_nat_graph [OF last_in_set])

lemma graph_chars [simp]:
  "graph_char (CHR ''-'')" "graph_char (CHR ''b'')" "graph_char (CHR ''/'')" "graph_char (CHR ''='')"
  by (simp_all add: graph_char_def)

lemma trim_show_nat [simp]: "trim (show_nat n) = show_nat n"
  unfolding show_nat_def by (rule trim_show_radix) simp_all

section \<open>UTF-8 validity\<close>

text \<open>The well-formed byte sequences \<open>std::str::from_utf8\<close> accepts.\<close>

abbreviation utf8_cont :: "nat \<Rightarrow> bool" where
  "utf8_cont b \<equiv> 128 \<le> b \<and> b \<le> 191"

definition utf8_head :: "nat list \<Rightarrow> nat" where
  "utf8_head xs =
     (case xs of
        [] \<Rightarrow> 0
      | a # ys \<Rightarrow>
          if a < 128 then 1
          else if 194 \<le> a \<and> a \<le> 223 then
            (case ys of b # _ \<Rightarrow> if utf8_cont b then 2 else 0 | _ \<Rightarrow> 0)
          else if 224 \<le> a \<and> a \<le> 239 then
            (case ys of
               b # c # _ \<Rightarrow>
                 if (if a = 224 then 160 else 128) \<le> b \<and>
                    b \<le> (if a = 237 then 159 else 191) \<and> utf8_cont c
                 then 3 else 0
             | _ \<Rightarrow> 0)
          else if 240 \<le> a \<and> a \<le> 244 then
            (case ys of
               b # c # d # _ \<Rightarrow>
                 if (if a = 240 then 144 else 128) \<le> b \<and>
                    b \<le> (if a = 244 then 143 else 191) \<and> utf8_cont c \<and> utf8_cont d
                 then 4 else 0
             | _ \<Rightarrow> 0)
          else 0)"

function utf8_valid :: "nat list \<Rightarrow> bool" where
  "utf8_valid xs =
     (if xs = [] then True
      else let k = utf8_head xs in if k = 0 then False else utf8_valid (drop k xs))"
  by pat_completeness auto
termination
  by (relation "measure length") simp_all

declare utf8_valid.simps [simp del]

lemma utf8_valid_Nil [simp]: "utf8_valid []"
  by (simp add: utf8_valid.simps)

lemma utf8_valid_ascii: "a < 128 \<Longrightarrow> utf8_valid (a # xs) = utf8_valid xs"
  by (simp add: utf8_valid.simps [of "a # xs"] utf8_head_def)

definition from_utf8_ok :: "string \<Rightarrow> bool" where
  "from_utf8_ok s = utf8_valid (map of_char s)"

definition ascii_char :: "char \<Rightarrow> bool" where
  "ascii_char c = ((of_char c :: nat) < 128)"

lemma from_utf8_ok_ascii: "\<forall>c \<in> set s. ascii_char c \<Longrightarrow> from_utf8_ok s"
  unfolding from_utf8_ok_def ascii_char_def by (induction s) (auto simp: utf8_valid_ascii)

lemma graph_ascii: "graph_char c \<Longrightarrow> ascii_char c"
  by (auto simp: graph_char_def ascii_char_def Let_def)

section \<open>Lists\<close>

text \<open>The elements at the positions \<open>a\<close> to \<open>b\<close>, both included, as byte ranges name them.\<close>

definition slice :: "'a list \<Rightarrow> nat \<Rightarrow> nat \<Rightarrow> 'a list" where
  "slice xs a b = take (b + 1 - a) (drop a xs)"

lemma length_slice: "length (slice xs a b) = min (b + 1 - a) (length xs - a)"
  by (simp add: slice_def min.commute)

lemma slice_append:
  "a \<le> m \<Longrightarrow> m \<le> b + 1 \<Longrightarrow> take (m - a) (drop a xs) @ slice xs m b = slice xs a b"
proof -
  assume "a \<le> m" "m \<le> b + 1"
  then have split: "b + 1 - a = (m - a) + (b + 1 - m)" and pos: "a + (m - a) = m" by simp_all
  show ?thesis unfolding slice_def split take_add drop_drop using pos by (simp add: add.commute)
qed

lemma slice_slice:
  assumes "s \<le> a" "a \<le> b" "b \<le> e"
  shows "take (Suc b - a) (drop (a - s) (slice xs s e)) = slice xs a b"
proof -
  have "Suc b - a \<le> Suc e - s - (a - s)" "s + (a - s) = a" using assms by simp_all
  then show ?thesis by (simp add: slice_def drop_take drop_drop min_def add.commute)
qed

lemma slice_full: "0 < length xs \<Longrightarrow> slice xs 0 (length xs - 1) = xs"
  by (simp add: slice_def)

section \<open>Transition systems\<close>

text \<open>
  Components with state that several tasks share are step relations. The locale states what
  an invariant has to satisfy once; each such component interprets it on its own initial
  states, steps and invariant.
\<close>

inductive reach :: "('s \<Rightarrow> bool) \<Rightarrow> ('s \<Rightarrow> 's \<Rightarrow> bool) \<Rightarrow> 's \<Rightarrow> bool"
  for init step where
  reach_init: "init s \<Longrightarrow> reach init step s"
| reach_step: "reach init step s \<Longrightarrow> step s t \<Longrightarrow> reach init step t"

locale transition_invariant =
  fixes init :: "'s \<Rightarrow> bool"
    and step :: "'s \<Rightarrow> 's \<Rightarrow> bool"
    and inv :: "'s \<Rightarrow> bool"
  assumes inv_init: "init s \<Longrightarrow> inv s"
    and inv_step: "inv s \<Longrightarrow> step s t \<Longrightarrow> inv t"
begin

lemma reach_inv: "reach init step s \<Longrightarrow> inv s"
proof (induction rule: reach.induct)
  case (reach_init s)
  then show ?case by (rule inv_init)
next
  case (reach_step s t)
  then show ?case by (blast intro: inv_step)
qed

lemma reach_consequence: "reach init step s \<Longrightarrow> (\<And>s. inv s \<Longrightarrow> P s) \<Longrightarrow> P s"
  using reach_inv by blast

end

end
