(* ===== verification/Cache_Types.thy ===== *)
theory Cache_Types
  imports Rust_Prelude "HOL-Library.Multiset"
begin

text \<open>
  \<open>src/src/error.rs\<close> and \<open>src/src/cache_types.rs\<close>: the error type, the cached object's
  metadata with its ranges, the tier a range counts toward, stored expiry, and the tracker of
  a multipart upload.

  A \<open>SystemTime\<close> is an integer number of nanoseconds from the Unix epoch and a \<open>Duration\<close> a
  natural number of nanoseconds. \<open>SystemTime::now()\<close> is the argument \<open>now\<close> of the operation
  that reads the clock. A \<open>HashMap\<close> that the code iterates over is the list of its entries in
  iteration order.
\<close>

section \<open>Errors (error.rs)\<close>

datatype ProxyError =
    IoError string
  | HttpError string
  | ConnectionError string
  | CacheError string
  | CacheVersionMismatch string string string
  | SignedHeaderRewriteRefused string string
  | CompressionError string
  | TlsError string
  | ConfigError string
  | DnsError string
  | TimeoutError string
  | SerializationError string
  | LockError string
  | LockContention string
  | InvalidRequest string
  | S3Error string
  | InternalError string
  | ServiceUnavailable string
  | InvalidRange string
  | SystemError string
  | RetryAfter u64
  | EvictionFenceLost string
  | RequestBodyTooLarge "u64 option" u64
  | UpstreamTlsValidationFailed string string
  | InflightCeilingExceeded u64 u64

text \<open>The \<open>Display\<close> form (\<open>to_string\<close>), which some callers match on.\<close>

primrec show_error :: "ProxyError \<Rightarrow> string" where
  "show_error (IoError m) = ''IO error: '' @ m"
| "show_error (HttpError m) = ''HTTP error: '' @ m"
| "show_error (ConnectionError m) = ''Connection error: '' @ m"
| "show_error (CacheError m) = ''Cache error: '' @ m"
| "show_error (CacheVersionMismatch k c r) =
     ''Cache object version mismatch: key='' @ k @ '', cached_etag='' @ c @ '', response_etag='' @ r"
| "show_error (SignedHeaderRewriteRefused h k) =
     ''Refusing to rewrite signed request header '' @ [CHR 0x27] @ h @ [CHR 0x27] @
     '' for cache repair: key='' @ k"
| "show_error (CompressionError m) = ''Compression error: '' @ m"
| "show_error (TlsError m) = ''TLS error: '' @ m"
| "show_error (ConfigError m) = ''Configuration error: '' @ m"
| "show_error (DnsError m) = ''DNS error: '' @ m"
| "show_error (TimeoutError m) = ''Timeout error: '' @ m"
| "show_error (SerializationError m) = ''Serialization error: '' @ m"
| "show_error (LockError m) = ''Lock error: '' @ m"
| "show_error (LockContention m) = ''Lock contention: '' @ m"
| "show_error (InvalidRequest m) = ''Invalid request: '' @ m"
| "show_error (S3Error m) = ''S3 error: '' @ m"
| "show_error (InternalError m) = ''Internal error: '' @ m"
| "show_error (ServiceUnavailable m) = ''Service unavailable: '' @ m"
| "show_error (InvalidRange m) = ''Invalid range: '' @ m"
| "show_error (SystemError m) = ''System error: '' @ m"
| "show_error (RetryAfter n) = ''Retry after '' @ show_nat n @ '' seconds''"
| "show_error (EvictionFenceLost m) = ''Eviction fence lost: '' @ m"
| "show_error (RequestBodyTooLarge l mx) =
     ''Request body too large: content_length='' @
     (case l of None \<Rightarrow> ''None'' | Some n \<Rightarrow> ''Some('' @ show_nat n @ '')'') @
     '', max_bytes='' @ show_nat mx"
| "show_error (UpstreamTlsValidationFailed e s) =
     ''Upstream TLS validation failed for '' @ e @ '': '' @ s"
| "show_error (InflightCeilingExceeded c r) =
     ''In-flight memory ceiling exceeded: ceiling_bytes='' @ show_nat c @
     '', requested_bytes='' @ show_nat r"

section \<open>Time\<close>

type_synonym SystemTime = int
type_synonym Duration = nat

abbreviation nanos_per_sec :: nat where
  "nanos_per_sec \<equiv> 1000000000"

definition from_secs :: "u64 \<Rightarrow> Duration" where
  "from_secs s = s * nanos_per_sec"

definition as_secs :: "Duration \<Rightarrow> u64" where
  "as_secs d = d div nanos_per_sec"

text \<open>
  \<open>SystemTime::checked_add\<close> fails when the whole seconds leave \<open>i64\<close>; \<open>SystemTime + Duration\<close>
  panics there (\<open>None\<close>). \<open>duration_since\<close> is an error when the argument is later.
\<close>

definition time_checked_add :: "SystemTime \<Rightarrow> Duration \<Rightarrow> SystemTime option" where
  "time_checked_add t d =
     (if (t + int d) div int nanos_per_sec \<le> 9223372036854775807
      then Some (t + int d) else None)"

definition duration_since :: "SystemTime \<Rightarrow> SystemTime \<Rightarrow> Duration option" where
  "duration_since t earlier = (if earlier \<le> t then Some (nat (t - earlier)) else None)"

definition duration_since_or_zero :: "SystemTime \<Rightarrow> SystemTime \<Rightarrow> Duration" where
  "duration_since_or_zero t earlier = (case duration_since t earlier of Some d \<Rightarrow> d | None \<Rightarrow> 0)"

definition MAX_TTL_SECS :: u64 where
  "MAX_TTL_SECS = 315360000"

definition safe_expiry :: "SystemTime \<Rightarrow> Duration \<Rightarrow> SystemTime" where
  "safe_expiry base ttl =
     (let MAX_TTL = from_secs MAX_TTL_SECS;
          clamped_ttl = (if ttl > MAX_TTL then MAX_TTL else ttl)
      in case time_checked_add base clamped_ttl of
           Some t \<Rightarrow> t
         | None \<Rightarrow> (case time_checked_add base MAX_TTL of Some t \<Rightarrow> t | None \<Rightarrow> base))"

section \<open>Lookup results\<close>

datatype ObjectExpirationResult =
    ObjectFresh
  | ObjectExpired "string option" "string option"

datatype RangeLookupPurpose = FreshServe | RevalidationCandidate

datatype StoredFreshness = Fresh | Expired

datatype CompressionAlgorithm = Lz4 | NoCompression

record CacheRangeSpec =
  cr_start :: u64
  cr_end :: u64
  cr_file_path :: string
  cr_compression_algorithm :: CompressionAlgorithm
  cr_compressed_size :: u64
  cr_uncompressed_size :: u64
  cr_created_at :: SystemTime
  cr_last_accessed :: SystemTime
  cr_access_count :: u64
  cr_staged :: "bool option"

record RangeLookupResult =
  lr_ranges :: "CacheRangeSpec list"
  lr_stored_freshness :: StoredFreshness

definition lookup_empty :: RangeLookupResult where
  "lookup_empty = \<lparr> lr_ranges = [], lr_stored_freshness = Fresh \<rparr>"

definition lookup_fresh :: "CacheRangeSpec list \<Rightarrow> RangeLookupResult" where
  "lookup_fresh ranges = \<lparr> lr_ranges = ranges, lr_stored_freshness = Fresh \<rparr>"

definition lookup_is_empty :: "RangeLookupResult \<Rightarrow> bool" where
  "lookup_is_empty r = (lr_ranges r = [])"

definition is_stored_expired :: "RangeLookupResult \<Rightarrow> bool" where
  "is_stored_expired r = (lr_stored_freshness r = Expired)"

record CompressionInfo =
  ci_body_algorithm :: CompressionAlgorithm
  ci_original_size :: "u64 option"
  ci_compressed_size :: "u64 option"
  ci_file_extension :: "string option"

definition CompressionInfo_default :: CompressionInfo where
  "CompressionInfo_default =
     \<lparr> ci_body_algorithm = Lz4, ci_original_size = None, ci_compressed_size = None,
       ci_file_extension = None \<rparr>"

section \<open>Multipart uploads\<close>

datatype UploadState = Complete | InProgress | Bypassed

record PartInfo =
  pi_part_number :: u32
  pi_size :: u64
  pi_etag :: string
  pi_data :: string

record CachedPartInfo =
  cp_part_number :: u32
  cp_size :: u64
  cp_etag :: string
  cp_compression_algorithm :: CompressionAlgorithm

record MultipartUploadTracker =
  mt_upload_id :: string
  mt_cache_key :: string
  mt_started_at :: SystemTime
  mt_parts :: "CachedPartInfo list"
  mt_total_size :: u64
  mt_content_type :: "string option"

definition tracker_new_with_content_type ::
    "SystemTime \<Rightarrow> string \<Rightarrow> string \<Rightarrow> string option \<Rightarrow> MultipartUploadTracker" where
  "tracker_new_with_content_type now upload_id cache_key content_type =
     \<lparr> mt_upload_id = upload_id, mt_cache_key = cache_key, mt_started_at = now, mt_parts = [],
       mt_total_size = 0, mt_content_type = content_type \<rparr>"

definition tracker_new :: "SystemTime \<Rightarrow> string \<Rightarrow> string \<Rightarrow> MultipartUploadTracker" where
  "tracker_new now upload_id cache_key =
     \<lparr> mt_upload_id = upload_id, mt_cache_key = cache_key, mt_started_at = now, mt_parts = [],
       mt_total_size = 0, mt_content_type = None \<rparr>"

text \<open>\<open>*existing = part_info\<close> on the first part with the same number.\<close>

fun replace_part :: "CachedPartInfo \<Rightarrow> CachedPartInfo list \<Rightarrow> CachedPartInfo list" where
  "replace_part p [] = []"
| "replace_part p (q # qs) =
     (if cp_part_number q = cp_part_number p then p # qs else q # replace_part p qs)"

definition add_part :: "CachedPartInfo \<Rightarrow> MultipartUploadTracker \<Rightarrow> MultipartUploadTracker" where
  "add_part part_info t =
     (let total = u64_add (mt_total_size t) (cp_size part_info)
      in case find (\<lambda>p. cp_part_number p = cp_part_number part_info) (mt_parts t) of
           Some existing \<Rightarrow>
             t\<lparr> mt_total_size := u64_sub total (cp_size existing),
                mt_parts := replace_part part_info (mt_parts t) \<rparr>
         | None \<Rightarrow> t\<lparr> mt_total_size := total, mt_parts := mt_parts t @ [part_info] \<rparr>)"

definition get_sorted_parts :: "MultipartUploadTracker \<Rightarrow> CachedPartInfo list" where
  "get_sorted_parts t = sort_key cp_part_number (mt_parts t)"

fun byte_offsets :: "u64 \<Rightarrow> CachedPartInfo list \<Rightarrow> (u32 \<times> u64 \<times> u64) list" where
  "byte_offsets current_offset [] = []"
| "byte_offsets current_offset (part # parts) =
     (cp_part_number part, current_offset,
      u64_sub (u64_add current_offset (cp_size part)) 1) #
     byte_offsets (u64_add current_offset (cp_size part)) parts"

definition calculate_byte_offsets :: "MultipartUploadTracker \<Rightarrow> (u32 \<times> u64 \<times> u64) list" where
  "calculate_byte_offsets t = byte_offsets 0 (get_sorted_parts t)"

definition tracker_is_expired :: "SystemTime \<Rightarrow> Duration \<Rightarrow> MultipartUploadTracker \<Rightarrow> bool" where
  "tracker_is_expired now ttl t =
     (case duration_since now (mt_started_at t) of Some elapsed \<Rightarrow> elapsed > ttl | None \<Rightarrow> False)"

section \<open>Object metadata\<close>

type_synonym headers = "(string \<times> string) list"

record ObjectMetadata =
  om_etag :: string
  om_last_modified :: string
  om_content_length :: u64
  om_content_type :: "string option"
  om_response_headers :: headers
  om_upload_state :: UploadState
  om_cumulative_size :: u64
  om_parts :: "PartInfo list"
  om_compression_algorithm :: CompressionAlgorithm
  om_compressed_size :: u64
  om_parts_count :: "u32 option"
  om_part_ranges :: "(u32 \<times> (u64 \<times> u64)) list"
  om_upload_id :: "string option"
  om_is_write_cached :: bool
  om_write_cache_expires_at :: "SystemTime option"
  om_write_cache_created_at :: "SystemTime option"
  om_write_cache_last_accessed :: "SystemTime option"
  om_graduation_accounted :: bool

definition ObjectMetadata_default :: ObjectMetadata where
  "ObjectMetadata_default =
     \<lparr> om_etag = [], om_last_modified = [], om_content_length = 0, om_content_type = None,
       om_response_headers = [], om_upload_state = Complete, om_cumulative_size = 0,
       om_parts = [], om_compression_algorithm = Lz4, om_compressed_size = 0,
       om_parts_count = None, om_part_ranges = [], om_upload_id = None,
       om_is_write_cached = False, om_write_cache_expires_at = None,
       om_write_cache_created_at = None, om_write_cache_last_accessed = None,
       om_graduation_accounted = False \<rparr>"

definition ObjectMetadata_new ::
    "string \<Rightarrow> string \<Rightarrow> u64 \<Rightarrow> string option \<Rightarrow> ObjectMetadata" where
  "ObjectMetadata_new etag last_modified content_length content_type =
     \<lparr> om_etag = etag, om_last_modified = last_modified, om_content_length = content_length,
       om_content_type = content_type, om_response_headers = [], om_upload_state = Complete,
       om_cumulative_size = content_length, om_parts = [], om_compression_algorithm = Lz4,
       om_compressed_size = content_length, om_parts_count = None, om_part_ranges = [],
       om_upload_id = None, om_is_write_cached = False, om_write_cache_expires_at = None,
       om_write_cache_created_at = None, om_write_cache_last_accessed = None,
       om_graduation_accounted = False \<rparr>"

definition ObjectMetadata_new_with_headers ::
    "string \<Rightarrow> string \<Rightarrow> u64 \<Rightarrow> string option \<Rightarrow> headers \<Rightarrow> ObjectMetadata" where
  "ObjectMetadata_new_with_headers etag last_modified content_length content_type response_headers =
     (ObjectMetadata_new etag last_modified content_length content_type)
       \<lparr> om_response_headers := response_headers \<rparr>"

definition ObjectMetadata_new_with_compression_and_headers ::
    "string \<Rightarrow> string \<Rightarrow> u64 \<Rightarrow> string option \<Rightarrow> headers \<Rightarrow> CompressionAlgorithm \<Rightarrow> u64 \<Rightarrow>
     ObjectMetadata" where
  "ObjectMetadata_new_with_compression_and_headers etag last_modified content_length content_type
       response_headers compression_algorithm compressed_size =
     (ObjectMetadata_new etag last_modified content_length content_type)
       \<lparr> om_response_headers := response_headers,
         om_compression_algorithm := compression_algorithm,
         om_compressed_size := compressed_size \<rparr>"

definition effective_last_modified :: "ObjectMetadata \<Rightarrow> string option" where
  "effective_last_modified m =
     (if om_last_modified m \<noteq> [] then Some (om_last_modified m)
      else (case find (\<lambda>(k, _). eq_ignore_ascii_case k ''last-modified'') (om_response_headers m) of
              Some (_, v) \<Rightarrow> if v \<noteq> [] then Some v else None
            | None \<Rightarrow> None))"

definition set_last_modified :: "string \<Rightarrow> ObjectMetadata \<Rightarrow> ObjectMetadata" where
  "set_last_modified last_modified m =
     m\<lparr> om_last_modified := last_modified,
        om_response_headers :=
          filter (\<lambda>(name, _). \<not> eq_ignore_ascii_case name ''last-modified'')
            (om_response_headers m) @ [(''last-modified'', last_modified)] \<rparr>"

definition is_write_cache_expired :: "SystemTime \<Rightarrow> ObjectMetadata \<Rightarrow> bool" where
  "is_write_cache_expired now m =
     (if \<not> om_is_write_cached m then False
      else (case om_write_cache_expires_at m of
              Some expires_at \<Rightarrow> now > expires_at
            | None \<Rightarrow> False))"

section \<open>Range tiers and scores\<close>

definition classify_new_range_as_staged :: "string \<Rightarrow> bool \<Rightarrow> bool" where
  "classify_new_range_as_staged range_file_path is_write_cached =
     (is_write_cached \<or> contains_str ''mpus_in_progress/'' range_file_path)"

definition is_staged_range_parts :: "bool option \<Rightarrow> string \<Rightarrow> bool \<Rightarrow> bool" where
  "is_staged_range_parts staged range_file_path object_is_write_cached =
     (case staged of
        Some staged \<Rightarrow> staged
      | None \<Rightarrow> classify_new_range_as_staged range_file_path object_is_write_cached)"

definition is_staged_range_spec :: "CacheRangeSpec \<Rightarrow> bool \<Rightarrow> bool" where
  "is_staged_range_spec r object_is_write_cached =
     is_staged_range_parts (cr_staged r) (cr_file_path r) object_is_write_cached"

definition CacheRangeSpec_new ::
    "SystemTime \<Rightarrow> u64 \<Rightarrow> u64 \<Rightarrow> string \<Rightarrow> CompressionAlgorithm \<Rightarrow> u64 \<Rightarrow> u64 \<Rightarrow> CacheRangeSpec" where
  "CacheRangeSpec_new now s e file_path compression_algorithm compressed_size uncompressed_size =
     \<lparr> cr_start = s, cr_end = e, cr_file_path = file_path,
       cr_compression_algorithm = compression_algorithm, cr_compressed_size = compressed_size,
       cr_uncompressed_size = uncompressed_size, cr_created_at = now, cr_last_accessed = now,
       cr_access_count = 1, cr_staged = None \<rparr>"

definition CacheRangeSpec_new_staged ::
    "SystemTime \<Rightarrow> u64 \<Rightarrow> u64 \<Rightarrow> string \<Rightarrow> CompressionAlgorithm \<Rightarrow> u64 \<Rightarrow> u64 \<Rightarrow> bool \<Rightarrow>
     CacheRangeSpec" where
  "CacheRangeSpec_new_staged now s e file_path compression_algorithm compressed_size
       uncompressed_size staged =
     (CacheRangeSpec_new now s e file_path compression_algorithm compressed_size uncompressed_size)
       \<lparr> cr_staged := Some staged \<rparr>"

definition lru_score :: "CacheRangeSpec \<Rightarrow> u64" where
  "lru_score r = as_secs (duration_since_or_zero (cr_last_accessed r) 0)"

text \<open>\<open>decayed_frequency\<close> is in \<open>cache.rs\<close>; \<open>tinylfu_score\<close> is its only use here.\<close>

definition TINYLFU_HALF_LIFE_SECS :: u64 where
  "TINYLFU_HALF_LIFE_SECS = 3600"

definition decayed_frequency :: "u64 \<Rightarrow> u64 \<Rightarrow> u64" where
  "decayed_frequency access_count idle_secs =
     (let halvings = min (idle_secs div TINYLFU_HALF_LIFE_SECS) 63
      in access_count div 2 ^ halvings)"

definition tinylfu_score :: "SystemTime \<Rightarrow> CacheRangeSpec \<Rightarrow> u64" where
  "tinylfu_score now r =
     decayed_frequency (cr_access_count r)
       (as_secs (duration_since_or_zero now (cr_last_accessed r)))"

definition record_access :: "SystemTime \<Rightarrow> CacheRangeSpec \<Rightarrow> CacheRangeSpec" where
  "record_access now r =
     r\<lparr> cr_last_accessed := now, cr_access_count := u64_add (cr_access_count r) 1 \<rparr>"

section \<open>Metadata files\<close>

record NewCacheMetadata =
  nm_cache_key :: string
  nm_object_metadata :: ObjectMetadata
  nm_ranges :: "CacheRangeSpec list"
  nm_created_at :: SystemTime
  nm_expires_at :: SystemTime
  nm_compression_info :: CompressionInfo
  nm_head_expires_at :: "SystemTime option"
  nm_head_last_accessed :: "SystemTime option"
  nm_head_access_count :: u64
  nm_head_cached_at :: "SystemTime option"

definition NewCacheMetadata_default :: "SystemTime \<Rightarrow> NewCacheMetadata" where
  "NewCacheMetadata_default now =
     \<lparr> nm_cache_key = [], nm_object_metadata = ObjectMetadata_default, nm_ranges = [],
       nm_created_at = now, nm_expires_at = now, nm_compression_info = CompressionInfo_default,
       nm_head_expires_at = None, nm_head_last_accessed = None, nm_head_access_count = 0,
       nm_head_cached_at = None \<rparr>"

definition is_head_expired :: "SystemTime \<Rightarrow> NewCacheMetadata \<Rightarrow> bool" where
  "is_head_expired now m =
     (case nm_head_expires_at m of Some expires_at \<Rightarrow> now > expires_at | None \<Rightarrow> True)"

definition refresh_head_ttl ::
    "SystemTime \<Rightarrow> Duration \<Rightarrow> NewCacheMetadata \<Rightarrow> NewCacheMetadata option" where
  "refresh_head_ttl now ttl m =
     (case time_checked_add now ttl of
        None \<Rightarrow> None
      | Some e \<Rightarrow>
          Some (m\<lparr> nm_head_expires_at := Some e, nm_head_last_accessed := Some now,
                   nm_head_cached_at := Some now \<rparr>))"

definition record_head_access :: "SystemTime \<Rightarrow> NewCacheMetadata \<Rightarrow> NewCacheMetadata" where
  "record_head_access now m =
     m\<lparr> nm_head_access_count := u64_add (nm_head_access_count m) 1,
        nm_head_last_accessed := Some now \<rparr>"

definition is_object_expired :: "SystemTime \<Rightarrow> NewCacheMetadata \<Rightarrow> bool" where
  "is_object_expired now m = (now > nm_expires_at m)"

definition u64_sum :: "u64 list \<Rightarrow> u64" where
  "u64_sum xs = foldl u64_add 0 xs"

definition staged_compressed_size :: "NewCacheMetadata \<Rightarrow> u64" where
  "staged_compressed_size m =
     u64_sum (map cr_compressed_size
       (filter (\<lambda>r. is_staged_range_spec r (om_is_write_cached (nm_object_metadata m)))
         (nm_ranges m)))"

definition has_staged_range :: "NewCacheMetadata \<Rightarrow> bool" where
  "has_staged_range m =
     list_ex (\<lambda>r. is_staged_range_spec r (om_is_write_cached (nm_object_metadata m))) (nm_ranges m)"

definition refresh_object_ttl :: "SystemTime \<Rightarrow> Duration \<Rightarrow> NewCacheMetadata \<Rightarrow> NewCacheMetadata" where
  "refresh_object_ttl now ttl m = m\<lparr> nm_expires_at := safe_expiry now ttl \<rparr>"

text \<open>\<open>is_head_fresh\<close> of \<open>cache.rs\<close>: the live check of a HEAD entry.\<close>

definition is_head_fresh ::
    "SystemTime option \<Rightarrow> SystemTime option \<Rightarrow> SystemTime \<Rightarrow> Duration \<Rightarrow> SystemTime \<Rightarrow> bool" where
  "is_head_fresh head_expires_at head_cached_at created_at current_head_ttl now =
     (let anchor = (case head_cached_at of Some a \<Rightarrow> a | None \<Rightarrow> created_at)
      in head_expires_at \<noteq> None \<and> current_head_ttl \<noteq> 0 \<and>
         duration_since_or_zero now anchor \<le> current_head_ttl)"

section \<open>Expiry\<close>

lemma time_checked_add_Some: "time_checked_add t d = Some u \<Longrightarrow> u = t + int d"
  by (simp add: time_checked_add_def split: if_splits)

lemma time_checked_add_mono:
  "time_checked_add t d = None \<Longrightarrow> d \<le> e \<Longrightarrow> time_checked_add t e = None"
proof -
  assume none: "time_checked_add t d = None" and "d \<le> e"
  then have "(t + int d) div int nanos_per_sec \<le> (t + int e) div int nanos_per_sec"
    by (intro zdiv_mono1) simp_all
  with none show "time_checked_add t e = None"
    by (simp add: time_checked_add_def split: if_splits)
qed

text \<open>
  The stored expiry never precedes the base, is at most ten years after it whatever the
  configured TTL, and is exactly the base plus the TTL whenever that is at most ten years and
  representable.
\<close>

lemma safe_expiry_bounds:
  "base \<le> safe_expiry base ttl \<and>
   safe_expiry base ttl \<le> base + int (from_secs MAX_TTL_SECS) \<and>
   (safe_expiry base ttl =
      (if time_checked_add base (min ttl (from_secs MAX_TTL_SECS)) \<noteq> None
       then base + int (min ttl (from_secs MAX_TTL_SECS)) else base))"
proof -
  define c where "c = min ttl (from_secs MAX_TTL_SECS)"
  have c: "(if ttl > from_secs MAX_TTL_SECS then from_secs MAX_TTL_SECS else ttl) = c"
    by (simp add: c_def)
  have "c \<le> from_secs MAX_TTL_SECS" by (simp add: c_def)
  show ?thesis
  proof (cases "time_checked_add base c")
    case None
    then have "time_checked_add base (from_secs MAX_TTL_SECS) = None"
      using \<open>c \<le> _\<close> by (rule time_checked_add_mono)
    with None c show ?thesis by (simp add: safe_expiry_def c_def [symmetric])
  next
    case (Some t)
    then have "t = base + int c" by (rule time_checked_add_Some)
    with Some c \<open>c \<le> _\<close> show ?thesis by (simp add: safe_expiry_def c_def [symmetric])
  qed
qed

section \<open>The multipart tracker\<close>

lemma u64_sum_mod: "u64_sum xs = sum_list xs mod u64_mod"
proof -
  have "foldl u64_add a xs mod u64_mod = (a + sum_list xs) mod u64_mod" for a
    by (induction xs arbitrary: a) (simp_all add: u64_add_def mod_simps add.assoc)
  moreover have "foldl u64_add 0 xs < u64_mod"
    by (cases xs rule: rev_cases) (simp_all add: u64_add_bound)
  ultimately show ?thesis unfolding u64_sum_def by (metis add_0 mod_less)
qed

definition tracker_ok :: "MultipartUploadTracker \<Rightarrow> bool" where
  "tracker_ok t \<longleftrightarrow>
     distinct (map cp_part_number (mt_parts t)) \<and>
     mt_total_size t = sum_list (map cp_size (mt_parts t)) mod u64_mod"

definition find_part :: "u32 \<Rightarrow> MultipartUploadTracker \<Rightarrow> CachedPartInfo option" where
  "find_part n t = find (\<lambda>p. cp_part_number p = n) (mt_parts t)"

lemma replace_part_numbers [simp]:
  "map cp_part_number (replace_part p qs) = map cp_part_number qs"
  by (induction qs) auto

lemma replace_part_sum:
  "find (\<lambda>q. cp_part_number q = cp_part_number p) qs = Some e \<Longrightarrow>
     sum_list (map cp_size (replace_part p qs)) + cp_size e =
     sum_list (map cp_size qs) + cp_size p"
  by (induction qs) (auto split: if_splits)

lemma replace_part_find:
  "find (\<lambda>q. cp_part_number q = cp_part_number p) qs \<noteq> None \<Longrightarrow>
     find (\<lambda>q. cp_part_number q = n) (replace_part p qs) =
     (if n = cp_part_number p then Some p else find (\<lambda>q. cp_part_number q = n) qs)"
  by (induction qs) (auto split: if_splits)

lemma find_append: "find P (xs @ ys) = (case find P xs of None \<Rightarrow> find P ys | Some x \<Rightarrow> Some x)"
  by (induction xs) auto

lemma find_part_add_part:
  "find_part n (add_part p t) = (if n = cp_part_number p then Some p else find_part n t)"
  by (auto simp: find_part_def add_part_def Let_def find_append replace_part_find
        split: option.splits)

lemma mod_add_sub:
  fixes M :: nat
  assumes "e < M"
  shows "(if e \<le> (s + e) mod M then (s + e) mod M - e else (s + e) mod M + M - e) = s mod M"
proof -
  define r where "r = s mod M"
  have "r < M" using assms by (simp add: r_def)
  have "(s + e) mod M = (r + e) mod M" by (simp add: r_def mod_simps)
  also have "\<dots> = (if r + e < M then r + e else r + e - M)"
    using \<open>r < M\<close> assms by (simp add: mod_if [of "r + e"])
  finally show ?thesis using \<open>r < M\<close> assms unfolding r_def [symmetric] by auto
qed

lemma u64_replace_sum:
  assumes "s' + e = s + p" "e < u64_mod"
  shows "u64_sub (u64_add (s mod u64_mod) p) e = s' mod u64_mod"
proof -
  have "u64_add (s mod u64_mod) p = (s' + e) mod u64_mod"
    by (simp only: u64_add_def mod_simps assms)
  with mod_add_sub [OF assms(2), of s'] show ?thesis by (simp only: u64_sub_def)
qed

lemma tracker_ok_new: "tracker_ok (tracker_new now u k)"
  by (simp add: tracker_ok_def tracker_new_def)

lemma tracker_ok_add_part:
  assumes ok: "tracker_ok t" and sizes: "\<forall>q \<in> set (mt_parts t). cp_size q < u64_mod"
  shows "tracker_ok (add_part p t)"
proof (cases "find (\<lambda>q. cp_part_number q = cp_part_number p) (mt_parts t)")
  case None
  then have "cp_part_number p \<notin> set (map cp_part_number (mt_parts t))"
    by (auto simp: find_None_iff)
  with None ok show ?thesis
    by (simp add: tracker_ok_def add_part_def Let_def u64_add_def mod_simps)
next
  case (Some e)
  then have "e \<in> set (mt_parts t)" by (auto simp: find_Some_iff)
  with sizes have "cp_size e < u64_mod" by blast
  from u64_replace_sum [OF replace_part_sum [OF Some] this] Some ok show ?thesis
    by (simp add: tracker_ok_def add_part_def Let_def)
qed

lemma set_replace_part: "set (replace_part p qs) \<subseteq> insert p (set qs)"
  by (induction qs) auto

lemma set_parts_add_part: "set (mt_parts (add_part p t)) \<subseteq> insert p (set (mt_parts t))"
  using set_replace_part [of p "mt_parts t"]
  by (auto simp: add_part_def Let_def split: option.splits)

lemma sum_parts_add_part:
  "sum_list (map cp_size (mt_parts (add_part p t))) \<le>
   sum_list (map cp_size (mt_parts t)) + cp_size p"
proof (cases "find (\<lambda>q. cp_part_number q = cp_part_number p) (mt_parts t)")
  case (Some e)
  then show ?thesis
    using replace_part_sum [OF Some] by (simp add: add_part_def Let_def)
qed (simp add: add_part_def Let_def)

lemma fold_add_part:
  assumes "tracker_ok t" "\<forall>q \<in> set (mt_parts t) \<union> set ps. cp_size q < u64_mod"
  shows "tracker_ok (fold add_part ps t)"
    and "set (mt_parts (fold add_part ps t)) \<subseteq> set (mt_parts t) \<union> set ps"
    and "sum_list (map cp_size (mt_parts (fold add_part ps t))) \<le>
         sum_list (map cp_size (mt_parts t)) + sum_list (map cp_size ps)"
    and "find_part n (fold add_part ps t) =
         (case find (\<lambda>p. cp_part_number p = n) (rev ps) of
            Some p \<Rightarrow> Some p | None \<Rightarrow> find_part n t)"
  using assms
proof (induction ps rule: rev_induct)
  case (snoc p ps)
  let ?t = "fold add_part ps t"
  {
    case 1
    have "\<forall>q \<in> set (mt_parts ?t). cp_size q < u64_mod"
      using snoc.IH(2) 1 by (auto dest!: subsetD)
    with snoc.IH(1) 1 show ?case by (simp add: tracker_ok_add_part)
  next
    case 2
    with snoc.IH(2) set_parts_add_part [of p ?t] show ?case by auto
  next
    case 3
    with snoc.IH(3) sum_parts_add_part [of p ?t] show ?case by simp
  next
    case 4
    with snoc.IH(4) show ?case by (simp add: find_part_add_part)
  }
qed (simp_all add: find_part_def)

text \<open>Consecutive offsets that start at \<open>s\<close> and stop right before \<open>e\<close>.\<close>

fun tiles :: "u64 \<Rightarrow> (u32 \<times> u64 \<times> u64) list \<Rightarrow> u64 \<Rightarrow> bool" where
  "tiles s [] e = (s = e)"
| "tiles s ((n, a, b) # os) e = (a = s \<and> a \<le> b \<and> tiles (b + 1) os e)"

lemma byte_offsets_tiles:
  "\<forall>p \<in> set ps. 0 < cp_size p \<Longrightarrow> s + sum_list (map cp_size ps) < u64_mod \<Longrightarrow>
     tiles s (byte_offsets s ps) (s + sum_list (map cp_size ps)) \<and>
     map (\<lambda>(n, a, b). (n, b + 1 - a)) (byte_offsets s ps) =
       map (\<lambda>p. (cp_part_number p, cp_size p)) ps"
proof (induction ps arbitrary: s)
  case (Cons p ps)
  have add: "u64_add s (cp_size p) = s + cp_size p"
    using Cons.prems(2) by (intro u64_add_exact) simp
  have "0 < cp_size p" using Cons.prems(1) by simp
  with Cons.IH [of "s + cp_size p"] Cons.prems show ?case
    by (simp add: add u64_sub_exact add.assoc)
qed simp

lemma sum_list_sort_key: "sum_list (map f (sort_key g xs)) = (sum_list (map f xs) :: nat)"
proof -
  have "mset (map f (sort_key g xs)) = mset (map f xs)" by simp
  then show ?thesis by (metis sum_mset_sum_list)
qed

lemma distinct_map_sort_key: "distinct (map f (sort_key g xs)) = distinct (map f xs)"
  by (rule mset_eq_imp_distinct_iff) simp


definition sample_part :: "u32 \<Rightarrow> u64 \<Rightarrow> CachedPartInfo" where
  "sample_part n sz =
     \<lparr> cp_part_number = n, cp_size = sz, cp_etag = ''e'', cp_compression_algorithm = Lz4 \<rparr>"


section \<open>Last-Modified, tiers and scores\<close>

text \<open>
  After \<open>set_last_modified\<close> both sources hold the value and no other case variant of the
  header is left, so every reader sees the same answer.
\<close>

lemma set_last_modified_both:
  "om_last_modified (set_last_modified v m) = v"
  "(k, w) \<in> set (om_response_headers (set_last_modified v m)) \<Longrightarrow>
     eq_ignore_ascii_case k ''last-modified'' \<Longrightarrow> k = ''last-modified'' \<and> w = v"
  by (auto simp: set_last_modified_def)

lemma find_filter_not: "find P (filter (\<lambda>x. \<not> P x) xs) = None"
  by (auto simp: find_None_iff)

lemma effective_set_last_modified:
  "effective_last_modified (set_last_modified v m) = (if v = [] then None else Some v)"
proof -
  let ?P = "\<lambda>(k, _ :: string). eq_ignore_ascii_case k ''last-modified''"
  have "(\<lambda>(name, _ :: string). \<not> eq_ignore_ascii_case name ''last-modified'') = (\<lambda>x. \<not> ?P x)"
    by auto
  then have "find ?P (om_response_headers (set_last_modified v m)) = Some (''last-modified'', v)"
    using find_filter_not [of ?P]
    by (simp add: set_last_modified_def find_append eq_ignore_ascii_case_def)
  then show ?thesis
    by (cases "v = []") (simp_all add: effective_last_modified_def set_last_modified_both)
qed

lemma effective_last_modified_nonempty: "effective_last_modified m = Some v \<Longrightarrow> v \<noteq> []"
  by (auto simp: effective_last_modified_def split: if_splits option.splits)

text \<open>A recorded tier is never overridden by the object's flag or by the path.\<close>

lemma staged_recorded: "is_staged_range_spec (r\<lparr> cr_staged := Some b \<rparr>) w = b"
  by (simp add: is_staged_range_spec_def is_staged_range_parts_def)

lemma staged_new_staged:
  "is_staged_range_spec (CacheRangeSpec_new_staged now s e p a c u b) w = b"
  by (simp add: CacheRangeSpec_new_staged_def staged_recorded)

lemma staged_size_zero: "\<not> has_staged_range m \<Longrightarrow> staged_compressed_size m = 0"
  by (simp add: has_staged_range_def staged_compressed_size_def list_ex_iff u64_sum_mod
        filter_False)

text \<open>The decayed frequency falls with idle time and rises with the access count.\<close>

lemma decayed_frequency_idle:
  assumes "i \<le> j"
  shows "decayed_frequency a j \<le> decayed_frequency a i"
proof -
  have "i div 3600 \<le> j div (3600 :: nat)" using assms by (rule div_le_mono)
  then have "(2 :: nat) ^ min (i div 3600) 63 \<le> 2 ^ min (j div 3600) 63"
    by (intro power_increasing) (auto simp: min_def)
  then show ?thesis
    unfolding decayed_frequency_def Let_def TINYLFU_HALF_LIFE_SECS_def
    by (intro div_le_mono2) simp_all
qed

lemma decayed_frequency_count:
  "a \<le> b \<Longrightarrow> decayed_frequency a i \<le> decayed_frequency b i"
  by (simp add: decayed_frequency_def Let_def div_le_mono)

text \<open>Right after \<open>refresh_head_ttl\<close> with a positive TTL the HEAD entry is live and unexpired.\<close>

lemma refresh_head_ttl_fresh:
  assumes "refresh_head_ttl now ttl m = Some m'" "0 < ttl"
  shows "is_head_fresh (nm_head_expires_at m') (nm_head_cached_at m') (nm_created_at m') ttl now \<and>
         \<not> is_head_expired now m'"
  using assms
  by (auto simp: refresh_head_ttl_def is_head_fresh_def is_head_expired_def Let_def
        duration_since_or_zero_def duration_since_def
        dest!: time_checked_add_Some split: option.splits)

lemma refresh_object_ttl_live: "\<not> is_object_expired now (refresh_object_ttl now ttl m)"
  using safe_expiry_bounds [of now ttl] by (simp add: is_object_expired_def refresh_object_ttl_def)

end
