(* ===== verification/Path_Safety.thy ===== *)
theory Path_Safety
  imports Cache_Types
begin

text \<open>
  \<open>src/src/path_safety.rs\<close> and the key and path functions at the end of
  \<open>src/src/disk_cache.rs\<close>: which strings may become path components, how a cache key splits
  into bucket and object key, and which object version a range file belongs to.

  BLAKE3 is a parameter: \<open>blake3 s\<close> is the hexadecimal digest of \<open>s\<close>.
\<close>

section \<open>Path components\<close>

definition control_byte :: "char \<Rightarrow> bool" where
  "control_byte c = (let n = of_char c :: nat in n \<le> 31 \<or> n = 127)"

abbreviation slash :: char where
  "slash \<equiv> CHR ''/''"

abbreviation backslash :: char where
  "backslash \<equiv> CHR 0x5C"

definition is_safe_path_component :: "string \<Rightarrow> bool" where
  "is_safe_path_component component =
     (if component = [] then False
      else if contains_str ''..'' component then False
      else list_all (\<lambda>b. b \<noteq> slash \<and> b \<noteq> backslash \<and> \<not> control_byte b) component)"

definition is_safe_relative_file_path :: "string \<Rightarrow> bool" where
  "is_safe_relative_file_path relative_path =
     (if relative_path = [] then False
      else if starts_with [slash] relative_path \<or> starts_with [backslash] relative_path then False
      else if backslash \<in> set relative_path then False
      else if list_ex control_byte relative_path then False
      else list_all (\<lambda>component. component \<noteq> ''..'') (split_char slash relative_path))"

section \<open>Cache keys\<close>

text \<open>\<open>{:02X}\<close>.\<close>

definition upper_hex2 :: "nat \<Rightarrow> string" where
  "upper_hex2 n =
     map (\<lambda>d. if d < 10 then char_of (48 + d) else char_of (55 + d)) [n div 16, n mod 16]"

definition validate_bucket_segment :: "string \<Rightarrow> ProxyError + unit" where
  "validate_bucket_segment bucket =
     (if bucket = [] then Inl (CacheError ''Invalid cache key: empty bucket segment'')
      else if bucket = ''.'' \<or> bucket = ''..'' then
        Inl (CacheError (''Invalid cache key: bucket segment '' @ [CHR 0x27] @ bucket @
               [CHR 0x27] @ '' is not allowed''))
      else
        (case find (\<lambda>b. b = slash \<or> b = backslash \<or> control_byte b) bucket of
           Some b \<Rightarrow>
             Inl (CacheError (''Invalid cache key: bucket segment '' @ [CHR 0x27] @ bucket @
                    [CHR 0x27] @ '' contains an invalid byte (0x'' @ upper_hex2 (of_char b) @ '')''))
         | None \<Rightarrow> Inr ()))"

definition normalize_cache_key :: "string \<Rightarrow> string" where
  "normalize_cache_key cache_key =
     (case strip_prefix [slash] cache_key of Some k \<Rightarrow> k | None \<Rightarrow> cache_key)"

definition parse_cache_key :: "string \<Rightarrow> ProxyError + (string \<times> string)" where
  "parse_cache_key cache_key =
     (let key = (case strip_prefix [slash] cache_key of Some k \<Rightarrow> k | None \<Rightarrow> cache_key)
      in case split_once slash key of
           None \<Rightarrow>
             Inl (CacheError (''Invalid cache key format: '' @ [CHR 0x27] @ cache_key @ [CHR 0x27] @
                    ''. Expected format: '' @ [CHR 0x27] @ ''bucket/object_key'' @ [CHR 0x27]))
         | Some (bucket, object_key) \<Rightarrow>
             (case validate_bucket_segment bucket of
                Inl e \<Rightarrow> Inl e
              | Inr _ \<Rightarrow>
                  if object_key = [] then
                    Inl (CacheError (''Invalid cache key format: '' @ [CHR 0x27] @ cache_key @
                           [CHR 0x27] @ ''. Object key must be non-empty''))
                  else Inr (bucket, object_key)))"

section \<open>File names\<close>

text \<open>
  The percent encoder of the \<open>percent-encoding\<close> crate is the parameter \<open>pct\<close>: \<open>pct enc s\<close>
  encodes the bytes of \<open>s\<close> that satisfy \<open>enc\<close>, and the bytes outside ASCII.
\<close>

definition FRAGMENT :: "char \<Rightarrow> bool" where
  "FRAGMENT c = (control_byte c \<or> c \<in> set '' /:*?<>|%'' \<or> c = backslash \<or> c = CHR 0x22)"

definition sanitize_object_key_for_filename ::
    "(string \<Rightarrow> string) \<Rightarrow> ((char \<Rightarrow> bool) \<Rightarrow> string \<Rightarrow> string) \<Rightarrow> string \<Rightarrow> string \<Rightarrow> string" where
  "sanitize_object_key_for_filename blake3 pct object_key suffix =
     (let sanitized = pct FRAGMENT object_key
      in if length sanitized > 200 then blake3 object_key @ suffix else sanitized @ suffix)"

text \<open>A path under a base directory is the list of the components joined onto it.\<close>

definition get_sharded_path ::
    "(string \<Rightarrow> string) \<Rightarrow> ((char \<Rightarrow> bool) \<Rightarrow> string \<Rightarrow> string) \<Rightarrow> string \<Rightarrow> string \<Rightarrow>
     ProxyError + string list" where
  "get_sharded_path blake3 pct cache_key suffix =
     (case parse_cache_key cache_key of
        Inl e \<Rightarrow> Inl e
      | Inr (bucket, object_key) \<Rightarrow>
          let hash_hex = blake3 object_key;
              level1 = take 2 hash_hex;
              level2 = take 3 (drop 2 hash_hex);
              filename = sanitize_object_key_for_filename blake3 pct object_key suffix
          in Inr [bucket, level1, level2, filename])"

definition sanitize_cache_key_new ::
    "(string \<Rightarrow> string) \<Rightarrow> ((char \<Rightarrow> bool) \<Rightarrow> string \<Rightarrow> string) \<Rightarrow> string \<Rightarrow> string" where
  "sanitize_cache_key_new blake3 pct cache_key =
     (let sanitized = pct FRAGMENT cache_key
      in if length sanitized > 200 then ''long_key_'' @ blake3 cache_key else sanitized)"

definition get_new_metadata_file_path ::
    "(string \<Rightarrow> string) \<Rightarrow> ((char \<Rightarrow> bool) \<Rightarrow> string \<Rightarrow> string) \<Rightarrow> string \<Rightarrow> string list" where
  "get_new_metadata_file_path blake3 pct cache_key =
     (case get_sharded_path blake3 pct cache_key ''.meta'' of
        Inr path \<Rightarrow> path
      | Inl e \<Rightarrow> [sanitize_cache_key_new blake3 pct cache_key @ ''.meta''])"

definition range_suffix :: "u64 \<Rightarrow> u64 \<Rightarrow> string" where
  "range_suffix s e = ''_'' @ show_nat s @ ''-'' @ show_nat e"

definition get_new_range_file_path ::
    "(string \<Rightarrow> string) \<Rightarrow> ((char \<Rightarrow> bool) \<Rightarrow> string \<Rightarrow> string) \<Rightarrow> string \<Rightarrow> u64 \<Rightarrow> u64 \<Rightarrow>
     string list" where
  "get_new_range_file_path blake3 pct cache_key s e =
     (case get_sharded_path blake3 pct cache_key (range_suffix s e @ ''.bin'') of
        Inr path \<Rightarrow> path
      | Inl _ \<Rightarrow> [sanitize_cache_key_new blake3 pct cache_key @ range_suffix s e @ ''.bin''])"

section \<open>Object versions\<close>

definition object_version_id :: "(string \<Rightarrow> string) \<Rightarrow> string \<Rightarrow> string" where
  "object_version_id blake3 etag = blake3 etag"

definition range_file_belongs_to :: "CacheRangeSpec \<Rightarrow> string \<Rightarrow> bool" where
  "range_file_belongs_to r version_id =
     (case strip_suffix ''.bin'' (cr_file_path r) of
        None \<Rightarrow> False
      | Some stem \<Rightarrow>
          (case strip_suffix version_id stem of
             None \<Rightarrow> False
           | Some stem \<Rightarrow>
               (case strip_suffix ''.'' stem of
                  None \<Rightarrow> False
                | Some stem \<Rightarrow> ends_with (range_suffix (cr_start r) (cr_end r)) stem)))"

text \<open>\<open>Path::with_extension\<close> and \<open>Path::file_name\<close> on a file name and on a relative path.\<close>

definition with_extension :: "string \<Rightarrow> string \<Rightarrow> string" where
  "with_extension name ext =
     (case rsplit_once (CHR ''.'') name of
        Some (stem, _) \<Rightarrow> if stem = [] then name @ ''.'' @ ext else stem @ ''.'' @ ext
      | None \<Rightarrow> name @ ''.'' @ ext)"

definition path_file_name :: "string \<Rightarrow> string option" where
  "path_file_name path =
     (case filter (\<lambda>c. c \<noteq> [] \<and> c \<noteq> ''.'') (split_char slash path) of
        [] \<Rightarrow> None
      | cs \<Rightarrow> if last cs = ''..'' then None else Some (last cs))"

definition versioned_range_file_path ::
    "(string \<Rightarrow> string) \<Rightarrow> string list \<Rightarrow> string \<Rightarrow> u64 \<Rightarrow> u64 \<Rightarrow> string \<Rightarrow> string list" where
  "versioned_range_file_path blake3 path cache_key s e etag =
     (let version = object_version_id blake3 etag;
          name = with_extension (last path) (version @ ''.bin'')
      in if length name > 255
         then butlast path @ [blake3 cache_key @ range_suffix s e @ ''.'' @ version @ ''.bin'']
         else butlast path @ [name])"

definition get_versioned_range_file_path ::
    "(string \<Rightarrow> string) \<Rightarrow> ((char \<Rightarrow> bool) \<Rightarrow> string \<Rightarrow> string) \<Rightarrow> string \<Rightarrow> u64 \<Rightarrow> u64 \<Rightarrow> string \<Rightarrow>
     string list" where
  "get_versioned_range_file_path blake3 pct cache_key s e etag =
     versioned_range_file_path blake3 (get_new_range_file_path blake3 pct cache_key s e)
       cache_key s e etag"

definition hex_digit :: "char \<Rightarrow> bool" where
  "hex_digit c = (let n = of_char c :: nat in 48 \<le> n \<and> n \<le> 57 \<or> 65 \<le> n \<and> n \<le> 70 \<or> 97 \<le> n \<and> n \<le> 102)"

definition range_file_version :: "string \<Rightarrow> string option" where
  "range_file_version file_path =
     (case path_file_name file_path of
        None \<Rightarrow> None
      | Some name \<Rightarrow>
          (case strip_suffix ''.bin'' name of
             None \<Rightarrow> None
           | Some stem \<Rightarrow>
               (case rsplit_once (CHR ''.'') stem of
                  None \<Rightarrow> None
                | Some (_, version) \<Rightarrow>
                    if length version = 64 \<and> list_all hex_digit version
                    then Some version else None)))"

text \<open>\<open>content_range_end\<close>: the end byte of a \<open>Content-Range\<close> response header.\<close>

definition content_range_end :: "headers \<Rightarrow> u64 option" where
  "content_range_end headers =
     (case find (\<lambda>(k, _). eq_ignore_ascii_case k ''content-range'') headers of
        None \<Rightarrow> None
      | Some (_, v) \<Rightarrow>
          (case strip_prefix ''bytes '' (trim v) of
             None \<Rightarrow> None
           | Some spec \<Rightarrow>
               (case split_once slash spec of
                  None \<Rightarrow> None
                | Some (range', _) \<Rightarrow>
                    (case split_once (CHR ''-'') range' of
                       None \<Rightarrow> None
                     | Some (_, e) \<Rightarrow> parse_u64 (trim e)))))"

section \<open>No path leaves its base directory\<close>

text \<open>
  How the operating system walks a relative path from a directory, given as the list of its
  components: empty components and \<open>.\<close> stay, \<open>..\<close> goes up.
\<close>

definition walk1 :: "string list \<Rightarrow> string \<Rightarrow> string list" where
  "walk1 dir c = (if c = [] \<or> c = ''.'' then dir else if c = ''..'' then butlast dir else dir @ [c])"

definition walk :: "string list \<Rightarrow> string list \<Rightarrow> string list" where
  "walk dir cs = foldl walk1 dir cs"

lemma walk_simps [simp]: "walk dir [] = dir" "walk dir (c # cs) = walk (walk1 dir c) cs"
  by (simp_all add: walk_def)

lemma walk_inside:
  "\<forall>c \<in> set cs. c \<noteq> ''..'' \<Longrightarrow> \<exists>below. walk dir cs = dir @ below"
proof (induction cs arbitrary: dir)
  case (Cons c cs)
  then have "c \<noteq> ''..''" by simp
  then have "walk1 dir c = dir @ (if c = [] \<or> c = ''.'' then [] else [c])"
    by (simp add: walk1_def)
  with Cons.IH [of "walk1 dir c"] Cons.prems show ?case by auto
qed simp

lemma safe_component_cases:
  assumes "is_safe_path_component c"
  shows "slash \<notin> set c \<and> c \<noteq> [] \<and> c \<noteq> ''..''"
proof -
  have "\<not> contains_str ''..'' ''..''" if "c = ''..''"
    using assms that by (auto simp: is_safe_path_component_def split: if_splits)
  moreover have "contains_str ''..'' ''..''" by (auto simp: contains_str_iff)
  ultimately show ?thesis
    using assms by (auto simp: is_safe_path_component_def list_all_iff split: if_splits)
qed



lemma parse_cache_key_Inr:
  assumes "parse_cache_key k = Inr (b, ob)"
  shows "normalize_cache_key k = b @ slash # ob \<and> b \<noteq> [] \<and> b \<noteq> ''.'' \<and> b \<noteq> ''..'' \<and>
         slash \<notin> set b \<and> backslash \<notin> set b \<and> \<not> list_ex control_byte b \<and> ob \<noteq> []"
proof -
  have split: "split_once slash (normalize_cache_key k) = Some (b, ob)"
    and valid: "validate_bucket_segment b = Inr ()" and ob: "ob \<noteq> []"
    using assms unfolding parse_cache_key_def normalize_cache_key_def Let_def
    by (auto split: option.splits sum.splits if_splits)
  have "find (\<lambda>c. c = slash \<or> c = backslash \<or> control_byte c) b = None" "b \<noteq> []" "b \<noteq> ''.''"
    "b \<noteq> ''..''"
    using valid by (auto simp: validate_bucket_segment_def split: if_splits option.splits)
  with split ob show ?thesis by (auto simp: split_once_Some find_None_iff list_ex_iff)
qed

lemma hex_no_slash: "list_all hex_digit s \<Longrightarrow> slash \<notin> set s \<and> CHR ''.'' \<notin> set s"
  by (auto simp: list_all_iff hex_digit_def Let_def)

text \<open>
  What the code relies on of the two crates: a digest is 64 hexadecimal digits, and encoding
  with a set leaves none of its bytes but the \<open>%\<close> that starts an escape.
\<close>

definition blake3_ok :: "(string \<Rightarrow> string) \<Rightarrow> bool" where
  "blake3_ok blake3 \<longleftrightarrow> (\<forall>s. length (blake3 s) = 64 \<and> list_all hex_digit (blake3 s))"

definition pct_ok :: "((char \<Rightarrow> bool) \<Rightarrow> string \<Rightarrow> string) \<Rightarrow> bool" where
  "pct_ok pct \<longleftrightarrow> (\<forall>s. \<forall>c \<in> set (pct FRAGMENT s). FRAGMENT c \<longrightarrow> c = CHR ''%'')"

lemma pct_no_slash: "pct_ok pct \<Longrightarrow> slash \<notin> set (pct FRAGMENT s)"
  by (auto simp: pct_ok_def FRAGMENT_def)

text \<open>
  C13: For every cache key that \<open>parse_cache_key\<close> accepts, the sharded path of a metadata or
  range file is exactly four levels below its base directory: a bucket directory, two hash
  directories and a file. No object key, however hostile, can name a file elsewhere.
\<close>

theorem sharded_path_confined:
  assumes "blake3_ok blake3" "pct_ok pct"
    and "get_sharded_path blake3 pct cache_key suffix = Inr path"
    and "slash \<notin> set suffix" "2 < length suffix"
  shows "walk base path = base @ path \<and> length path = 4 \<and> (\<forall>c \<in> set path. slash \<notin> set c)"
proof -
  obtain b ob where key: "parse_cache_key cache_key = Inr (b, ob)"
    and path: "path = [b, take 2 (blake3 ob), take 3 (drop 2 (blake3 ob)),
                 sanitize_object_key_for_filename blake3 pct ob suffix]"
    using assms(3) by (auto simp: get_sharded_path_def Let_def split: sum.splits)
  have hex: "list_all hex_digit (blake3 ob)" "length (blake3 ob) = 64"
    using assms(1) by (auto simp: blake3_ok_def)
  have digits: "set (take 2 (blake3 ob)) \<subseteq> set (blake3 ob)"
    "set (take 3 (drop 2 (blake3 ob))) \<subseteq> set (blake3 ob)"
    by (meson set_take_subset set_drop_subset order_trans)+
  have lens: "length (take 2 (blake3 ob)) = 2" "length (take 3 (drop 2 (blake3 ob))) = 3"
    using hex(2) by simp_all
  have dirs: "slash \<notin> set (take 2 (blake3 ob))" "slash \<notin> set (take 3 (drop 2 (blake3 ob)))"
    "CHR ''.'' \<notin> set (take 2 (blake3 ob))"
    using digits hex_no_slash [OF hex(1)] by blast+
  let ?name = "sanitize_object_key_for_filename blake3 pct ob suffix"
  have name: "slash \<notin> set ?name" "2 < length ?name"
    using assms(4,5) hex_no_slash [OF hex(1)] pct_no_slash [OF assms(2)]
    by (auto simp: sanitize_object_key_for_filename_def Let_def)
  have step: "c \<noteq> [] \<Longrightarrow> c \<noteq> ''.'' \<Longrightarrow> c \<noteq> ''..'' \<Longrightarrow> walk1 d c = d @ [c]" for c d
    by (simp add: walk1_def)
  have "take 2 (blake3 ob) \<noteq> ''..''" using dirs(3) by force
  moreover have "take 2 (blake3 ob) \<noteq> []" "take 2 (blake3 ob) \<noteq> ''.''"
    "take 3 (drop 2 (blake3 ob)) \<noteq> []" "take 3 (drop 2 (blake3 ob)) \<noteq> ''.''"
    "take 3 (drop 2 (blake3 ob)) \<noteq> ''..''" "?name \<noteq> []" "?name \<noteq> ''.''" "?name \<noteq> ''..''"
    using lens name(2) by (auto simp del: length_take length_drop)
  ultimately show ?thesis
    using path dirs name(1) parse_cache_key_Inr [OF key] by (simp add: step)
qed

text \<open>A concrete encoder and digest under which the hypotheses hold.\<close>

definition percent_encode_bytes :: "(char \<Rightarrow> bool) \<Rightarrow> string \<Rightarrow> string" where
  "percent_encode_bytes enc s =
     concat (map (\<lambda>c. if enc c \<or> \<not> ascii_char c then ''%'' @ upper_hex2 (of_char c) else [c]) s)"

definition zero_digest :: "string \<Rightarrow> string" where
  "zero_digest s = replicate 64 (CHR ''0'')"

lemma zero_digest_ok: "blake3_ok zero_digest"
  by (simp add: blake3_ok_def zero_digest_def list_all_iff hex_digit_def)

lemma hex_not_FRAGMENT: "hex_digit c \<Longrightarrow> \<not> FRAGMENT c"
  unfolding FRAGMENT_def hex_digit_def control_byte_def Let_def by auto

lemma upper_hex2_hex: "n < 256 \<Longrightarrow> c \<in> set (upper_hex2 n) \<Longrightarrow> hex_digit c"
proof -
  assume n: "n < 256" and c: "c \<in> set (upper_hex2 n)"
  have digit: "hex_digit (if d < 10 then char_of (48 + d) else char_of (55 + d))"
    if "d < 16" for d :: nat
    using that by (cases "d < 10") (simp_all add: hex_digit_def)
  have "n div 16 < 16" using n by (simp add: less_mult_imp_div_less)
  moreover have "n mod 16 < 16" by simp
  ultimately show ?thesis using c digit unfolding upper_hex2_def by auto
qed

lemma percent_encode_char_ok:
  assumes "c \<in> set (if FRAGMENT d \<or> \<not> ascii_char d then ''%'' @ upper_hex2 (of_char d) else [d])"
    and "FRAGMENT c"
  shows "c = CHR ''%''"
proof (cases "FRAGMENT d \<or> \<not> ascii_char d")
  case True
  have "c \<notin> set (upper_hex2 (of_char d))"
    using upper_hex2_hex [of "of_char d" c] hex_not_FRAGMENT [of c] assms(2) by auto
  then show ?thesis using assms(1) True by simp
next
  case False
  then show ?thesis using assms by simp
qed

lemma percent_encode_bytes_ok: "pct_ok percent_encode_bytes"
proof -
  have "c = CHR ''%''" if c: "c \<in> set (percent_encode_bytes FRAGMENT s)" and F: "FRAGMENT c" for c s
  proof -
    obtain d where "c \<in> set (if FRAGMENT d \<or> \<not> ascii_char d then ''%'' @ upper_hex2 (of_char d) else [d])"
      using c unfolding percent_encode_bytes_def set_concat set_map by blast
    then show ?thesis using percent_encode_char_ok F by blast
  qed
  then show ?thesis unfolding pct_ok_def by blast
qed

theorem sharded_path_confined_witness:
  "\<exists>path. get_sharded_path zero_digest percent_encode_bytes ''b/../../x'' ''.meta'' = Inr path \<and>
     walk [''cache'', ''metadata''] path = [''cache'', ''metadata''] @ path"
proof -
  have path: "get_sharded_path zero_digest percent_encode_bytes ''b/../../x'' ''.meta'' =
      Inr [''b'', ''00'', ''000'', ''..%2F..%2Fx.meta'']" by code_simp
  from sharded_path_confined [OF zero_digest_ok percent_encode_bytes_ok path,
      of "[''cache'', ''metadata'']"] path
  show ?thesis by simp
qed

end
