(* ===== verification/Compression.thy ===== *)
theory Compression
  imports Cache_Types "HOL-Library.Word"
begin

text \<open>
  \<open>src/src/compression.rs\<close>: the extension denylist, the store-mode LZ4 frame that the proxy
  writes itself, compression with its fallbacks, and the loop that decodes concatenated
  frames.

  Three third-party functions are parameters:
  \<^item> \<open>xxh32\<close>, the seed-0 XXH32 hash of \<open>twox-hash\<close>;
  \<^item> \<open>enc\<close>, \<open>FrameEncoder::write_all\<close> followed by \<open>finish\<close> of \<open>lz4_flex\<close>;
  \<^item> \<open>dec\<close>, \<open>FrameDecoder::read_to_end\<close> of \<open>lz4_flex\<close> on the unread part of the cursor: an
    error message, or the bytes it appended and the number of input bytes it consumed.
  What the proxy relies on is \<open>codec_ok\<close>: the frame format of LZ4 and the agreement of the
  crate's encoder with its decoder.
\<close>

section \<open>Statistics and results\<close>

record CompressionStatsAtomic =
  cs_total_objects_compressed :: u64
  cs_total_objects_uncompressed :: u64
  cs_total_bytes_before :: u64
  cs_total_bytes_after :: u64
  cs_compression_failures :: u64
  cs_decompression_failures :: u64

definition stats_default :: CompressionStatsAtomic where
  "stats_default =
     \<lparr> cs_total_objects_compressed = 0, cs_total_objects_uncompressed = 0,
       cs_total_bytes_before = 0, cs_total_bytes_after = 0, cs_compression_failures = 0,
       cs_decompression_failures = 0 \<rparr>"

definition record_batch_bytes ::
    "CompressionStatsAtomic \<Rightarrow> u64 \<Rightarrow> u64 \<Rightarrow> CompressionStatsAtomic" where
  "record_batch_bytes st bytes_before bytes_after =
     st \<lparr> cs_total_bytes_before := u64_add (cs_total_bytes_before st) bytes_before,
          cs_total_bytes_after := u64_add (cs_total_bytes_after st) bytes_after \<rparr>"

definition record_object :: "CompressionStatsAtomic \<Rightarrow> bool \<Rightarrow> CompressionStatsAtomic" where
  "record_object st compressed =
     (if compressed
      then st \<lparr> cs_total_objects_compressed := u64_add (cs_total_objects_compressed st) 1 \<rparr>
      else st \<lparr> cs_total_objects_uncompressed := u64_add (cs_total_objects_uncompressed st) 1 \<rparr>)"

definition count_compression_failure :: "CompressionStatsAtomic \<Rightarrow> CompressionStatsAtomic" where
  "count_compression_failure st =
     st \<lparr> cs_compression_failures := u64_add (cs_compression_failures st) 1 \<rparr>"

definition count_decompression_failure :: "CompressionStatsAtomic \<Rightarrow> CompressionStatsAtomic" where
  "count_decompression_failure st =
     st \<lparr> cs_decompression_failures := u64_add (cs_decompression_failures st) 1 \<rparr>"

record CompressionResult =
  res_data :: string
  res_algorithm :: CompressionAlgorithm
  res_original_size :: u64
  res_compressed_size :: u64
  res_was_compressed :: bool

section \<open>The extension denylist\<close>

text \<open>
  \<open>str::to_lowercase\<close> on a string that is compared with ASCII words: the Kelvin sign
  (\<open>E2 84 AA\<close>) is the one character outside ASCII with a lowercase form inside it; every
  other one keeps a byte outside ASCII, and is left alone here.
\<close>

fun to_lowercase :: "string \<Rightarrow> string" where
  "to_lowercase (a # b # c # cs) =
     (if a = CHR 0xE2 \<and> b = CHR 0x84 \<and> c = CHR 0xAA then CHR ''k'' # to_lowercase cs
      else ascii_lower a # to_lowercase (b # c # cs))"
| "to_lowercase cs = map ascii_lower cs"

definition extract_file_extension :: "string \<Rightarrow> string" where
  "extract_file_extension path =
     (case rsplit_once (CHR ''.'') (last (split_char (CHR ''/'') path)) of
        Some (_, ext) \<Rightarrow> to_lowercase ext
      | None \<Rightarrow> [])"

definition compressed_formats :: "string list" where
  "compressed_formats =
     [''jpg'', ''jpeg'', ''png'', ''gif'', ''webp'', ''avif'', ''heic'', ''heif'',
      ''mp4'', ''avi'', ''mkv'', ''mov'', ''wmv'', ''flv'', ''webm'', ''m4v'',
      ''mp3'', ''aac'', ''ogg'', ''flac'', ''m4a'', ''wma'', ''opus'',
      ''zip'', ''rar'', ''7z'', ''gz'', ''bz2'', ''xz'', ''lz4'', ''zst'', ''tgz'',
      ''pdf'', ''docx'', ''xlsx'', ''pptx'', ''odt'', ''ods'', ''odp'',
      ''apk'', ''ipa'', ''jar'', ''war'', ''ear'', ''woff'', ''woff2'',
      ''sqlite'', ''db'', ''exe'', ''msi'', ''dmg'', ''pkg'']"

definition is_already_compressed_format :: "string \<Rightarrow> bool" where
  "is_already_compressed_format extension = (extension \<in> set compressed_formats)"

definition is_denylisted_extension :: "string \<Rightarrow> bool" where
  "is_denylisted_extension path = is_already_compressed_format (extract_file_extension path)"

section \<open>The store-mode frame\<close>

abbreviation STORE_MODE_MAX_BLOCK_SIZE :: nat where
  "STORE_MODE_MAX_BLOCK_SIZE \<equiv> 4194304"

text \<open>\<open>u32::to_le_bytes\<close> and \<open>slice::chunks\<close>.\<close>

definition to_le_bytes :: "32 word \<Rightarrow> string" where
  "to_le_bytes w =
     (let n = unat w
      in [char_of n, char_of (n div 256), char_of (n div 65536), char_of (n div 16777216)])"

function chunks :: "nat \<Rightarrow> 'a list \<Rightarrow> 'a list list" where
  "chunks n xs = (if n = 0 \<or> xs = [] then [] else take n xs # chunks n (drop n xs))"
  by auto
termination by (relation "measure (length \<circ> snd)") auto

declare chunks.simps [simp del]

unbundle bit_operations_syntax

definition store_flg :: "8 word" where
  "store_flg = 0x40 OR 0x20 OR 0x04"

definition store_bd :: "8 word" where
  "store_bd = push_bit 4 7"

definition byte :: "8 word \<Rightarrow> char" where
  "byte w = char_of (unat w)"

definition store_header :: "(string \<Rightarrow> 32 word) \<Rightarrow> string" where
  "store_header xxh32 =
     to_le_bytes 0x184D2204 @
     [byte store_flg, byte store_bd,
      byte (ucast (drop_bit 8 (xxh32 [byte store_flg, byte store_bd])))]"

definition store_block :: "string \<Rightarrow> string" where
  "store_block chunk = to_le_bytes (of_nat (length chunk) OR 0x80000000) @ chunk"

definition encode_store_mode_frame :: "(string \<Rightarrow> 32 word) \<Rightarrow> string \<Rightarrow> ProxyError + string" where
  "encode_store_mode_frame xxh32 data =
     Inr (store_header xxh32 @
          concat (map store_block (chunks (max STORE_MODE_MAX_BLOCK_SIZE 1) data)) @
          to_le_bytes 0 @ to_le_bytes (xxh32 data))"

section \<open>Compression\<close>

text \<open>The two ways the frame encoder of the crate can fail.\<close>

datatype EncodeError = WriteFailed string | FinishFailed string

type_synonym encoder = "string \<Rightarrow> EncodeError + string"
type_synonym decoder = "string \<Rightarrow> string + (string \<times> nat)"

fun encode_error :: "EncodeError \<Rightarrow> ProxyError" where
  "encode_error (WriteFailed e) =
     CompressionError (''Failed to write data to LZ4 frame encoder: '' @ e)"
| "encode_error (FinishFailed e) =
     CompressionError (''Failed to finish LZ4 frame encoding: '' @ e)"

definition compress_with_algorithm ::
    "encoder \<Rightarrow> CompressionStatsAtomic \<Rightarrow> string \<Rightarrow> CompressionAlgorithm \<Rightarrow>
     (ProxyError + CompressionResult) \<times> CompressionStatsAtomic" where
  "compress_with_algorithm enc st data algorithm =
     (let original_size = length data
      in case algorithm of
           NoCompression \<Rightarrow>
             (Inr \<lparr> res_data = data, res_algorithm = NoCompression,
                    res_original_size = original_size, res_compressed_size = original_size,
                    res_was_compressed = False \<rparr>, st)
         | Lz4 \<Rightarrow>
             (case enc data of
                Inl e \<Rightarrow> (Inl (encode_error e), st)
              | Inr compressed_data \<Rightarrow>
                  let compressed_size = length compressed_data
                  in (Inr \<lparr> res_data = compressed_data, res_algorithm = Lz4,
                            res_original_size = original_size,
                            res_compressed_size = compressed_size, res_was_compressed = True \<rparr>,
                      record_batch_bytes (record_object st True) original_size compressed_size)))"

definition stored_result :: "string \<Rightarrow> string \<Rightarrow> CompressionAlgorithm \<Rightarrow> CompressionResult" where
  "stored_result data framed_data algorithm =
     \<lparr> res_data = framed_data, res_algorithm = algorithm, res_original_size = length data,
       res_compressed_size = length framed_data, res_was_compressed = False \<rparr>"

definition compress_with_metadata ::
    "(string \<Rightarrow> 32 word) \<Rightarrow> encoder \<Rightarrow> CompressionStatsAtomic \<Rightarrow> string \<Rightarrow> bool \<Rightarrow>
     CompressionResult \<times> CompressionStatsAtomic" where
  "compress_with_metadata xxh32 enc st data should_compress =
     (if \<not> should_compress then
        (case encode_store_mode_frame xxh32 data of
           Inr framed_data \<Rightarrow> (stored_result data framed_data Lz4, record_object st False)
         | Inl _ \<Rightarrow>
             (stored_result data data NoCompression,
              record_object (count_compression_failure st) False))
      else
        (case compress_with_algorithm enc st data Lz4 of
           (Inr result, st') \<Rightarrow> (result, st')
         | (Inl _, st') \<Rightarrow>
             let st' = count_compression_failure st'
             in case encode_store_mode_frame xxh32 data of
                  Inr framed_data \<Rightarrow> (stored_result data framed_data Lz4, st')
                | Inl _ \<Rightarrow> (stored_result data data Lz4, record_object st' False)))"

section \<open>Decompression\<close>

text \<open>
  The frame loop with fuel. \<open>None\<close> means the fuel ran out; with a decoder that consumes some
  input whenever it succeeds, one unit per input byte and one more are enough
  (\<open>decompress_loop_returns\<close>).
\<close>

fun decompress_loop :: "nat \<Rightarrow> decoder \<Rightarrow> string \<Rightarrow> string \<Rightarrow> (string + string) option" where
  "decompress_loop 0 dec rest decompressed = None"
| "decompress_loop (Suc fuel) dec rest decompressed =
     (if rest = [] then Some (Inr decompressed)
      else (case dec rest of
              Inl e \<Rightarrow> Some (Inl e)
            | Inr (out, n) \<Rightarrow>
                if out = [] then Some (Inr decompressed)
                else decompress_loop fuel dec (drop n rest) (decompressed @ out)))"

definition decompress_data ::
    "decoder \<Rightarrow> CompressionStatsAtomic \<Rightarrow> string \<Rightarrow> (ProxyError + string) \<times> CompressionStatsAtomic" where
  "decompress_data dec st compressed_data =
     (case decompress_loop (Suc (length compressed_data)) dec compressed_data [] of
        Some (Inr decompressed) \<Rightarrow> (Inr decompressed, st)
      | Some (Inl e) \<Rightarrow>
          (Inl (CompressionError (''Failed to decompress cached data: '' @ e)),
           count_decompression_failure st)
      | None \<Rightarrow> (Inl (CompressionError ''decoder without progress''), st))"

definition decompress_with_algorithm ::
    "decoder \<Rightarrow> CompressionStatsAtomic \<Rightarrow> string \<Rightarrow> CompressionAlgorithm \<Rightarrow>
     (ProxyError + string) \<times> CompressionStatsAtomic" where
  "decompress_with_algorithm dec st data algorithm =
     (case algorithm of Lz4 \<Rightarrow> decompress_data dec st data | NoCompression \<Rightarrow> (Inr data, st))"

section \<open>What the proxy relies on\<close>

text \<open>
  A frame of stored blocks as the LZ4 frame format describes it: the magic number, the
  descriptor bytes and their checksum, blocks of at most 4 MiB whose size word has the high
  bit set, the end mark and the checksum of the content.
\<close>

definition stored_frame :: "(string \<Rightarrow> 32 word) \<Rightarrow> string \<Rightarrow> string \<Rightarrow> bool" where
  "stored_frame xxh32 content frame \<longleftrightarrow>
     (\<exists>blocks. concat blocks = content \<and>
        (\<forall>b \<in> set blocks. b \<noteq> [] \<and> length b \<le> STORE_MODE_MAX_BLOCK_SIZE) \<and>
        frame =
          [CHR 0x04, CHR 0x22, CHR 0x4D, CHR 0x18, CHR 0x64, CHR 0x70,
           byte (ucast (drop_bit 8 (xxh32 [CHR 0x64, CHR 0x70])))] @
          concat (map (\<lambda>b. to_le_bytes (of_nat (length b + 2 ^ 31)) @ b) blocks) @
          [CHR 0x00, CHR 0x00, CHR 0x00, CHR 0x00] @ to_le_bytes (xxh32 content))"

definition decoder_progress :: "decoder \<Rightarrow> bool" where
  "decoder_progress dec \<longleftrightarrow> (\<forall>inp out n. inp \<noteq> [] \<longrightarrow> dec inp = Inr (out, n) \<longrightarrow> 0 < n)"

definition codec_ok :: "(string \<Rightarrow> 32 word) \<Rightarrow> encoder \<Rightarrow> decoder \<Rightarrow> bool" where
  "codec_ok xxh32 enc dec \<longleftrightarrow>
     decoder_progress dec \<and>
     (\<forall>content frame rest. stored_frame xxh32 content frame \<longrightarrow>
        dec (frame @ rest) = Inr (content, length frame)) \<and>
     (\<forall>content frame rest. enc content = Inr frame \<longrightarrow>
        dec (frame @ rest) = Inr (content, length frame))"

section \<open>Store-mode frames are LZ4 frames\<close>

lemma concat_chunks: "0 < n \<Longrightarrow> concat (chunks n xs) = xs"
proof (induction n xs rule: chunks.induct)
  case (1 n xs)
  then show ?case by (subst chunks.simps) (cases "xs = []", simp_all)
qed

lemma chunks_length: "b \<in> set (chunks n xs) \<Longrightarrow> b \<noteq> [] \<and> length b \<le> n"
proof (induction n xs rule: chunks.induct)
  case (1 n xs)
  show ?case
  proof (cases "n = 0 \<or> xs = []")
    case False
    then have "chunks n xs = take n xs # chunks n (drop n xs)" by (subst chunks.simps) simp
    with 1 False show ?thesis by auto
  qed (use 1(2) chunks.simps [of n xs] in simp)
qed

lemma chunks_single: "xs \<noteq> [] \<Longrightarrow> length xs \<le> n \<Longrightarrow> chunks n xs = [xs]"
  by (subst chunks.simps, subst chunks.simps) (cases n, auto)

lemma chunks_Nil [simp]: "chunks n [] = []"
  by (subst chunks.simps) simp

lemma block_size_word:
  assumes "length b \<le> STORE_MODE_MAX_BLOCK_SIZE"
  shows "of_nat (length b) OR 0x80000000 = (of_nat (length b + 2 ^ 31) :: 32 word)"
proof -
  have "\<not> bit (length b) 31" using assms by (simp add: bit_iff_odd)
  moreover have "unat (of_nat (length b) :: 32 word) = length b"
    using assms by (simp add: unat_of_nat)
  moreover have "bit (unat (of_nat (length b) :: 32 word)) 31 \<longleftrightarrow> bit (of_nat (length b) :: 32 word) 31"
    unfolding bit_unsigned_iff by simp
  ultimately have "\<not> bit (of_nat (length b) :: 32 word) 31"
    by simp
  then have "\<not> bit (of_nat (length b) :: 32 word) i \<or> \<not> bit (2 ^ 31 :: 32 word) i" for i
    unfolding bit_exp_iff by auto
  then have "of_nat (length b) OR (2 ^ 31 :: 32 word) = of_nat (length b) + 2 ^ 31"
    by (simp add: disjunctive_add)
  then show ?thesis by simp
qed

lemma char_of_lits:
  "char_of (407708164 :: nat) = CHR 0x04" "char_of (1592610 :: nat) = CHR 0x22"
  "char_of (6221 :: nat) = CHR 0x4D" "char_of (24 :: nat) = CHR 0x18"
  "char_of (100 :: nat) = CHR 0x64" "char_of (112 :: nat) = CHR 0x70"
  "char_of (0 :: nat) = CHR 0x00"
  by (simp_all add: char_of_def bit_0)

lemma store_header_bytes:
  "store_header xxh32 =
     [CHR 0x04, CHR 0x22, CHR 0x4D, CHR 0x18, CHR 0x64, CHR 0x70,
      byte (ucast (drop_bit 8 (xxh32 [CHR 0x64, CHR 0x70])))]"
  by (simp add: store_header_def to_le_bytes_def byte_def store_flg_def store_bd_def Let_def
      char_of_lits)

lemma zero_bytes: "to_le_bytes 0 = [CHR 0x00, CHR 0x00, CHR 0x00, CHR 0x00]"
  by (simp add: to_le_bytes_def char_of_lits)

lemma encode_store_mode_frame_stored:
  obtains frame where "encode_store_mode_frame xxh32 data = Inr frame"
    "stored_frame xxh32 data frame"
proof -
  let ?bs = "chunks STORE_MODE_MAX_BLOCK_SIZE data"
  let ?block = "\<lambda>b. to_le_bytes (of_nat (length b + 2 ^ 31)) @ b"
  have ok: "b \<noteq> [] \<and> length b \<le> STORE_MODE_MAX_BLOCK_SIZE" if "b \<in> set ?bs" for b
    using chunks_length [OF that] .
  have blocks: "map store_block ?bs = map ?block ?bs"
    unfolding map_eq_conv store_block_def using ok block_size_word by metis
  have max: "max STORE_MODE_MAX_BLOCK_SIZE 1 = STORE_MODE_MAX_BLOCK_SIZE" by simp
  have whole: "concat ?bs = data" by (rule concat_chunks) simp
  let ?frame = "store_header xxh32 @ concat (map store_block ?bs) @ to_le_bytes 0 @
    to_le_bytes (xxh32 data)"
  have "encode_store_mode_frame xxh32 data = Inr ?frame"
    unfolding encode_store_mode_frame_def max by (rule refl)
  moreover have "stored_frame xxh32 data ?frame"
    unfolding stored_frame_def
    by (rule exI [of _ ?bs], intro conjI ballI)
      (use whole ok in blast, use ok in blast, use ok in blast,
       unfold blocks zero_bytes store_header_bytes, rule refl)
  ultimately show thesis by (rule that)
qed

section \<open>Reading back what was written\<close>

lemma decompress_loop_returns:
  assumes "decoder_progress dec"
  shows "length rest < fuel \<Longrightarrow> \<exists>r. decompress_loop fuel dec rest acc = Some r"
proof (induction fuel arbitrary: rest acc)
  case (Suc fuel)
  have "\<exists>r. decompress_loop fuel dec (drop n rest) (acc @ out) = Some r"
    if "dec rest = Inr (out, n)" "out \<noteq> []" "rest \<noteq> []" for out n
  proof (rule Suc.IH)
    have "0 < n" using assms that(1,3) by (auto simp: decoder_progress_def)
    with that(3) Suc.prems show "length (drop n rest) < fuel" by (cases rest) auto
  qed
  then show ?case by (auto split: sum.split)
qed simp

lemma decompress_loop_frames:
  assumes "\<forall>(frame, content) \<in> set fs. content \<noteq> [] \<and> frame \<noteq> [] \<and>
      (\<forall>rest. dec (frame @ rest) = Inr (content, length frame))"
    and "length fs < fuel"
  shows "decompress_loop fuel dec (concat (map fst fs)) acc = Some (Inr (acc @ concat (map snd fs)))"
  using assms
proof (induction fs arbitrary: fuel acc)
  case (Cons f fs)
  obtain frame content where f: "f = (frame, content)" by fastforce
  obtain k where "fuel = Suc k" using Cons.prems(2) by (cases fuel) auto
  moreover have "frame \<noteq> []" "content \<noteq> []"
    "dec (frame @ concat (map fst fs)) = Inr (content, length frame)"
    using Cons.prems(1) f by auto
  moreover have "decompress_loop k dec (concat (map fst fs)) (acc @ content) =
      Some (Inr ((acc @ content) @ concat (map snd fs)))"
    using Cons.prems f \<open>fuel = Suc k\<close> by (intro Cons.IH) auto
  ultimately show ?case using f by simp
next
  case Nil
  then show ?case by (cases fuel) auto
qed

lemma length_concat_nonempty:
  "\<forall>x \<in> set xs. x \<noteq> [] \<Longrightarrow> length xs \<le> length (concat xs)"
proof (induction xs)
  case (Cons x xs)
  then have "length x \<ge> 1" by (cases x) auto
  with Cons show ?case by auto
qed simp

lemma decompress_frames:
  assumes "\<forall>(frame, content) \<in> set fs. content \<noteq> [] \<and> frame \<noteq> [] \<and>
      (\<forall>rest. dec (frame @ rest) = Inr (content, length frame))"
  shows "decompress_data dec st (concat (map fst fs)) = (Inr (concat (map snd fs)), st)"
proof -
  have "\<forall>x \<in> set (map fst fs). x \<noteq> []" using assms by auto
  then have "length fs < Suc (length (concat (map fst fs)))"
    using length_concat_nonempty [of "map fst fs"] by simp
  from decompress_loop_frames [OF assms this, of "[]"] show ?thesis
    by (simp add: decompress_data_def)
qed

lemma stored_frame_nonempty: "stored_frame xxh32 content frame \<Longrightarrow> frame \<noteq> []"
  by (auto simp: stored_frame_def)

lemma decompress_one_frame:
  assumes "frame \<noteq> []" "\<forall>rest. dec (frame @ rest) = Inr (content, length frame)"
  shows "decompress_data dec st frame = (Inr content, st)"
proof (cases "content = []")
  case True
  from assms(2) have "dec frame = Inr (content, length frame)" by (metis append_Nil2)
  with True assms(1) show ?thesis by (simp add: decompress_data_def)
next
  case False
  then show ?thesis using decompress_frames [of "[(frame, content)]" dec st] assms by simp
qed

lemma codec_stored:
  assumes "codec_ok xxh32 enc dec" "encode_store_mode_frame xxh32 data = Inr frame"
  shows "frame \<noteq> []" "dec (frame @ rest) = Inr (data, length frame)"
proof -
  from assms(2) have "stored_frame xxh32 data frame"
    using encode_store_mode_frame_stored by (metis Inr_inject)
  then show "frame \<noteq> []" "dec (frame @ rest) = Inr (data, length frame)"
    using assms(1) stored_frame_nonempty unfolding codec_ok_def by blast+
qed

lemma codec_encoded:
  assumes "codec_ok xxh32 enc dec" "enc data = Inr frame"
  shows "dec (frame @ rest) = Inr (data, length frame)" "frame \<noteq> []"
proof -
  show d: "dec (frame @ rest) = Inr (data, length frame)" for rest
    using assms unfolding codec_ok_def by blast
  show "frame \<noteq> []"
    using d [of "''x''"] assms(1) unfolding codec_ok_def decoder_progress_def by fastforce
qed

text \<open>
  C18: Whatever the compression decision and even when the compressor fails, the bytes that
  \<open>compress_with_metadata\<close> produces decompress, under the algorithm it tags them with, to
  exactly the original bytes. The recorded sizes are the true ones, and the tag is always
  \<open>Lz4\<close>, so every entry carries a checksum.
\<close>

theorem compress_round_trip:
  assumes "codec_ok xxh32 enc dec"
    and "compress_with_metadata xxh32 enc st data should_compress = (result, st')"
  shows "decompress_with_algorithm dec st'' (res_data result) (res_algorithm result) =
      (Inr data, st'') \<and>
    res_algorithm result = Lz4 \<and> res_original_size result = length data \<and>
      res_compressed_size result = length (res_data result)"
proof -
  obtain frame where frame: "encode_store_mode_frame xxh32 data = Inr frame"
    "decompress_data dec st'' frame = (Inr data, st'')"
    using encode_store_mode_frame_stored codec_stored [OF assms(1)] decompress_one_frame by metis
  have packed: "decompress_data dec st'' z = (Inr data, st'')" if "enc data = Inr z" for z
    using codec_encoded [OF assms(1) that] by (intro decompress_one_frame) auto
  have "decompress_with_algorithm dec st'' (res_data result) (res_algorithm result) =
      (Inr data, st'')"
    using assms(2) frame packed
    by (auto simp: compress_with_metadata_def decompress_with_algorithm_def stored_result_def
        compress_with_algorithm_def Let_def split: if_splits sum.splits)
  moreover have "res_algorithm result = Lz4 \<and> res_original_size result = length data \<and>
      res_compressed_size result = length (res_data result)"
    using assms(2) frame(1)
    by (auto simp: compress_with_metadata_def stored_result_def
        compress_with_algorithm_def Let_def split: if_splits sum.splits)
  ultimately show ?thesis by blast
qed

text \<open>
  C19: The frame loop always ends: with a decoder that consumes some input whenever it
  succeeds, as many iterations as there are input bytes (and one) suffice, whatever the input,
  so damaged files cannot make a reader loop.
\<close>

theorem decompress_terminates:
  assumes "decoder_progress dec"
  shows "decompress_loop (Suc (length data)) dec data [] \<noteq> None"
  using decompress_loop_returns [OF assms, of data "Suc (length data)" "[]"] by auto

section \<open>A concrete codec\<close>

text \<open>
  A reader of frames of stored blocks, after the LZ4 frame format, to exhibit a codec that
  meets \<open>codec_ok\<close>.
\<close>

definition from_le_bytes :: "string \<Rightarrow> nat" where
  "from_le_bytes bs = foldr (\<lambda>c n. of_char c + 256 * n) bs 0"

function read_blocks :: "string \<Rightarrow> string \<Rightarrow> (string \<times> string) option" where
  "read_blocks inp acc =
     (let n = from_le_bytes (take 4 inp); rest = drop 4 inp
      in if length inp < 4 then None
         else if n = 0 then Some (acc, rest)
         else if n < 2 ^ 31 \<or> length rest < n - 2 ^ 31 then None
         else read_blocks (drop (n - 2 ^ 31) rest) (acc @ take (n - 2 ^ 31) rest))"
  by auto
termination by (relation "measure (length \<circ> fst)") auto

declare read_blocks.simps [simp del]

definition read_stored_frame :: "(string \<Rightarrow> 32 word) \<Rightarrow> decoder" where
  "read_stored_frame xxh32 inp =
     (if take 7 inp \<noteq> store_header xxh32 then Inl ''bad header''
      else (case read_blocks (drop 7 inp) [] of
              None \<Rightarrow> Inl ''bad block''
            | Some (content, rest) \<Rightarrow>
                if take 4 rest = to_le_bytes (xxh32 content)
                then Inr (content, length inp - length rest + 4)
                else Inl ''bad checksum''))"

definition store_encoder :: "(string \<Rightarrow> 32 word) \<Rightarrow> encoder" where
  "store_encoder xxh32 data =
     (case encode_store_mode_frame xxh32 data of Inr f \<Rightarrow> Inr f | Inl _ \<Rightarrow> Inl (WriteFailed []))"

lemma length_to_le_bytes [simp]: "length (to_le_bytes w) = 4"
  by (simp add: to_le_bytes_def Let_def)

lemma le_bytes_sum:
  fixes n :: nat
  shows "n mod 256 + 256 * (n div 256 mod 256 + 256 * (n div 65536 mod 256 +
     256 * (n div 16777216))) = n"
proof -
  have "n div 65536 = n div 256 div 256" "n div 16777216 = n div 256 div 256 div 256"
    by (simp_all add: div_mult2_eq [symmetric])
  then show ?thesis by simp
qed

lemma from_to_le_bytes: "from_le_bytes (to_le_bytes w) = unat w"
proof -
  have "unat w < 2 ^ LENGTH(32)" by (rule unsigned_less)
  then have "unat w div 16777216 mod 256 = unat w div 16777216" by simp
  then have "from_le_bytes (to_le_bytes w) = unat w mod 256 + 256 * (unat w div 256 mod 256 +
      256 * (unat w div 65536 mod 256 + 256 * (unat w div 16777216)))"
    unfolding from_le_bytes_def to_le_bytes_def Let_def
    by (simp only: foldr.simps o_apply id_apply of_char_of mult_0_right add_0_right)
  then show ?thesis by (simp only: le_bytes_sum)
qed

lemma read_blocks_stored:
  assumes "\<forall>b \<in> set blocks. b \<noteq> [] \<and> length b \<le> STORE_MODE_MAX_BLOCK_SIZE"
  shows "read_blocks (concat (map (\<lambda>b. to_le_bytes (of_nat (length b + 2 ^ 31)) @ b) blocks) @
      to_le_bytes 0 @ rest) acc = Some (acc @ concat blocks, rest)"
  using assms
proof (induction blocks arbitrary: acc)
  case Nil
  show ?case by (subst read_blocks.simps) (simp add: from_to_le_bytes)
next
  case (Cons b bs)
  have len: "length b \<le> STORE_MODE_MAX_BLOCK_SIZE" using Cons.prems by simp
  then have n: "unat (of_nat (length b + 2 ^ 31) :: 32 word) = length b + 2 ^ 31"
    unfolding unat_of_nat by (intro mod_less) simp
  show ?case
    using Cons n by (subst read_blocks.simps) (simp add: from_to_le_bytes Let_def)
qed

lemma store_codec_ok: "codec_ok xxh32 (store_encoder xxh32) (read_stored_frame xxh32)"
proof -
  have read: "read_stored_frame xxh32 (frame @ rest) = Inr (content, length frame)"
    if stored: "stored_frame xxh32 content frame" for content frame rest
  proof -
    obtain blocks where blocks: "concat blocks = content"
      "\<forall>b \<in> set blocks. b \<noteq> [] \<and> length b \<le> STORE_MODE_MAX_BLOCK_SIZE"
      "frame = store_header xxh32 @
        concat (map (\<lambda>b. to_le_bytes (of_nat (length b + 2 ^ 31)) @ b) blocks) @
        to_le_bytes 0 @ to_le_bytes (xxh32 content)"
      using stored unfolding stored_frame_def store_header_bytes zero_bytes by blast
    let ?body = "concat (map (\<lambda>b. to_le_bytes (of_nat (length b + 2 ^ 31)) @ b) blocks) @
        to_le_bytes 0"
    have h: "length (store_header xxh32) = 7" by (simp add: store_header_def)
    have inp: "frame @ rest = store_header xxh32 @ ?body @ to_le_bytes (xxh32 content) @ rest"
      using blocks(3) by simp
    have "read_blocks (?body @ to_le_bytes (xxh32 content) @ rest) [] =
        Some (content, to_le_bytes (xxh32 content) @ rest)"
      using read_blocks_stored [OF blocks(2), of "to_le_bytes (xxh32 content) @ rest" "[]"]
        blocks(1) by simp
    then show ?thesis
      unfolding read_stored_frame_def inp using h blocks(3) by simp
  qed
  moreover have "decoder_progress (read_stored_frame xxh32)"
    unfolding decoder_progress_def read_stored_frame_def by (auto split: if_splits option.splits)
  moreover have "stored_frame xxh32 content frame" if "store_encoder xxh32 content = Inr frame"
    for content frame
    using that encode_store_mode_frame_stored unfolding store_encoder_def
    by (metis sum.inject(2) sum.simps(6))
  ultimately show ?thesis unfolding codec_ok_def by blast
qed

theorem compress_round_trip_witness:
  "\<exists>result. fst (compress_with_metadata (\<lambda>_. 0) (store_encoder (\<lambda>_. 0)) stats_default ''hello'' True) =
      result \<and>
     decompress_with_algorithm (read_stored_frame (\<lambda>_. 0)) stats_default (res_data result)
       (res_algorithm result) = (Inr ''hello'', stats_default)"
  using compress_round_trip [OF store_codec_ok prod.collapse [symmetric]] by blast

theorem decompress_terminates_witness:
  "decompress_loop (Suc (length ''abc'')) (read_stored_frame (\<lambda>_. 0)) ''abc'' [] \<noteq> None"
  using decompress_terminates [of "read_stored_frame (\<lambda>_. 0)" "''abc''"] store_codec_ok
  unfolding codec_ok_def by blast

end
