(* ===== verification/Range_Files.thy ===== *)
theory Range_Files
  imports Path_Safety Compression
begin

text \<open>
  The range files of \<open>src/src/disk_cache.rs\<close>: the incremental writer that batches incoming
  chunks into LZ4 frames, publishes the file by a rename or discards it, and the reader that
  accepts a file only for the object version in its name.

  The cache directory is a function from the components of a relative path to the state of
  that file; range files are below the component \<open>ranges\<close>. What the operating system answers is an argument of each operation: the record
  \<open>Io\<close> holds the errors of one call, so every failing system call is a case of the model. A
  failing write leaves a prefix of its bytes behind.
\<close>

section \<open>Files\<close>

datatype FileState = FileMissing | FileUnreadable string | FileBytes string

type_synonym fs = "string list \<Rightarrow> FileState"

record Disk =
  dk_fs :: fs
  dk_stats :: CompressionStatsAtomic

record Io =
  io_create_dir :: "string option"
  io_create :: "string option"
  io_write :: "(string \<times> nat) option"
  io_flush :: "string option"
  io_rename :: "string option"
  io_remove :: "string option"

definition io_ok :: Io where
  "io_ok = \<lparr> io_create_dir = None, io_create = None, io_write = None, io_flush = None,
             io_rename = None, io_remove = None \<rparr>"

text \<open>Joining components, and the components the operating system sees in a path.\<close>

fun join_path :: "string list \<Rightarrow> string" where
  "join_path [] = []"
| "join_path [c] = c"
| "join_path (c # cs) = c @ [slash] @ join_path cs"

definition path_components :: "string \<Rightarrow> string list" where
  "path_components path = filter (\<lambda>c. c \<noteq> [] \<and> c \<noteq> ''.'') (split_char slash path)"

definition append_bytes :: "fs \<Rightarrow> string list \<Rightarrow> string \<Rightarrow> fs" where
  "append_bytes fs path bytes =
     fs(path := (case fs path of FileBytes old \<Rightarrow> FileBytes (old @ bytes) | f \<Rightarrow> f))"

text \<open>\<open>std::fs::remove_file\<close>: nothing happens when the file is gone or the removal fails.\<close>

definition remove_file :: "Io \<Rightarrow> fs \<Rightarrow> string list \<Rightarrow> fs" where
  "remove_file io fs path = (if io_remove io = None then fs(path := FileMissing) else fs)"

section \<open>The incremental writer\<close>

record IncrementalRangeWriter =
  iw_tmp_path :: "string list"
  iw_final_path :: "string list"
  iw_bytes_written :: u64
  iw_compressed_bytes_written :: u64
  iw_cache_key :: string
  iw_start :: u64
  iw_end :: u64
  iw_compression_enabled :: bool
  iw_batch_buf :: string
  iw_batch_size :: usize

text \<open>
  \<open>uuid\<close> is the fresh name of the temporary file and \<open>dbg\<close> the \<open>{:?}\<close> rendering of a path below
  the cache directory.
\<close>

definition begin_incremental_range_write ::
    "(string \<Rightarrow> string) \<Rightarrow> ((char \<Rightarrow> bool) \<Rightarrow> string \<Rightarrow> string) \<Rightarrow> (string list \<Rightarrow> string) \<Rightarrow> usize \<Rightarrow>
     Io \<Rightarrow> Disk \<Rightarrow> string \<Rightarrow> string \<Rightarrow> u64 \<Rightarrow> u64 \<Rightarrow> bool \<Rightarrow>
     (ProxyError + IncrementalRangeWriter) \<times> Disk" where
  "begin_incremental_range_write blake3 pct dbg compression_batch_size io disk uuid cache_key s e
       compression_enabled =
     (if s > e then
        (Inl (CacheError (''Invalid range: start ('' @ show_nat s @ '') > end ('' @ show_nat e @ '')'')),
         disk)
      else
        let range_file_path = ''ranges'' # get_new_range_file_path blake3 pct cache_key s e;
            tmp_path = butlast range_file_path @ [uuid @ ''.tmp'']
        in case io_create_dir io of
             Some err \<Rightarrow> (Inl (CacheError (''Failed to create ranges directory: '' @ err)), disk)
           | None \<Rightarrow>
               (case (if dk_fs disk tmp_path \<noteq> FileMissing then Some ''File exists (os error 17)''
                      else io_create io) of
                  Some err \<Rightarrow>
                    (Inl (CacheError (''Failed to create incremental tmp file '' @ dbg tmp_path @
                            '': '' @ err)), disk)
                | None \<Rightarrow>
                    (Inr \<lparr> iw_tmp_path = tmp_path, iw_final_path = range_file_path,
                           iw_bytes_written = 0, iw_compressed_bytes_written = 0,
                           iw_cache_key = cache_key, iw_start = s, iw_end = e,
                           iw_compression_enabled = compression_enabled, iw_batch_buf = [],
                           iw_batch_size = compression_batch_size \<rparr>,
                     disk \<lparr> dk_fs := (dk_fs disk)(tmp_path := FileBytes []) \<rparr>)))"

fun batch_encode_error :: "EncodeError \<Rightarrow> ProxyError" where
  "batch_encode_error (WriteFailed e) =
     CacheError (''Failed to compress batch in incremental write: '' @ e)"
| "batch_encode_error (FinishFailed e) =
     CacheError (''Failed to finish LZ4 frame in batched incremental write: '' @ e)"

definition encode_batch ::
    "(string \<Rightarrow> 32 word) \<Rightarrow> encoder \<Rightarrow> bool \<Rightarrow> string \<Rightarrow> ProxyError + string" where
  "encode_batch xxh32 enc compression_enabled batch =
     (if compression_enabled then
        (case enc batch of Inr frame \<Rightarrow> Inr frame | Inl e \<Rightarrow> Inl (batch_encode_error e))
      else
        (case encode_store_mode_frame xxh32 batch of
           Inr frame \<Rightarrow> Inr frame
         | Inl e \<Rightarrow>
             Inl (CacheError (''Failed to encode store-mode frame in batched incremental write: '' @
                    show_error e))))"

type_synonym writer_result = "(ProxyError + unit) \<times> IncrementalRangeWriter \<times> Disk"

definition flush_batch ::
    "(string \<Rightarrow> 32 word) \<Rightarrow> encoder \<Rightarrow> Io \<Rightarrow> IncrementalRangeWriter \<Rightarrow> Disk \<Rightarrow> writer_result" where
  "flush_batch xxh32 enc io writer disk =
     (if iw_batch_buf writer = [] then (Inr (), writer, disk)
      else
        (case encode_batch xxh32 enc (iw_compression_enabled writer) (iw_batch_buf writer) of
           Inl e \<Rightarrow> (Inl e, writer, disk)
         | Inr frame_buf \<Rightarrow>
             (case io_write io of
                Some (e, n) \<Rightarrow>
                  (Inl (CacheError (''Failed to write batch to tmp file: '' @ e)), writer,
                   disk \<lparr> dk_fs := append_bytes (dk_fs disk) (iw_tmp_path writer)
                            (take n frame_buf) \<rparr>)
              | None \<Rightarrow>
                  (Inr (),
                   writer \<lparr> iw_compressed_bytes_written :=
                              u64_add (iw_compressed_bytes_written writer) (length frame_buf),
                            iw_batch_buf := [] \<rparr>,
                   \<lparr> dk_fs = append_bytes (dk_fs disk) (iw_tmp_path writer) frame_buf,
                     dk_stats = record_batch_bytes (dk_stats disk) (length (iw_batch_buf writer))
                       (length frame_buf) \<rparr>))))"

definition write_range_chunk ::
    "(string \<Rightarrow> 32 word) \<Rightarrow> encoder \<Rightarrow> Io \<Rightarrow> IncrementalRangeWriter \<Rightarrow> Disk \<Rightarrow> string \<Rightarrow> writer_result" where
  "write_range_chunk xxh32 enc io writer disk chunk =
     (if chunk = [] then (Inr (), writer, disk)
      else
        let writer = writer \<lparr> iw_bytes_written := u64_add (iw_bytes_written writer) (length chunk),
                              iw_batch_buf := iw_batch_buf writer @ chunk \<rparr>
        in if length (iw_batch_buf writer) \<ge> iw_batch_size writer
           then flush_batch xxh32 enc io writer disk
           else (Inr (), writer, disk))"

definition abort_incremental_range :: "Io \<Rightarrow> IncrementalRangeWriter \<Rightarrow> Disk \<Rightarrow> Disk" where
  "abort_incremental_range io writer disk =
     disk \<lparr> dk_fs := remove_file io (dk_fs disk) (iw_tmp_path writer) \<rparr>"

text \<open>
  The decision to keep the received prefix of an incomplete range. The source compares in
  \<open>f64\<close>; here the ratio and the comparison are exact.
\<close>

definition salvage_prefix :: "rat option \<Rightarrow> u64 \<Rightarrow> u64 \<Rightarrow> bool" where
  "salvage_prefix min_commit_ratio bytes_written expected_size =
     (case min_commit_ratio of
        Some ratio \<Rightarrow>
          bytes_written > 0 \<and> bytes_written < expected_size \<and>
          of_nat bytes_written \<ge> ratio * of_nat expected_size
      | None \<Rightarrow> False)"

text \<open>Flush, rename and describe the file, once its length is settled.\<close>

definition publish_range ::
    "(string \<Rightarrow> string) \<Rightarrow> ((char \<Rightarrow> bool) \<Rightarrow> string \<Rightarrow> string) \<Rightarrow> Io \<Rightarrow> SystemTime \<Rightarrow>
     IncrementalRangeWriter \<Rightarrow> Disk \<Rightarrow> string \<Rightarrow> (ProxyError + (CacheRangeSpec \<times> bool)) \<times> Disk" where
  "publish_range blake3 pct io now writer disk etag =
     (let final_path = ''ranges'' # get_versioned_range_file_path blake3 pct (iw_cache_key writer)
            (iw_start writer) (iw_end writer) etag
      in case io_flush io of
           Some e \<Rightarrow>
             (Inl (CacheError (''Failed to flush incremental tmp file: '' @ e)),
              abort_incremental_range io writer disk)
         | None \<Rightarrow>
             let disk = disk \<lparr> dk_stats := record_object (dk_stats disk) (iw_compression_enabled writer) \<rparr>;
                 range_already_existed = (dk_fs disk final_path \<noteq> FileMissing)
             in case io_rename io of
                  Some e \<Rightarrow>
                    (Inl (CacheError (''Failed to rename incremental tmp file to final: '' @ e)),
                     abort_incremental_range io writer disk)
                | None \<Rightarrow>
                    (Inr (CacheRangeSpec_new now (iw_start writer) (iw_end writer)
                            (join_path (tl final_path)) Lz4 (iw_compressed_bytes_written writer)
                            (iw_bytes_written writer), range_already_existed),
                     disk \<lparr> dk_fs := (dk_fs disk)(final_path := dk_fs disk (iw_tmp_path writer),
                                                 iw_tmp_path writer := FileMissing) \<rparr>))"

definition finalize_incremental_range ::
    "(string \<Rightarrow> string) \<Rightarrow> ((char \<Rightarrow> bool) \<Rightarrow> string \<Rightarrow> string) \<Rightarrow> (string \<Rightarrow> 32 word) \<Rightarrow> encoder \<Rightarrow> Io \<Rightarrow>
     SystemTime \<Rightarrow> IncrementalRangeWriter \<Rightarrow> Disk \<Rightarrow> rat option \<Rightarrow> string \<Rightarrow>
     (ProxyError + (CacheRangeSpec \<times> bool)) \<times> Disk" where
  "finalize_incremental_range blake3 pct xxh32 enc io now writer disk min_commit_ratio etag =
     (case (if iw_batch_buf writer \<noteq> [] then flush_batch xxh32 enc io writer disk
            else (Inr (), writer, disk)) of
        (Inl e, writer, disk) \<Rightarrow> (Inl e, abort_incremental_range io writer disk)
      | (Inr _, writer, disk) \<Rightarrow>
          let expected_size = u64_add (u64_sub (iw_end writer) (iw_start writer)) 1
          in if iw_bytes_written writer = expected_size
             then publish_range blake3 pct io now writer disk etag
             else if \<not> salvage_prefix min_commit_ratio (iw_bytes_written writer) expected_size then
               (Inl (CacheError (''Incremental write size mismatch: expected '' @
                       show_nat expected_size @ '' bytes, got '' @
                       show_nat (iw_bytes_written writer) @
                       '' (likely caused by cache channel backpressure '' @
                       [CHR 0xE2, CHR 0x80, CHR 0x94] @
                       '' disk I/O slower than S3 download)'')),
                abort_incremental_range io writer disk)
             else
               publish_range blake3 pct io now
                 (writer \<lparr> iw_end := u64_sub (u64_add (iw_start writer) (iw_bytes_written writer)) 1 \<rparr>)
                 disk etag)"

section \<open>Multipart parts\<close>

text \<open>\<open>{:08x}\<close> and \<open>Path::file_stem\<close> of a file name.\<close>

definition lower_hex8 :: "nat \<Rightarrow> string" where
  "lower_hex8 n = (let h = show_radix 16 n in replicate (8 - length h) (CHR ''0'') @ h)"

definition file_stem :: "string \<Rightarrow> string" where
  "file_stem name =
     (case rsplit_once (CHR ''.'') name of
        Some (stem, _) \<Rightarrow> if stem = [] then name else stem
      | None \<Rightarrow> name)"

record PartFinalizeInfo =
  pf_compression_algorithm :: CompressionAlgorithm
  pf_uncompressed_size :: u64

definition begin_incremental_part_write ::
    "(string list \<Rightarrow> string) \<Rightarrow> usize \<Rightarrow> Io \<Rightarrow> Disk \<Rightarrow> u32 \<Rightarrow> string list \<Rightarrow> string \<Rightarrow> bool \<Rightarrow>
     (ProxyError + IncrementalRangeWriter) \<times> Disk" where
  "begin_incremental_part_write dbg compression_batch_size io disk random_suffix part_final_path
       cache_key compression_enabled =
     (case io_create_dir io of
        Some e \<Rightarrow> (Inl (CacheError (''Failed to create multipart part directory: '' @ e)), disk)
      | None \<Rightarrow>
          let stem = file_stem (last part_final_path);
              tmp_path = butlast part_final_path @ [stem @ ''.'' @ lower_hex8 random_suffix @ ''.tmp'']
          in case io_create io of
               Some e \<Rightarrow>
                 (Inl (CacheError (''Failed to create incremental part tmp file '' @ dbg tmp_path @
                         '': '' @ e)), disk)
             | None \<Rightarrow>
                 (Inr \<lparr> iw_tmp_path = tmp_path, iw_final_path = part_final_path,
                        iw_bytes_written = 0, iw_compressed_bytes_written = 0,
                        iw_cache_key = cache_key, iw_start = 0, iw_end = 0,
                        iw_compression_enabled = compression_enabled, iw_batch_buf = [],
                        iw_batch_size = compression_batch_size \<rparr>,
                  disk \<lparr> dk_fs := (dk_fs disk)(tmp_path := FileBytes []) \<rparr>))"

definition finalize_incremental_part ::
    "(string \<Rightarrow> 32 word) \<Rightarrow> encoder \<Rightarrow> Io \<Rightarrow> IncrementalRangeWriter \<Rightarrow> Disk \<Rightarrow>
     (ProxyError + PartFinalizeInfo) \<times> Disk" where
  "finalize_incremental_part xxh32 enc io writer disk =
     (case (if iw_batch_buf writer \<noteq> [] then flush_batch xxh32 enc io writer disk
            else (Inr (), writer, disk)) of
        (Inl e, writer, disk) \<Rightarrow> (Inl e, abort_incremental_range io writer disk)
      | (Inr _, writer, disk) \<Rightarrow>
          (case io_flush io of
             Some e \<Rightarrow>
               (Inl (CacheError (''Failed to flush incremental part tmp file: '' @ e)),
                abort_incremental_range io writer disk)
           | None \<Rightarrow>
               let disk = disk \<lparr> dk_stats := record_object (dk_stats disk) (iw_compression_enabled writer) \<rparr>
               in case io_rename io of
                    Some e \<Rightarrow>
                      (Inl (CacheError (''Failed to rename incremental part tmp file to final: '' @ e)),
                       abort_incremental_range io writer disk)
                  | None \<Rightarrow>
                      (Inr \<lparr> pf_compression_algorithm = Lz4,
                             pf_uncompressed_size = iw_bytes_written writer \<rparr>,
                       disk \<lparr> dk_fs := (dk_fs disk)
                                (iw_final_path writer := dk_fs disk (iw_tmp_path writer),
                                 iw_tmp_path writer := FileMissing) \<rparr>)))"

section \<open>Reading a range file\<close>

definition servable_range_path ::
    "(string \<Rightarrow> string) \<Rightarrow> CacheRangeSpec \<Rightarrow> (string \<times> string) option \<Rightarrow> ProxyError + string list" where
  "servable_range_path blake3 range_spec version =
     (if \<not> is_safe_relative_file_path (cr_file_path range_spec) then
        Inl (CacheError ''Range file path rejected (unsafe)'')
      else
        (case version of
           Some (key, etag) \<Rightarrow>
             if \<not> range_file_belongs_to range_spec (object_version_id blake3 etag) then
               Inl (CacheVersionMismatch key
                      (case range_file_version (cr_file_path range_spec) of Some v \<Rightarrow> v | None \<Rightarrow> [])
                      etag)
             else Inr (''ranges'' # path_components (cr_file_path range_spec))
         | None \<Rightarrow> Inr (''ranges'' # path_components (cr_file_path range_spec))))"

definition range_file_not_found :: "CacheRangeSpec \<Rightarrow> ProxyError" where
  "range_file_not_found range_spec =
     CacheError (''Range file not found: '' @ cr_file_path range_spec @
       '' (cache miss - will fetch from S3)'')"

definition range_file_failed :: "CacheRangeSpec \<Rightarrow> string \<Rightarrow> ProxyError" where
  "range_file_failed range_spec err =
     CacheError (''Failed to read range file '' @ cr_file_path range_spec @ '': '' @ err)"

definition read_file ::
    "(string \<Rightarrow> string) \<Rightarrow> Disk \<Rightarrow> CacheRangeSpec \<Rightarrow> (string \<times> string) option \<Rightarrow> ProxyError + string" where
  "read_file blake3 disk range_spec version =
     (case servable_range_path blake3 range_spec version of
        Inl e \<Rightarrow> Inl e
      | Inr path \<Rightarrow>
          (case dk_fs disk path of
             FileBytes data \<Rightarrow> Inr data
           | FileMissing \<Rightarrow> Inl (range_file_not_found range_spec)
           | FileUnreadable err \<Rightarrow> Inl (range_file_failed range_spec err)))"

definition read_range_data ::
    "(string \<Rightarrow> string) \<Rightarrow> decoder \<Rightarrow> Disk \<Rightarrow> CacheRangeSpec \<Rightarrow> (string \<times> string) option \<Rightarrow>
     (ProxyError + string) \<times> Disk" where
  "read_range_data blake3 dec disk range_spec version =
     (case read_file blake3 disk range_spec version of
        Inl e \<Rightarrow> (Inl e, disk)
      | Inr compressed_data \<Rightarrow>
          (case decompress_with_algorithm dec (dk_stats disk) compressed_data
                  (cr_compression_algorithm range_spec) of
             (Inl e, st) \<Rightarrow>
               (Inl (CacheError (''Failed to decompress range data: '' @ show_error e)),
                disk \<lparr> dk_stats := st \<rparr>)
           | (Inr decompressed_data, st) \<Rightarrow>
               (let expected_range_size = u64_add (u64_sub (cr_end range_spec) (cr_start range_spec)) 1
                in if length decompressed_data \<noteq> cr_uncompressed_size range_spec then
                     Inl (CacheError (''Decompressed data size mismatch: expected '' @
                            show_nat (cr_uncompressed_size range_spec) @ '' bytes, got '' @
                            show_nat (length decompressed_data) @ '' bytes''))
                   else if length decompressed_data \<noteq> expected_range_size then
                     Inl (CacheError (''Range data size mismatch: expected '' @
                            show_nat expected_range_size @ '' bytes for range '' @
                            show_nat (cr_start range_spec) @ ''-'' @ show_nat (cr_end range_spec) @
                            '', got '' @ show_nat (length decompressed_data) @ '' bytes''))
                   else Inr decompressed_data,
                disk \<lparr> dk_stats := st \<rparr>)))"

definition load_range_data_for_version ::
    "(string \<Rightarrow> string) \<Rightarrow> decoder \<Rightarrow> Disk \<Rightarrow> CacheRangeSpec \<Rightarrow> string \<Rightarrow> string \<Rightarrow>
     (ProxyError + string) \<times> Disk" where
  "load_range_data_for_version blake3 dec disk range_spec cache_key etag =
     read_range_data blake3 dec disk range_spec (Some (cache_key, etag))"

definition read_range_frame ::
    "(string \<Rightarrow> string) \<Rightarrow> Disk \<Rightarrow> CacheRangeSpec \<Rightarrow> (string \<times> string) option \<Rightarrow>
     ProxyError + (string \<times> CompressionAlgorithm)" where
  "read_range_frame blake3 disk range_spec version =
     (case read_file blake3 disk range_spec version of
        Inl e \<Rightarrow> Inl e
      | Inr frame_data \<Rightarrow> Inr (frame_data, cr_compression_algorithm range_spec))"

text \<open>
  The streaming reader. \<open>reads\<close> is how the bytes of one frame, or of a raw file, are handed
  over by successive \<open>read\<close> calls, and \<open>sent\<close> what the decoder hands over of a damaged frame
  before it reports the error; the receiver is assumed to stay. Unlike \<open>decompress_data\<close> the
  loop goes on after a frame without content.
\<close>

record StreamReads =
  sr_reads :: "string \<Rightarrow> string list"
  sr_sent :: "string \<Rightarrow> string list"

fun stream_frames ::
    "nat \<Rightarrow> decoder \<Rightarrow> StreamReads \<Rightarrow> string \<Rightarrow> u64 \<Rightarrow> ((ProxyError + string) list \<times> u64) option" where
  "stream_frames 0 dec sr rest total_read = None"
| "stream_frames (Suc fuel) dec sr rest total_read =
     (if rest = [] then Some ([], total_read)
      else (case dec rest of
              Inl e \<Rightarrow>
                Some (map Inr (sr_sent sr rest) @
                        [Inl (CacheError (''Decompression error mid-stream: '' @ e))],
                      u64_add total_read (length (concat (sr_sent sr rest))))
            | Inr (out, n) \<Rightarrow>
                map_option (\<lambda>(items, t). (map Inr (sr_reads sr out) @ items, t))
                  (stream_frames fuel dec sr (drop n rest) (u64_add total_read (length out)))))"

definition read_range_stream ::
    "(string \<Rightarrow> string) \<Rightarrow> decoder \<Rightarrow> StreamReads \<Rightarrow> Disk \<Rightarrow> CacheRangeSpec \<Rightarrow>
     (string \<times> string) option \<Rightarrow> ProxyError + (ProxyError + string) list option" where
  "read_range_stream blake3 dec sr disk range_spec version =
     (case read_file blake3 disk range_spec version of
        Inl e \<Rightarrow> Inl e
      | Inr data \<Rightarrow>
          Inr (map_option
            (\<lambda>(items, total_read).
               items @
               (if total_read \<noteq> cr_uncompressed_size range_spec then
                  [Inl (CacheError (''Decompressed size mismatch: expected '' @
                          show_nat (cr_uncompressed_size range_spec) @ '' bytes, got '' @
                          show_nat total_read))]
                else []))
            (case cr_compression_algorithm range_spec of
               Lz4 \<Rightarrow> stream_frames (Suc (length data)) dec sr data 0
             | NoCompression \<Rightarrow> Some (map Inr (sr_reads sr data), length data mod u64_mod))))"

section \<open>Paths\<close>

lemma join_path_Cons: "cs \<noteq> [] \<Longrightarrow> join_path (c # cs) = c @ slash # join_path cs"
  by (cases cs) auto

definition plain_component :: "string \<Rightarrow> bool" where
  "plain_component c \<longleftrightarrow> c \<noteq> [] \<and> c \<noteq> ''.'' \<and> c \<noteq> ''..'' \<and> slash \<notin> set c"

lemma split_join_path:
  "cs \<noteq> [] \<Longrightarrow> \<forall>c \<in> set cs. slash \<notin> set c \<Longrightarrow> split_char slash (join_path cs) = cs"
proof (induction cs)
  case (Cons c cs)
  then show ?case
    by (cases "cs = []") (auto simp: join_path_Cons split_char_sep split_char_no_sep)
qed simp

lemma path_components_join:
  "cs \<noteq> [] \<Longrightarrow> list_all plain_component cs \<Longrightarrow> path_components (join_path cs) = cs"
  by (simp add: path_components_def split_join_path list_all_iff plain_component_def filter_id_conv)

section \<open>The writer's invariant\<close>

text \<open>
  \<open>writer_inv\<close> relates the writer to the bytes accepted so far: the temporary file is a
  sequence of frames, each holding a non-empty piece, the pieces and the buffer give the
  accepted bytes in order, and the counters are exact.
\<close>

definition frame_of :: "decoder \<Rightarrow> string \<times> string \<Rightarrow> bool" where
  "frame_of dec = (\<lambda>(frame, content). content \<noteq> [] \<and> frame \<noteq> [] \<and>
     (\<forall>rest. dec (frame @ rest) = Inr (content, length frame)))"

definition writer_inv :: "decoder \<Rightarrow> IncrementalRangeWriter \<Rightarrow> Disk \<Rightarrow> string \<Rightarrow> bool" where
  "writer_inv dec w disk accepted \<longleftrightarrow>
     (\<exists>frames. list_all (frame_of dec) frames \<and>
        dk_fs disk (iw_tmp_path w) = FileBytes (concat (map fst frames)) \<and>
        iw_compressed_bytes_written w = length (concat (map fst frames)) mod u64_mod \<and>
        accepted = concat (map snd frames) @ iw_batch_buf w \<and>
        iw_bytes_written w = length accepted mod u64_mod)"

lemma encode_batch_frame:
  assumes "codec_ok xxh32 enc dec" "encode_batch xxh32 enc c batch = Inr frame" "batch \<noteq> []"
  shows "frame_of dec (frame, batch)"
  using assms codec_stored [OF assms(1)] codec_encoded [OF assms(1)]
  by (auto simp: encode_batch_def frame_of_def split: if_splits sum.splits)

lemma u64_add_mod: "u64_add (a mod u64_mod) b = (a + b) mod u64_mod"
  by (simp add: u64_add_def mod_add_left_eq)

lemma flush_batch_inv:
  assumes "codec_ok xxh32 enc dec" "writer_inv dec w disk accepted"
    and "flush_batch xxh32 enc io w disk = (Inr u, w', disk')"
  shows "writer_inv dec w' disk' accepted" "iw_batch_buf w' = []"
proof -
  show "iw_batch_buf w' = []"
    using assms(3) by (auto simp: flush_batch_def split: if_splits sum.splits option.splits)
  show "writer_inv dec w' disk' accepted"
  proof (cases "iw_batch_buf w = []")
    case True
    then show ?thesis using assms by (simp add: flush_batch_def)
  next
    case False
    obtain frame where frame: "encode_batch xxh32 enc (iw_compression_enabled w) (iw_batch_buf w) = Inr frame"
      and io: "io_write io = None"
      and w': "w' = w \<lparr> iw_compressed_bytes_written := u64_add (iw_compressed_bytes_written w) (length frame),
                  iw_batch_buf := [] \<rparr>"
      and disk': "dk_fs disk' = append_bytes (dk_fs disk) (iw_tmp_path w) frame"
      using assms(3) False by (auto simp: flush_batch_def split: sum.splits option.splits)
    obtain frames where inv: "list_all (frame_of dec) frames"
      "dk_fs disk (iw_tmp_path w) = FileBytes (concat (map fst frames))"
      "iw_compressed_bytes_written w = length (concat (map fst frames)) mod u64_mod"
      "accepted = concat (map snd frames) @ iw_batch_buf w"
      "iw_bytes_written w = length accepted mod u64_mod"
      using assms(2) unfolding writer_inv_def by blast
    show ?thesis
      unfolding writer_inv_def
      by (rule exI [of _ "frames @ [(frame, iw_batch_buf w)]"])
        (use inv encode_batch_frame [OF assms(1) frame False] w' disk' in
          \<open>simp add: append_bytes_def u64_add_mod\<close>)
  qed
qed

lemma flush_batch_frame:
  assumes "flush_batch xxh32 enc io w disk = (r, w', disk')"
  shows "iw_tmp_path w' = iw_tmp_path w" "iw_cache_key w' = iw_cache_key w"
    "iw_start w' = iw_start w" "iw_end w' = iw_end w" "iw_bytes_written w' = iw_bytes_written w"
    "p \<noteq> iw_tmp_path w \<Longrightarrow> dk_fs disk' p = dk_fs disk p"
  using assms
  by (auto simp: flush_batch_def append_bytes_def split: if_splits sum.splits option.splits)

lemma write_range_chunk_frame:
  assumes "write_range_chunk xxh32 enc io w disk chunk = (r, w', disk')"
  shows "iw_tmp_path w' = iw_tmp_path w" "iw_cache_key w' = iw_cache_key w"
    "iw_start w' = iw_start w" "iw_end w' = iw_end w"
    "p \<noteq> iw_tmp_path w \<Longrightarrow> dk_fs disk' p = dk_fs disk p"
  using assms
  by (auto simp: write_range_chunk_def Let_def split: if_splits dest: flush_batch_frame)

lemma write_range_chunk_inv:
  assumes "codec_ok xxh32 enc dec" "writer_inv dec w disk accepted"
    and "write_range_chunk xxh32 enc io w disk chunk = (Inr u, w', disk')"
  shows "writer_inv dec w' disk' (accepted @ chunk)"
proof (cases "chunk = []")
  case True
  then show ?thesis using assms by (simp add: write_range_chunk_def)
next
  case False
  let ?w = "w \<lparr> iw_bytes_written := u64_add (iw_bytes_written w) (length chunk),
                iw_batch_buf := iw_batch_buf w @ chunk \<rparr>"
  have inv: "writer_inv dec ?w disk (accepted @ chunk)"
    using assms(2) unfolding writer_inv_def by (auto simp: u64_add_mod)
  show ?thesis
  proof (cases "length (iw_batch_buf ?w) \<ge> iw_batch_size ?w")
    case True
    then have "flush_batch xxh32 enc io ?w disk = (Inr u, w', disk')"
      using assms(3) False by (simp add: write_range_chunk_def Let_def)
    from flush_batch_inv(1) [OF assms(1) inv this] show ?thesis .
  next
    case small: False
    then have "w' = ?w \<and> disk' = disk" using assms(3) False by (auto simp: write_range_chunk_def Let_def)
    then show ?thesis using inv by simp
  qed
qed

text \<open>The caller's loop: every chunk of the body, each with the answers the system gives.\<close>

fun write_chunks ::
    "(string \<Rightarrow> 32 word) \<Rightarrow> encoder \<Rightarrow> IncrementalRangeWriter \<Rightarrow> Disk \<Rightarrow> (Io \<times> string) list \<Rightarrow>
     writer_result" where
  "write_chunks xxh32 enc w disk [] = (Inr (), w, disk)"
| "write_chunks xxh32 enc w disk ((io, chunk) # rest) =
     (case write_range_chunk xxh32 enc io w disk chunk of
        (Inl e, w', disk') \<Rightarrow> (Inl e, w', disk')
      | (Inr _, w', disk') \<Rightarrow> write_chunks xxh32 enc w' disk' rest)"

lemma write_chunks_frame:
  "write_chunks xxh32 enc w disk cs = (r, w', disk') \<Longrightarrow>
   iw_tmp_path w' = iw_tmp_path w \<and> iw_cache_key w' = iw_cache_key w \<and>
   iw_start w' = iw_start w \<and> iw_end w' = iw_end w \<and>
   (\<forall>p. p \<noteq> iw_tmp_path w \<longrightarrow> dk_fs disk' p = dk_fs disk p)"
proof (induction xxh32 enc w disk cs rule: write_chunks.induct)
  case (2 xxh32 enc w disk io chunk rest)
  obtain r1 w1 d1 where w: "write_range_chunk xxh32 enc io w disk chunk = (r1, w1, d1)"
    by (metis prod_cases3)
  show ?case
  proof (cases r1)
    case (Inl e)
    then show ?thesis using 2(2) w write_range_chunk_frame [OF w] by auto
  next
    case (Inr u)
    then have "write_chunks xxh32 enc w1 d1 rest = (r, w', disk')" using 2(2) w by simp
    from 2(1) [OF w [symmetric] Inr refl this] write_range_chunk_frame [OF w] show ?thesis by auto
  qed
qed simp

lemma write_chunks_inv:
  assumes "codec_ok xxh32 enc dec"
  shows "writer_inv dec w disk accepted \<Longrightarrow> write_chunks xxh32 enc w disk cs = (Inr u, w', disk') \<Longrightarrow>
    writer_inv dec w' disk' (accepted @ concat (map snd cs))"
  using assms
proof (induction xxh32 enc w disk cs arbitrary: accepted rule: write_chunks.induct)
  case (2 xxh32 enc w disk io chunk rest)
  obtain r1 w1 d1 where w: "write_range_chunk xxh32 enc io w disk chunk = (r1, w1, d1)"
    by (metis prod_cases3)
  with 2(3) obtain u1 where r1: "r1 = Inr u1" by (cases r1) auto
  have "writer_inv dec w1 d1 (accepted @ chunk)"
    using write_range_chunk_inv [OF 2(4) 2(2) w [unfolded r1]] .
  from 2(1) [OF w [symmetric] r1 refl this _ 2(4)] 2(3) w r1 show ?case by simp
qed simp

lemma decompress_written:
  assumes "list_all (frame_of dec) frames"
  shows "decompress_data dec st (concat (map fst frames)) = (Inr (concat (map snd frames)), st)"
  using assms by (intro decompress_frames) (auto simp: list_all_iff frame_of_def)

section \<open>The names of range files\<close>

definition safe_component :: "string \<Rightarrow> bool" where
  "safe_component c \<longleftrightarrow> plain_component c \<and> backslash \<notin> set c \<and> \<not> list_ex control_byte c"

lemma control_byte_lits [simp]:
  "\<not> control_byte (CHR ''_'')" "\<not> control_byte (CHR ''-'')" "\<not> control_byte (CHR ''.'')"
  "\<not> control_byte (CHR ''b'')" "\<not> control_byte (CHR ''i'')" "\<not> control_byte (CHR ''n'')"
  "\<not> control_byte (CHR ''/'')" "\<not> control_byte (CHR ''l'')" "\<not> control_byte (CHR ''o'')"
  "\<not> control_byte (CHR ''g'')" "\<not> control_byte (CHR ''k'')" "\<not> control_byte (CHR ''e'')"
  "\<not> control_byte (CHR ''y'')" "\<not> control_byte (CHR ''%'')"
  by (simp_all add: control_byte_def)

definition tame_char :: "char \<Rightarrow> bool" where
  "tame_char c \<longleftrightarrow> c \<noteq> slash \<and> c \<noteq> backslash \<and> \<not> control_byte c"

abbreviation tame :: "string \<Rightarrow> bool" where
  "tame s \<equiv> list_all tame_char s"

lemma tame_char_hex: "hex_digit c \<Longrightarrow> tame_char c"
  by (auto simp: tame_char_def hex_digit_def control_byte_def Let_def)

lemma tame_hex: "list_all hex_digit s \<Longrightarrow> tame s"
  using tame_char_hex by (simp add: list_all_iff)

lemma tame_show_nat [simp]: "tame (show_nat n)"
  unfolding list_all_iff
proof
  fix c assume "c \<in> set (show_nat n)"
  then have "hex_digit c" using show_nat_digit by (auto simp: hex_digit_def Let_def)
  then show "tame_char c" by (rule tame_char_hex)
qed

lemma tame_char_lits [simp]:
  "tame_char (CHR ''_'')" "tame_char (CHR ''-'')" "tame_char (CHR ''.'')" "tame_char (CHR ''%'')"
  "tame_char (CHR ''b'')" "tame_char (CHR ''i'')" "tame_char (CHR ''n'')" "tame_char (CHR ''l'')"
  "tame_char (CHR ''o'')" "tame_char (CHR ''g'')" "tame_char (CHR ''k'')" "tame_char (CHR ''e'')"
  "tame_char (CHR ''y'')"
  by (simp_all add: tame_char_def)

lemma not_FRAGMENT_tame: "\<not> FRAGMENT c \<Longrightarrow> tame_char c"
  unfolding tame_char_def by (rule ccontr) (auto simp: FRAGMENT_def)

lemma tame_pct: "pct_ok pct \<Longrightarrow> tame (pct FRAGMENT s)"
  unfolding pct_ok_def list_all_iff using not_FRAGMENT_tame tame_char_lits(4) by blast

lemma tame_range_suffix [simp]: "tame (range_suffix s e)"
  by (simp add: range_suffix_def)

lemma tame_parts:
  assumes "tame c"
  shows "slash \<notin> set c" "backslash \<notin> set c" "\<not> list_ex control_byte c"
  using assms unfolding list_all_iff list_ex_iff
  by (metis tame_char_def)+

lemma safe_component_tame:
  "tame c \<Longrightarrow> c \<noteq> [] \<Longrightarrow> c \<noteq> ''.'' \<Longrightarrow> c \<noteq> ''..'' \<Longrightarrow> safe_component c"
  unfolding safe_component_def plain_component_def using tame_parts by blast

lemma safe_component_long: "tame c \<Longrightarrow> 2 < length c \<Longrightarrow> safe_component c"
  by (rule safe_component_tame, assumption) (rule notI, simp)+

lemma safe_component_hex: "list_all hex_digit c \<Longrightarrow> c \<noteq> [] \<Longrightarrow> safe_component c"
  by (rule safe_component_tame, erule tame_hex, assumption)
    (rule notI, drule hex_no_slash, simp)+

text \<open>
  The path of a new range file: safe directories and a name that ends in the byte positions
  and the extension.
\<close>

lemma new_range_file_path_shape:
  assumes "blake3_ok blake3" "pct_ok pct"
  obtains dirs stem where
    "get_new_range_file_path blake3 pct cache_key s e = dirs @ [stem @ range_suffix s e @ ''.bin'']"
    "list_all safe_component dirs" "tame stem"
proof (cases "get_sharded_path blake3 pct cache_key (range_suffix s e @ ''.bin'')")
  case (Inl err)
  have "tame (sanitize_cache_key_new blake3 pct cache_key)"
    using assms(1) tame_pct [OF assms(2)] tame_hex
    by (auto simp: sanitize_cache_key_new_def Let_def blake3_ok_def)
  then show thesis
    using that [of "[]" "sanitize_cache_key_new blake3 pct cache_key"] Inl
    by (simp add: get_new_range_file_path_def)
next
  case (Inr path)
  then obtain b ob where key: "parse_cache_key cache_key = Inr (b, ob)"
    and path: "path = [b, take 2 (blake3 ob), take 3 (drop 2 (blake3 ob)),
        sanitize_object_key_for_filename blake3 pct ob (range_suffix s e @ ''.bin'')]"
    by (auto simp: get_sharded_path_def Let_def split: sum.splits)
  have hex: "list_all hex_digit (blake3 ob)" "length (blake3 ob) = 64"
    using assms(1) by (simp_all add: blake3_ok_def)
  have "list_all hex_digit (take 2 (blake3 ob))" "list_all hex_digit (take 3 (drop 2 (blake3 ob)))"
    using hex(1) by (auto simp: list_all_iff dest: in_set_takeD in_set_dropD)
  then have "safe_component (take 2 (blake3 ob))" "safe_component (take 3 (drop 2 (blake3 ob)))"
    using hex(2) by (auto intro!: safe_component_hex)
  moreover have "safe_component b"
    using parse_cache_key_Inr [OF key] by (simp add: safe_component_def plain_component_def)
  moreover define stem where "stem = (if 200 < length (pct FRAGMENT ob) then blake3 ob else pct FRAGMENT ob)"
  moreover have "sanitize_object_key_for_filename blake3 pct ob (range_suffix s e @ ''.bin'') =
      stem @ range_suffix s e @ ''.bin''"
    by (simp add: sanitize_object_key_for_filename_def Let_def stem_def)
  moreover have "tame stem" using tame_hex [OF hex(1)] tame_pct [OF assms(2)] by (simp add: stem_def)
  ultimately show thesis
    using that [of "[b, take 2 (blake3 ob), take 3 (drop 2 (blake3 ob))]" stem] Inr path
    by (simp add: get_new_range_file_path_def)
qed

lemma with_extension_bin:
  assumes "CHR ''.'' \<notin> set t" "t \<noteq> []"
  shows "with_extension (stem @ t @ ''.bin'') ext = stem @ t @ ''.'' @ ext"
proof -
  have "rsplit_once (CHR ''.'') (stem @ t @ ''.bin'') = Some (stem @ t, ''bin'')"
    by (simp add: rsplit_once_Some)
  then show ?thesis using assms(2) by (simp add: with_extension_def)
qed

lemma range_suffix_nonempty [simp]: "range_suffix s e \<noteq> []"
  by (simp add: range_suffix_def)

lemma range_suffix_no_dot [simp]: "CHR ''.'' \<notin> set (range_suffix s e)"
  using show_nat_notin [of "CHR ''.''"] by (simp add: range_suffix_def)

lemma versioned_range_file_path_shape:
  assumes "blake3_ok blake3" "pct_ok pct"
  obtains dirs stem where
    "get_versioned_range_file_path blake3 pct cache_key s e etag =
       dirs @ [stem @ range_suffix s e @ ''.'' @ object_version_id blake3 etag @ ''.bin'']"
    "list_all safe_component dirs" "tame stem"
proof -
  obtain dirs stem where path:
    "get_new_range_file_path blake3 pct cache_key s e = dirs @ [stem @ range_suffix s e @ ''.bin'']"
    and safe: "list_all safe_component dirs" "tame stem"
    using new_range_file_path_shape [OF assms] .
  let ?v = "object_version_id blake3 etag"
  let ?name = "\<lambda>stem. stem @ range_suffix s e @ ''.'' @ ?v @ ''.bin''"
  have name: "with_extension (stem @ range_suffix s e @ ''.bin'') (?v @ ''.bin'') = ?name stem"
    by (rule with_extension_bin) simp_all
  have hash: "tame (blake3 cache_key)" using assms(1) tame_hex by (simp add: blake3_ok_def)
  have "get_versioned_range_file_path blake3 pct cache_key s e etag =
      dirs @ [if length (?name stem) > 255 then ?name (blake3 cache_key) else ?name stem]"
    unfolding get_versioned_range_file_path_def versioned_range_file_path_def Let_def path
      last_snoc butlast_snoc name by simp
  then have "get_versioned_range_file_path blake3 pct cache_key s e etag =
      dirs @ [?name (if length (?name stem) > 255 then blake3 cache_key else stem)]"
    by (simp only: if_distrib [of ?name])
  moreover have "tame (if length (?name stem) > 255 then blake3 cache_key else stem)"
    using hash safe(2) by (simp only: if_split) simp
  ultimately show thesis using safe(1) that by blast
qed

lemma tame_version: "blake3_ok blake3 \<Longrightarrow> tame (object_version_id blake3 etag)"
  by (simp add: object_version_id_def blake3_ok_def tame_hex)

lemma versioned_path_safe:
  assumes "blake3_ok blake3" "pct_ok pct"
  shows "list_all safe_component (get_versioned_range_file_path blake3 pct cache_key s e etag)"
    and "get_versioned_range_file_path blake3 pct cache_key s e etag \<noteq> []"
proof -
  obtain dirs stem where "get_versioned_range_file_path blake3 pct cache_key s e etag =
       dirs @ [stem @ range_suffix s e @ ''.'' @ object_version_id blake3 etag @ ''.bin'']"
    "list_all safe_component dirs" "tame stem"
    using versioned_range_file_path_shape [OF assms] .
  moreover from this(3) have "safe_component (stem @ range_suffix s e @ ''.'' @
      object_version_id blake3 etag @ ''.bin'')"
    using tame_version [OF assms(1)] by (intro safe_component_long) simp_all
  ultimately show "list_all safe_component (get_versioned_range_file_path blake3 pct cache_key s e etag)"
    "get_versioned_range_file_path blake3 pct cache_key s e etag \<noteq> []" by simp_all
qed

lemma join_path_snoc: "\<exists>pre. join_path (dirs @ [name]) = pre @ name"
proof (induction dirs)
  case (Cons d dirs)
  then obtain pre where "join_path (dirs @ [name]) = pre @ name" by blast
  then have "join_path ((d # dirs) @ [name]) = (d @ slash # pre) @ name" by (simp add: join_path_Cons)
  then show ?case by blast
qed simp

lemma join_path_chars: "c \<in> set (join_path cs) \<Longrightarrow> c = slash \<or> (\<exists>w \<in> set cs. c \<in> set w)"
  by (induction cs rule: join_path.induct) auto

lemma safe_component_chars:
  "safe_component w \<Longrightarrow> c \<in> set w \<Longrightarrow> c \<noteq> backslash \<and> \<not> control_byte c"
  unfolding safe_component_def list_ex_iff by blast

lemma safe_join_path_chars:
  assumes "list_all safe_component cs" "c \<in> set (join_path cs)"
  shows "c \<noteq> backslash \<and> \<not> control_byte c"
proof -
  consider "c = slash" | w where "w \<in> set cs" "c \<in> set w" using join_path_chars [OF assms(2)] by blast
  then show ?thesis
  proof cases
    case 1
    then show ?thesis by simp
  next
    case 2
    then show ?thesis using assms(1) safe_component_chars unfolding list_all_iff by blast
  qed
qed

lemma join_path_hd: "a \<noteq> [] \<Longrightarrow> join_path (a # rest) \<noteq> [] \<and> hd (join_path (a # rest)) = hd a"
  by (cases rest) auto

lemma safe_join_path:
  assumes "list_all safe_component cs" "cs \<noteq> []"
  shows "is_safe_relative_file_path (join_path cs)"
proof -
  have no_slash: "\<forall>c \<in> set cs. slash \<notin> set c" and no_up: "list_all (\<lambda>c. c \<noteq> ''..'') cs"
    using assms(1) unfolding list_all_iff safe_component_def plain_component_def by blast+
  have split: "split_char slash (join_path cs) = cs" by (rule split_join_path [OF assms(2) no_slash])
  obtain a rest where cs: "cs = a # rest" using assms(2) by (cases cs) auto
  have ne: "a \<noteq> []" using assms(1) cs by (simp add: safe_component_def plain_component_def)
  have hd: "join_path cs \<noteq> []" "hd (join_path cs) = hd a" using join_path_hd [OF ne] cs by simp_all
  have "hd a \<noteq> slash" using no_slash cs ne by (metis list.set_intros(1) list.set_sel(1))
  moreover have ctrl: "\<forall>c \<in> set (join_path cs). c \<noteq> backslash \<and> \<not> control_byte c"
    using safe_join_path_chars [OF assms(1)] by blast
  moreover have "hd (join_path cs) \<noteq> backslash" using ctrl hd(1) by (metis list.set_sel(1))
  ultimately have "\<not> starts_with [slash] (join_path cs)" "\<not> starts_with [backslash] (join_path cs)"
    using hd unfolding starts_with_iff by (metis append_Cons list.sel(1))+
  moreover have "backslash \<notin> set (join_path cs)" "\<not> list_ex control_byte (join_path cs)"
    using ctrl unfolding list_ex_iff by blast+
  ultimately show ?thesis
    unfolding is_safe_relative_file_path_def split using hd(1) no_up by (simp only: if_False simp_thms)
qed

lemma belongs_to_shape:
  assumes "cr_file_path r = pre @ range_suffix (cr_start r) (cr_end r) @ ''.'' @ v @ ''.bin''"
  shows "range_file_belongs_to r v"
proof -
  let ?stem = "pre @ range_suffix (cr_start r) (cr_end r)"
  have "strip_suffix ''.bin'' (cr_file_path r) = Some ((?stem @ ''.'') @ v)"
    using assms by (simp add: strip_suffix_Some)
  moreover have "strip_suffix v ((?stem @ ''.'') @ v) = Some (?stem @ ''.'')"
    by (simp only: strip_suffix_Some)
  moreover have "strip_suffix ''.'' (?stem @ ''.'') = Some ?stem" by (simp only: strip_suffix_Some)
  moreover have "ends_with (range_suffix (cr_start r) (cr_end r)) ?stem"
    by (simp add: ends_with_def strip_suffix_Some)
  ultimately show ?thesis unfolding range_file_belongs_to_def by (simp only: option.case)
qed

lemma versioned_spec_servable:
  assumes "blake3_ok blake3" "pct_ok pct"
    and "cr_file_path r = join_path (get_versioned_range_file_path blake3 pct k (cr_start r) (cr_end r) etag)"
  shows "servable_range_path blake3 r (Some (k', etag)) =
    Inr (''ranges'' # get_versioned_range_file_path blake3 pct k (cr_start r) (cr_end r) etag)"
proof -
  let ?p = "get_versioned_range_file_path blake3 pct k (cr_start r) (cr_end r) etag"
  obtain dirs stem where p: "?p = dirs @ [stem @ range_suffix (cr_start r) (cr_end r) @ ''.'' @
      object_version_id blake3 etag @ ''.bin'']"
    using versioned_range_file_path_shape [OF assms(1,2)] by blast
  obtain pre where pre: "join_path ?p = pre @ stem @ range_suffix (cr_start r) (cr_end r) @ ''.'' @
      object_version_id blake3 etag @ ''.bin''"
    using join_path_snoc unfolding p by blast
  have "range_file_belongs_to r (object_version_id blake3 etag)"
    by (rule belongs_to_shape [of _ "pre @ stem"]) (simp add: assms(3) pre)
  moreover have "is_safe_relative_file_path (cr_file_path r)"
    unfolding assms(3) using versioned_path_safe [OF assms(1,2)] by (intro safe_join_path)
  moreover have "path_components (cr_file_path r) = ?p"
    unfolding assms(3) using versioned_path_safe [OF assms(1,2)]
    by (intro path_components_join) (auto simp: list_all_iff safe_component_def)
  ultimately show ?thesis by (simp add: servable_range_path_def)
qed

section \<open>Write, publish, read\<close>

text \<open>The file a range names holds \<open>body\<close> as a sequence of frames.\<close>

definition holds_body ::
    "(string \<Rightarrow> string) \<Rightarrow> decoder \<Rightarrow> Disk \<Rightarrow> CacheRangeSpec \<Rightarrow> (string \<times> string) option \<Rightarrow> string \<Rightarrow> bool" where
  "holds_body blake3 dec disk r version body \<longleftrightarrow>
     (\<exists>frames. read_file blake3 disk r version = Inr (concat (map fst frames)) \<and>
        list_all (frame_of dec) frames \<and> body = concat (map snd frames)) \<and>
     cr_compression_algorithm r = Lz4 \<and> cr_uncompressed_size r = length body \<and>
     u64_add (u64_sub (cr_end r) (cr_start r)) 1 = length body"

lemma holds_body_load:
  assumes "holds_body blake3 dec disk r version body"
  shows "read_range_data blake3 dec disk r version = (Inr body, disk)"
proof -
  obtain frames where f: "read_file blake3 disk r version = Inr (concat (map fst frames))"
    "list_all (frame_of dec) frames" "body = concat (map snd frames)"
    "cr_compression_algorithm r = Lz4" "cr_uncompressed_size r = length body"
    "u64_add (u64_sub (cr_end r) (cr_start r)) 1 = length body"
    using assms unfolding holds_body_def by blast
  show ?thesis
    unfolding read_range_data_def f(1) decompress_with_algorithm_def f(4)
    using f(3,5,6) decompress_written [OF f(2), of "dk_stats disk"] by (simp add: Let_def)
qed

lemma stream_frames_written:
  assumes "list_all (frame_of dec) frames" "length frames < fuel" "t < u64_mod"
  shows "stream_frames fuel dec sr (concat (map fst frames)) t =
    Some (concat (map (map Inr \<circ> sr_reads sr) (map snd frames)),
          (t + length (concat (map snd frames))) mod u64_mod)"
  using assms
proof (induction frames arbitrary: fuel t)
  case Nil
  then show ?case by (cases fuel) auto
next
  case (Cons f fs)
  obtain frame content where f: "f = (frame, content)" by fastforce
  obtain k where k: "fuel = Suc k" using Cons.prems(2) by (cases fuel) auto
  have one: "frame \<noteq> []" "dec (frame @ concat (map fst fs)) = Inr (content, length frame)"
    using Cons.prems(1) f by (auto simp: frame_of_def)
  have "stream_frames k dec sr (concat (map fst fs)) (u64_add t (length content)) =
    Some (concat (map (map Inr \<circ> sr_reads sr) (map snd fs)),
          (u64_add t (length content) + length (concat (map snd fs))) mod u64_mod)"
    using Cons.prems f k u64_add_bound by (intro Cons.IH) auto
  moreover have "(u64_add t (length content) + length (concat (map snd fs))) mod u64_mod =
      (t + (length content + length (concat (map snd fs)))) mod u64_mod"
    by (simp add: u64_add_def mod_add_left_eq add.assoc)
  ultimately show ?case using one f k by (simp add: comp_def)
qed

lemma frames_fewer:
  assumes "list_all (frame_of dec) frames"
  shows "length frames < Suc (length (concat (map fst frames)))"
proof -
  have "\<forall>x \<in> set (map fst frames). x \<noteq> []" using assms by (auto simp: list_all_iff frame_of_def)
  from length_concat_nonempty [OF this] show ?thesis by simp
qed

lemma concat_reads: "(\<And>x. concat (reads x) = x) \<Longrightarrow> concat (concat (map reads xs)) = concat xs"
  by (induction xs) auto

lemma holds_body_stream:
  assumes "holds_body blake3 dec disk r version body" "\<And>x. concat (sr_reads sr x) = x"
    and "length body < u64_mod"
  shows "\<exists>pieces. read_range_stream blake3 dec sr disk r version = Inr (Some (map Inr pieces)) \<and>
    concat pieces = body"
proof -
  obtain frames where f: "read_file blake3 disk r version = Inr (concat (map fst frames))"
    "list_all (frame_of dec) frames" "body = concat (map snd frames)"
    "cr_compression_algorithm r = Lz4" "cr_uncompressed_size r = length body"
    using assms(1) unfolding holds_body_def by blast
  let ?pieces = "concat (map (sr_reads sr) (map snd frames))"
  have "stream_frames (Suc (length (concat (map fst frames)))) dec sr (concat (map fst frames)) 0 =
    Some (map Inr ?pieces, length body)"
    using stream_frames_written [OF f(2) frames_fewer [OF f(2)], of 0 sr] f(3) assms(3)
    by (simp add: map_concat comp_def)
  then have "read_range_stream blake3 dec sr disk r version = Inr (Some (map Inr ?pieces))"
    using f(1,4,5) by (simp add: read_range_stream_def)
  moreover have "concat ?pieces = body" using concat_reads [OF assms(2)] f(3) by blast
  ultimately show ?thesis by blast
qed

lemma bin_not_tmp:
  assumes "blake3_ok blake3" "pct_ok pct" "ends_with ''.tmp'' (last t)"
  shows "''ranges'' # get_versioned_range_file_path blake3 pct k s e etag \<noteq> t"
proof
  assume t: "''ranges'' # get_versioned_range_file_path blake3 pct k s e etag = t"
  obtain dirs stem where p: "get_versioned_range_file_path blake3 pct k s e etag =
       dirs @ [stem @ range_suffix s e @ ''.'' @ object_version_id blake3 etag @ ''.bin'']"
    using versioned_range_file_path_shape [OF assms(1,2)] by blast
  then have "last t = stem @ range_suffix s e @ ''.'' @ object_version_id blake3 etag @ ''.bin''"
    using t by auto
  then have "last (last t) = CHR ''n''" by simp
  moreover have "last (last t) = CHR ''p''" using assms(3) by (auto simp: ends_with_def strip_suffix_Some)
  ultimately show False by simp
qed

lemma publish_range_ok:
  assumes "blake3_ok blake3" "pct_ok pct" "writer_inv dec w disk body" "iw_batch_buf w = []"
    and "ends_with ''.tmp'' (last (iw_tmp_path w))"
    and "length body < u64_mod" "iw_start w + length body = iw_end w + 1"
    and "iw_start w \<le> iw_end w" "iw_end w < u64_max"
    and "publish_range blake3 pct io now w disk etag = (Inr (spec, existed), disk')"
  shows "cr_start spec = iw_start w \<and> cr_end spec = iw_end w \<and>
    holds_body blake3 dec disk' spec (Some (iw_cache_key w, etag)) body \<and>
    (\<forall>p. p \<noteq> ''ranges'' # path_components (cr_file_path spec) \<longrightarrow> p \<noteq> iw_tmp_path w \<longrightarrow>
       dk_fs disk' p = dk_fs disk p) \<and> dk_fs disk' (iw_tmp_path w) = FileMissing"
proof -
  let ?v = "get_versioned_range_file_path blake3 pct (iw_cache_key w) (iw_start w) (iw_end w) etag"
  let ?p = "''ranges'' # ?v"
  have spec: "spec = CacheRangeSpec_new now (iw_start w) (iw_end w) (join_path ?v) Lz4
        (iw_compressed_bytes_written w) (iw_bytes_written w)"
    and fs: "dk_fs disk' = (dk_fs disk)(?p := dk_fs disk (iw_tmp_path w), iw_tmp_path w := FileMissing)"
    using assms(10) by (auto simp: publish_range_def Let_def split: option.splits)
  obtain frames where inv: "list_all (frame_of dec) frames"
    "dk_fs disk (iw_tmp_path w) = FileBytes (concat (map fst frames))"
    "body = concat (map snd frames)" "iw_bytes_written w = length body mod u64_mod"
    using assms(3,4) unfolding writer_inv_def by auto
  have tmp: "?p \<noteq> iw_tmp_path w" using bin_not_tmp [OF assms(1,2,5)] .
  have path: "servable_range_path blake3 spec (Some (iw_cache_key w, etag)) = Inr ?p"
    using versioned_spec_servable [OF assms(1,2), of spec "iw_cache_key w" etag "iw_cache_key w"]
    by (simp add: spec CacheRangeSpec_new_def)
  have "path_components (cr_file_path spec) = ?v"
    using path by (auto simp: servable_range_path_def split: if_splits)
  moreover have "read_file blake3 disk' spec (Some (iw_cache_key w, etag)) = Inr (concat (map fst frames))"
    using path fs inv(2) tmp by (simp add: read_file_def)
  moreover have "u64_add (u64_sub (cr_end spec) (cr_start spec)) 1 = length body"
    using assms(7-9) by (simp add: spec CacheRangeSpec_new_def u64_simps)
  ultimately show ?thesis
    unfolding holds_body_def using inv fs tmp assms(6) by (auto simp: spec CacheRangeSpec_new_def)
qed

lemma begin_inv:
  assumes "begin_incremental_range_write blake3 pct dbg bs io disk uuid key s e c = (Inr w, disk')"
  shows "writer_inv dec w disk' []" "iw_cache_key w = key" "iw_start w = s" "iw_end w = e" "s \<le> e"
    "ends_with ''.tmp'' (last (iw_tmp_path w))" "dk_fs disk (iw_tmp_path w) = FileMissing"
    "p \<noteq> iw_tmp_path w \<Longrightarrow> dk_fs disk' p = dk_fs disk p"
proof -
  have w: "s \<le> e" "w = \<lparr> iw_tmp_path = iw_tmp_path w, iw_final_path = iw_final_path w,
       iw_bytes_written = 0, iw_compressed_bytes_written = 0, iw_cache_key = key, iw_start = s,
       iw_end = e, iw_compression_enabled = c, iw_batch_buf = [], iw_batch_size = bs \<rparr>"
    "iw_tmp_path w = butlast (iw_final_path w) @ [uuid @ ''.tmp'']"
    "dk_fs disk (iw_tmp_path w) = FileMissing"
    "dk_fs disk' = (dk_fs disk)(iw_tmp_path w := FileBytes [])"
    using assms
    by (auto simp: begin_incremental_range_write_def Let_def not_less split: if_splits option.splits)
  have "iw_batch_buf w = []" "iw_bytes_written w = 0" "iw_compressed_bytes_written w = 0"
    by (subst w(2), simp)+
  then show "writer_inv dec w disk' []"
    unfolding writer_inv_def by (intro exI [of _ "[]"]) (simp add: w(5))
  show "iw_cache_key w = key" "iw_start w = s" "iw_end w = e" by (subst w(2), simp)+
  show "ends_with ''.tmp'' (last (iw_tmp_path w))"
    unfolding w(3) by (simp add: ends_with_def strip_suffix_Some)
  show "s \<le> e" "dk_fs disk (iw_tmp_path w) = FileMissing" using w by blast+
  show "p \<noteq> iw_tmp_path w \<Longrightarrow> dk_fs disk' p = dk_fs disk p" unfolding w(5) by simp
qed

lemma flush_residual:
  assumes "codec_ok xxh32 enc dec" "writer_inv dec w disk body"
    and "(if iw_batch_buf w \<noteq> [] then flush_batch xxh32 enc io w disk else (Inr (), w, disk)) =
      (Inr u, w', disk')"
  shows "writer_inv dec w' disk' body" "iw_batch_buf w' = []"
    "iw_tmp_path w' = iw_tmp_path w" "iw_cache_key w' = iw_cache_key w"
    "iw_start w' = iw_start w" "iw_end w' = iw_end w" "iw_bytes_written w' = iw_bytes_written w"
    "p \<noteq> iw_tmp_path w \<Longrightarrow> dk_fs disk' p = dk_fs disk p"
  using assms(2,3) flush_batch_inv [OF assms(1,2)] flush_batch_frame [of xxh32 enc io w disk "Inr u" w' disk']
  by (auto split: if_splits)

lemma finalize_ok:
  assumes "codec_ok xxh32 enc dec" "blake3_ok blake3" "pct_ok pct" "writer_inv dec w disk body"
    and "ends_with ''.tmp'' (last (iw_tmp_path w))" "length body < u64_mod"
    and "iw_start w \<le> iw_end w" "iw_end w < u64_max"
    and "finalize_incremental_range blake3 pct xxh32 enc io now w disk ratio etag =
      (Inr (spec, existed), disk')"
  shows "cr_start spec = iw_start w \<and> iw_start w + length body = cr_end spec + 1 \<and>
    cr_end spec \<le> iw_end w \<and> (ratio = None \<longrightarrow> cr_end spec = iw_end w) \<and>
    holds_body blake3 dec disk' spec (Some (iw_cache_key w, etag)) body \<and>
    (\<forall>p. p \<noteq> ''ranges'' # path_components (cr_file_path spec) \<longrightarrow> p \<noteq> iw_tmp_path w \<longrightarrow>
       dk_fs disk' p = dk_fs disk p) \<and> dk_fs disk' (iw_tmp_path w) = FileMissing"
proof -
  obtain u w1 d1 where flushed: "(if iw_batch_buf w \<noteq> [] then flush_batch xxh32 enc io w disk
      else (Inr (), w, disk)) = (Inr u, w1, d1)"
    using assms(9) unfolding finalize_incremental_range_def
    by (auto split: sum.splits prod.splits if_splits)
  note f = flush_residual [OF assms(1,4) flushed]
  let ?n = "length body"
  let ?exp = "iw_end w - iw_start w + 1"
  have exp: "u64_add (u64_sub (iw_end w1) (iw_start w1)) 1 = ?exp"
    using assms(7,8) f(5,6) by (simp add: u64_simps)
  have n: "iw_bytes_written w1 = ?n"
    using f(1) assms(6) unfolding writer_inv_def by auto
  show ?thesis
  proof (cases "?n = ?exp")
    case True
    then have "publish_range blake3 pct io now w1 d1 etag = (Inr (spec, existed), disk')"
      using assms(9) flushed exp n unfolding finalize_incremental_range_def by (simp add: Let_def)
    from publish_range_ok [OF assms(2,3) f(1,2) _ assms(6) _ _ _ this] show ?thesis
      using f assms(5,7,8) True by auto
  next
    case False
    let ?w = "w1 \<lparr> iw_end := u64_sub (u64_add (iw_start w1) ?n) 1 \<rparr>"
    have pub: "publish_range blake3 pct io now ?w d1 etag = (Inr (spec, existed), disk')"
      and sal: "salvage_prefix ratio ?n ?exp"
      using assms(9) flushed exp n False unfolding finalize_incremental_range_def
      by (auto simp: Let_def split: if_splits)
    have bound: "0 < ?n" "?n < ?exp" "ratio \<noteq> None"
      using sal by (auto simp: salvage_prefix_def split: option.splits)
    then have "iw_end ?w = iw_start w + ?n - 1"
      using f(5) assms(7,8) by (simp add: u64_simps)
    moreover have "writer_inv dec ?w d1 body" using f(1) by (simp add: writer_inv_def)
    ultimately show ?thesis
      using publish_range_ok [OF assms(2,3) _ _ _ assms(6) _ _ _ pub, of dec] f assms(5,7,8) bound
      by auto
  qed
qed

lemma incremental_write_holds:
  assumes "codec_ok xxh32 enc dec" "blake3_ok blake3" "pct_ok pct"
    and "begin_incremental_range_write blake3 pct dbg bs io disk uuid key s e c = (Inr w, disk1)"
    and "write_chunks xxh32 enc w disk1 cs = (Inr u, w', disk2)"
    and "finalize_incremental_range blake3 pct xxh32 enc io' now w' disk2 ratio etag =
      (Inr (spec, existed), disk3)"
    and "e < u64_max" "length (concat (map snd cs)) < u64_mod"
  shows "holds_body blake3 dec disk3 spec (Some (key, etag)) (concat (map snd cs)) \<and>
    cr_start spec = s \<and> s + length (concat (map snd cs)) = cr_end spec + 1 \<and>
    cr_end spec \<le> e \<and> (ratio = None \<longrightarrow> cr_end spec = e) \<and>
    (\<forall>p. p \<noteq> ''ranges'' # path_components (cr_file_path spec) \<longrightarrow> dk_fs disk3 p = dk_fs disk p)"
proof -
  note b = begin_inv [OF assms(4)]
  have frame: "iw_tmp_path w' = iw_tmp_path w" "iw_cache_key w' = key" "iw_start w' = s" "iw_end w' = e"
    "\<forall>p. p \<noteq> iw_tmp_path w \<longrightarrow> dk_fs disk2 p = dk_fs disk1 p"
    using write_chunks_frame [OF assms(5)] b(2-4) by auto
  have "writer_inv dec w' disk2 (concat (map snd cs))"
    using write_chunks_inv [OF assms(1) b(1) assms(5)] by simp
  from finalize_ok [OF assms(1-3) this _ assms(8) _ _ assms(6)] frame b(5-8) assms(7)
  show ?thesis by (metis)
qed


text \<open>
  C16: The streaming reader and the loading reader agree on every published file: the pieces
  the stream yields contain no error and concatenate to exactly the bytes that
  \<open>read_range_data\<close> returns, however the decoder hands them over.
\<close>

theorem stream_equals_load:
  assumes "codec_ok xxh32 enc dec" "blake3_ok blake3" "pct_ok pct" "\<And>x. concat (sr_reads sr x) = x"
    and "begin_incremental_range_write blake3 pct dbg bs io disk uuid key s e c = (Inr w, disk1)"
    and "write_chunks xxh32 enc w disk1 cs = (Inr u, w', disk2)"
    and "finalize_incremental_range blake3 pct xxh32 enc io' now w' disk2 ratio etag =
      (Inr (spec, existed), disk3)"
    and "e < u64_max" "length (concat (map snd cs)) < u64_mod"
  shows "\<exists>pieces.
    read_range_stream blake3 dec sr disk3 spec (Some (key, etag)) = Inr (Some (map Inr pieces)) \<and>
    read_range_data blake3 dec disk3 spec (Some (key, etag)) = (Inr (concat pieces), disk3)"
  using incremental_write_holds [OF assms(1-3,5-9)] holds_body_stream [OF _ assms(4,9)]
    holds_body_load by metis

text \<open>
  C17: A write that fails leaves the cache as it was. Whatever fails, a system call, the
  compressor or the length check, once the caller has aborted a failed chunk or finalization
  has returned an error, every file is in the state it had before the write began, provided
  the temporary file could be removed.
\<close>

theorem failed_write_leaves_no_trace:
  assumes "blake3_ok blake3" "pct_ok pct" "io_remove io' = None"
    and "begin_incremental_range_write blake3 pct dbg bs io disk uuid key s e c = (Inr w, disk1)"
    and "write_chunks xxh32 enc w disk1 cs = (r, w', disk2)"
  shows "(r = Inl err \<longrightarrow> dk_fs (abort_incremental_range io' w' disk2) = dk_fs disk) \<and>
    (finalize_incremental_range blake3 pct xxh32 enc io' now w' disk2 ratio etag = (Inl err', disk3) \<longrightarrow>
       dk_fs disk3 = dk_fs disk)"
proof -
  note b = begin_inv [OF assms(4)]
  have frame: "iw_tmp_path w' = iw_tmp_path w"
    "\<forall>p. p \<noteq> iw_tmp_path w \<longrightarrow> dk_fs disk2 p = dk_fs disk p"
    using write_chunks_frame [OF assms(5)] b(8) by auto
  have abort: "dk_fs (abort_incremental_range io' w2 d2) = dk_fs disk"
    if "iw_tmp_path w2 = iw_tmp_path w" "\<forall>p. p \<noteq> iw_tmp_path w \<longrightarrow> dk_fs d2 p = dk_fs disk p" for w2 d2
    using that b(7) assms(3) by (auto simp: abort_incremental_range_def remove_file_def fun_eq_iff)
  have pub: "dk_fs d3 = dk_fs disk"
    if "publish_range blake3 pct io' now w2 d2 etag = (Inl err', d3)"
      "iw_tmp_path w2 = iw_tmp_path w" "\<forall>p. p \<noteq> iw_tmp_path w \<longrightarrow> dk_fs d2 p = dk_fs disk p" for w2 d2 d3
    using that(1) abort [OF that(2)] that(3)
    by (auto simp: publish_range_def Let_def split: option.splits)
  have "dk_fs disk3 = dk_fs disk"
    if fin: "finalize_incremental_range blake3 pct xxh32 enc io' now w' disk2 ratio etag = (Inl err', disk3)"
  proof -
    obtain r1 w1 d1 where fl: "(if iw_batch_buf w' \<noteq> [] then flush_batch xxh32 enc io' w' disk2
        else (Inr (), w', disk2)) = (r1, w1, d1)" by (metis prod_cases3)
    then have w1: "iw_tmp_path w1 = iw_tmp_path w" "\<forall>p. p \<noteq> iw_tmp_path w \<longrightarrow> dk_fs d1 p = dk_fs disk p"
      using frame flush_batch_frame [of xxh32 enc io' w' disk2 r1 w1 d1] by (auto split: if_splits)
    show ?thesis
      using fin fl abort [OF w1] pub [of w1 d1 disk3] pub [of "w1 \<lparr> iw_end := n \<rparr>" d1 disk3 for n] w1
      unfolding finalize_incremental_range_def
      by (auto simp: Let_def split: sum.splits if_splits)
  qed
  then show ?thesis using abort frame by blast
qed

definition empty_disk :: Disk where
  "empty_disk = \<lparr> dk_fs = (\<lambda>_. FileMissing), dk_stats = stats_default \<rparr>"

lemma sample_write:
  "\<exists>w disk1 w' disk2 spec disk3.
     begin_incremental_range_write zero_digest percent_encode_bytes concat 100 io_ok empty_disk ''u''
       ''b/k'' 0 4 False = (Inr w, disk1) \<and>
     write_chunks (\<lambda>_. 0) (store_encoder (\<lambda>_. 0)) w disk1 [(io_ok, ''he''), (io_ok, ''llo'')] =
       (Inr (), w', disk2) \<and>
     finalize_incremental_range zero_digest percent_encode_bytes (\<lambda>_. 0) (store_encoder (\<lambda>_. 0)) io_ok
       0 w' disk2 None ''v'' = (Inr (spec, False), disk3)"
proof -
  have not_tmp: "''ranges'' # get_versioned_range_file_path zero_digest percent_encode_bytes k a b v \<noteq> t @ [''u.tmp'']"
    for k a b v t
    using bin_not_tmp [OF zero_digest_ok percent_encode_bytes_ok, of "t @ [''u.tmp'']" k a b v]
    by (simp add: ends_with_def strip_suffix_def)
  show ?thesis
    by (simp add: begin_incremental_range_write_def io_ok_def empty_disk_def write_range_chunk_def
        finalize_incremental_range_def flush_batch_def encode_batch_def encode_store_mode_frame_def
        publish_range_def u64_simps append_bytes_def Let_def not_tmp)
qed


theorem failed_write_leaves_no_trace_witness:
  "\<exists>w disk1 w' disk2 spec disk3.
     begin_incremental_range_write zero_digest percent_encode_bytes concat 100 io_ok empty_disk ''u''
       ''b/k'' 0 4 False = (Inr w, disk1) \<and>
     write_chunks (\<lambda>_. 0) (store_encoder (\<lambda>_. 0)) w disk1 [(io_ok, ''he'')] = (Inr (), w', disk2) \<and>
     dk_fs (snd (finalize_incremental_range zero_digest percent_encode_bytes (\<lambda>_. 0)
       (store_encoder (\<lambda>_. 0)) io_ok 0 w' disk2 None ''v'')) = dk_fs empty_disk"
proof -
  obtain w disk1 where b: "begin_incremental_range_write zero_digest percent_encode_bytes concat 100 io_ok
      empty_disk ''u'' ''b/k'' 0 4 False = (Inr w, disk1)"
    using sample_write by blast
  have buf: "iw_batch_buf w = []" "iw_batch_size w = 100" "iw_bytes_written w = 0" "iw_start w = 0" "iw_end w = 4"
    using b by (auto simp: begin_incremental_range_write_def io_ok_def empty_disk_def Let_def)
  obtain w' where w': "write_chunks (\<lambda>_. 0) (store_encoder (\<lambda>_. 0)) w disk1 [(io_ok, ''he'')] = (Inr (), w', disk1)"
      "iw_bytes_written w' = 2" "iw_start w' = 0" "iw_end w' = 4" "iw_batch_buf w' = ''he''"
      "iw_compression_enabled w' = iw_compression_enabled w" "iw_tmp_path w' = iw_tmp_path w"
    using buf by (simp add: write_range_chunk_def Let_def u64_simps)
  obtain err disk3 where "finalize_incremental_range zero_digest percent_encode_bytes (\<lambda>_. 0)
       (store_encoder (\<lambda>_. 0)) io_ok 0 w' disk1 None ''v'' = (Inl err, disk3)"
    using w' by (auto simp: finalize_incremental_range_def flush_batch_def encode_batch_def io_ok_def
        encode_store_mode_frame_def store_encoder_def salvage_prefix_def Let_def u64_simps)
  moreover have "io_remove io_ok = None" by (simp add: io_ok_def)
  ultimately have "dk_fs disk3 = dk_fs empty_disk"
    using failed_write_leaves_no_trace [OF zero_digest_ok percent_encode_bytes_ok _ b w'(1), of io_ok] by blast
  then show ?thesis using b w'(1) \<open>finalize_incremental_range _ _ _ _ _ _ _ _ _ _ = _\<close> by auto
qed

theorem stream_equals_load_witness:
  "\<exists>spec disk3 pieces.
     read_range_stream zero_digest (read_stored_frame (\<lambda>_. 0))
       \<lparr> sr_reads = map (\<lambda>c. [c]), sr_sent = (\<lambda>_. []) \<rparr> disk3 spec (Some (''b/k'', ''v'')) =
       Inr (Some (map Inr pieces)) \<and>
     read_range_data zero_digest (read_stored_frame (\<lambda>_. 0)) disk3 spec (Some (''b/k'', ''v'')) =
       (Inr (concat pieces), disk3)"
proof -
  obtain w disk1 w' disk2 spec disk3 where run:
    "begin_incremental_range_write zero_digest percent_encode_bytes concat 100 io_ok empty_disk ''u''
       ''b/k'' 0 4 False = (Inr w, disk1)"
    "write_chunks (\<lambda>_. 0) (store_encoder (\<lambda>_. 0)) w disk1 [(io_ok, ''he''), (io_ok, ''llo'')] =
       (Inr (), w', disk2)"
    "finalize_incremental_range zero_digest percent_encode_bytes (\<lambda>_. 0) (store_encoder (\<lambda>_. 0)) io_ok
       0 w' disk2 None ''v'' = (Inr (spec, False), disk3)"
    using sample_write by blast
  have "concat (sr_reads \<lparr> sr_reads = map (\<lambda>c. [c]), sr_sent = (\<lambda>_. []) \<rparr> x) = x" for x :: string
    by (induction x) auto
  from stream_equals_load [OF store_codec_ok zero_digest_ok percent_encode_bytes_ok this run]
  show ?thesis by fastforce
qed

end
