(* ===== verification/Size_Accumulator.thy ===== *)
theory Size_Accumulator
  imports Path_Safety "HOL-Library.Word"
begin

text \<open>
  \<open>SizeAccumulator\<close> of \<open>src/src/journal_consolidator.rs\<close>: the two counters of size changes since
  the last flush, the set that keeps a range file from being credited twice, and the flush
  that moves the counters into a delta file.

  The counters are \<open>i64\<close> with wrap-around (\<open>64 word\<close>). A flush is two steps, the swap to zero
  and, later, either the file that now holds the values or their restoration; other
  operations may run in between.
\<close>

section \<open>State and operations\<close>

type_synonym i64 = "64 word"
type_synonym range_id = "u64 \<times> u64 \<times> u64"

record SizeAccumulator =
  sa_delta :: i64
  sa_write_cache_delta :: i64
  sa_recent_ranges :: "range_id list"
  sa_flush_sequence :: "64 word"

definition sa_new :: SizeAccumulator where
  "sa_new = \<lparr> sa_delta = 0, sa_write_cache_delta = 0, sa_recent_ranges = [], sa_flush_sequence = 0 \<rparr>"

definition sa_add :: "u64 \<Rightarrow> SizeAccumulator \<Rightarrow> SizeAccumulator" where
  "sa_add compressed_size a = a \<lparr> sa_delta := sa_delta a + of_nat compressed_size \<rparr>"

definition sa_subtract :: "u64 \<Rightarrow> SizeAccumulator \<Rightarrow> SizeAccumulator" where
  "sa_subtract compressed_size a = a \<lparr> sa_delta := sa_delta a - of_nat compressed_size \<rparr>"

definition add_write_cache :: "u64 \<Rightarrow> SizeAccumulator \<Rightarrow> SizeAccumulator" where
  "add_write_cache compressed_size a =
     a \<lparr> sa_write_cache_delta := sa_write_cache_delta a + of_nat compressed_size \<rparr>"

definition subtract_write_cache :: "u64 \<Rightarrow> SizeAccumulator \<Rightarrow> SizeAccumulator" where
  "subtract_write_cache compressed_size a =
     a \<lparr> sa_write_cache_delta := sa_write_cache_delta a - of_nat compressed_size \<rparr>"

text \<open>The set of tracked ranges is a list without repetitions.\<close>

definition add_range_id :: "range_id \<Rightarrow> u64 \<Rightarrow> SizeAccumulator \<Rightarrow> bool \<times> SizeAccumulator" where
  "add_range_id range_id compressed_size a =
     (if range_id \<in> set (sa_recent_ranges a) then (False, a)
      else (True, sa_add compressed_size
                    (a \<lparr> sa_recent_ranges := range_id # sa_recent_ranges a \<rparr>)))"

definition subtract_range_id :: "range_id \<Rightarrow> u64 \<Rightarrow> SizeAccumulator \<Rightarrow> bool \<times> SizeAccumulator" where
  "subtract_range_id range_id compressed_size a =
     (range_id \<in> set (sa_recent_ranges a),
      sa_subtract compressed_size
        (a \<lparr> sa_recent_ranges := filter (\<lambda>r. r \<noteq> range_id) (sa_recent_ranges a) \<rparr>))"

text \<open>The first eight bytes of a digest, read as a little-endian \<open>u64\<close>.\<close>

fun hex_bytes :: "string \<Rightarrow> nat list" where
  "hex_bytes (a # b # rest) =
     (case (to_digit 16 a, to_digit 16 b) of
        (Some x, Some y) \<Rightarrow> (16 * x + y) # hex_bytes rest
      | _ \<Rightarrow> [])"
| "hex_bytes _ = []"

definition digest_u64 :: "string \<Rightarrow> u64" where
  "digest_u64 digest = foldr (\<lambda>b n. b + 256 * n) (take 8 (hex_bytes digest)) 0"

definition key_range_id :: "(string \<Rightarrow> string) \<Rightarrow> string \<Rightarrow> u64 \<Rightarrow> u64 \<Rightarrow> range_id" where
  "key_range_id blake3 cache_key s e = (digest_u64 (blake3 cache_key), s, e)"

definition range_file_id :: "(string \<Rightarrow> string) \<Rightarrow> string \<Rightarrow> CacheRangeSpec \<Rightarrow> range_id" where
  "range_file_id blake3 cache_key r =
     (let hashed = (case range_file_version (cr_file_path r) of
                      Some version \<Rightarrow> cache_key @ [CHR 0x00] @ version
                    | None \<Rightarrow> cache_key)
      in (digest_u64 (blake3 hashed), cr_start r, cr_end r))"

definition add_range :: "(string \<Rightarrow> string) \<Rightarrow> string \<Rightarrow> u64 \<Rightarrow> u64 \<Rightarrow> u64 \<Rightarrow> SizeAccumulator \<Rightarrow>
    bool \<times> SizeAccumulator" where
  "add_range blake3 cache_key s e compressed_size a =
     add_range_id (key_range_id blake3 cache_key s e) compressed_size a"

definition subtract_range :: "(string \<Rightarrow> string) \<Rightarrow> string \<Rightarrow> u64 \<Rightarrow> u64 \<Rightarrow> u64 \<Rightarrow> SizeAccumulator \<Rightarrow>
    bool \<times> SizeAccumulator" where
  "subtract_range blake3 cache_key s e compressed_size a =
     subtract_range_id (key_range_id blake3 cache_key s e) compressed_size a"

definition add_range_file ::
    "(string \<Rightarrow> string) \<Rightarrow> string \<Rightarrow> CacheRangeSpec \<Rightarrow> SizeAccumulator \<Rightarrow> bool \<times> SizeAccumulator" where
  "add_range_file blake3 cache_key r a =
     add_range_id (range_file_id blake3 cache_key r) (cr_compressed_size r) a"

definition subtract_range_file ::
    "(string \<Rightarrow> string) \<Rightarrow> string \<Rightarrow> CacheRangeSpec \<Rightarrow> SizeAccumulator \<Rightarrow> bool \<times> SizeAccumulator" where
  "subtract_range_file blake3 cache_key r a =
     subtract_range_id (range_file_id blake3 cache_key r) (cr_compressed_size r) a"

definition has_pending_delta :: "SizeAccumulator \<Rightarrow> bool" where
  "has_pending_delta a = (sa_delta a \<noteq> 0 \<or> sa_write_cache_delta a \<noteq> 0)"

definition sa_reset :: "SizeAccumulator \<Rightarrow> SizeAccumulator" where
  "sa_reset a = a \<lparr> sa_delta := 0, sa_write_cache_delta := 0, sa_recent_ranges := [] \<rparr>"

text \<open>
  \<open>flush\<close>: the swap, and what follows it. The file name needs the directory, so the sequence
  number is taken only when the directory could be created.
\<close>

definition flush_swap :: "SizeAccumulator \<Rightarrow> (i64 \<times> i64) \<times> SizeAccumulator" where
  "flush_swap a =
     ((sa_delta a, sa_write_cache_delta a), a \<lparr> sa_delta := 0, sa_write_cache_delta := 0 \<rparr>)"

definition flush_restore :: "i64 \<times> i64 \<Rightarrow> SizeAccumulator \<Rightarrow> SizeAccumulator" where
  "flush_restore v a =
     a \<lparr> sa_delta := sa_delta a + fst v, sa_write_cache_delta := sa_write_cache_delta a + snd v \<rparr>"

definition flush_sequence_next :: "SizeAccumulator \<Rightarrow> SizeAccumulator" where
  "flush_sequence_next a = a \<lparr> sa_flush_sequence := sa_flush_sequence a + 1 \<rparr>"

section \<open>Concurrent use\<close>

text \<open>
  An instance's accumulator with the flushes that are under way, the delta files written so
  far, and the size each tracked range was credited with.
\<close>

record AccSystem =
  sy_acc :: SizeAccumulator
  sy_inflight :: "(i64 \<times> i64) list"
  sy_files :: "(i64 \<times> i64) list"
  sy_sizes :: "range_id \<Rightarrow> u64"

definition acc_init :: "AccSystem \<Rightarrow> bool" where
  "acc_init s \<longleftrightarrow> sy_acc s = sa_new \<and> sy_inflight s = [] \<and> sy_files s = []"

text \<open>
  Range files are credited when they are published and debited, at the size they were
  credited with, when they are removed.
\<close>

inductive acc_step :: "(string \<Rightarrow> string) \<Rightarrow> AccSystem \<Rightarrow> AccSystem \<Rightarrow> bool" for blake3 where
  acc_credit: "add_range_file blake3 key r (sy_acc s) = (new, acc') \<Longrightarrow>
     acc_step blake3 s (s \<lparr> sy_acc := acc',
       sy_sizes := (if new then (sy_sizes s)(range_file_id blake3 key r := cr_compressed_size r)
                    else sy_sizes s) \<rparr>)"
| acc_debit: "range_file_id blake3 key r \<in> set (sa_recent_ranges (sy_acc s)) \<Longrightarrow>
     cr_compressed_size r = sy_sizes s (range_file_id blake3 key r) \<Longrightarrow>
     subtract_range_file blake3 key r (sy_acc s) = (tracked, acc') \<Longrightarrow>
     acc_step blake3 s (s \<lparr> sy_acc := acc' \<rparr>)"
| acc_add_write_cache: "acc_step blake3 s (s \<lparr> sy_acc := add_write_cache n (sy_acc s) \<rparr>)"
| acc_subtract_write_cache: "acc_step blake3 s (s \<lparr> sy_acc := subtract_write_cache n (sy_acc s) \<rparr>)"
| acc_swap: "flush_swap (sy_acc s) = (v, acc') \<Longrightarrow>
     acc_step blake3 s (s \<lparr> sy_acc := acc', sy_inflight := v # sy_inflight s \<rparr>)"
| acc_written: "v \<in> set (sy_inflight s) \<Longrightarrow>
     acc_step blake3 s (s \<lparr> sy_acc := flush_sequence_next (sy_acc s),
       sy_inflight := remove1 v (sy_inflight s), sy_files := v # sy_files s \<rparr>)"
| acc_failed: "v \<in> set (sy_inflight s) \<Longrightarrow>
     acc_step blake3 s (s \<lparr> sy_acc := flush_restore v (sy_acc s),
       sy_inflight := remove1 v (sy_inflight s) \<rparr>)"

definition recorded :: "AccSystem \<Rightarrow> i64" where
  "recorded s = sum_list (map fst (sy_files s)) + sum_list (map fst (sy_inflight s)) + sa_delta (sy_acc s)"

definition tracked_size :: "AccSystem \<Rightarrow> i64" where
  "tracked_size s = sum_list (map (\<lambda>r. of_nat (sy_sizes s r)) (sa_recent_ranges (sy_acc s)))"

definition acc_inv :: "AccSystem \<Rightarrow> bool" where
  "acc_inv s \<longleftrightarrow> distinct (sa_recent_ranges (sy_acc s)) \<and> recorded s = tracked_size s"

lemmas acc_op_defs = add_range_file_def add_range_id_def subtract_range_file_def
  subtract_range_id_def sa_add_def sa_subtract_def add_write_cache_def subtract_write_cache_def
  flush_swap_def flush_restore_def flush_sequence_next_def

lemma sum_list_remove1:
  "v \<in> set xs \<Longrightarrow> sum_list (map f xs) = f v + sum_list (map f (remove1 v xs))"
  for f :: "'a \<Rightarrow> 'b::ab_group_add"
  by (induction xs) auto

lemma sum_list_filter_out:
  "distinct xs \<Longrightarrow> v \<in> set xs \<Longrightarrow>
   sum_list (map f xs) = f v + sum_list (map f (filter (\<lambda>x. x \<noteq> v) xs))"
  for f :: "'a \<Rightarrow> 'b::ab_group_add"
proof (induction xs)
  case (Cons x xs)
  moreover have "filter (\<lambda>y. y \<noteq> v) xs = xs" if "v \<notin> set xs" using that by (induction xs) auto
  ultimately show ?case by (cases "x = v") (auto simp: algebra_simps)
qed simp

lemma sum_list_update_fresh:
  "v \<notin> set xs \<Longrightarrow> sum_list (map (\<lambda>r. of_nat ((f(v := n)) r)) xs) =
     (sum_list (map (\<lambda>r. of_nat (f r)) xs) :: i64)"
  by (induction xs) auto

interpretation acc: transition_invariant acc_init "acc_step blake3" acc_inv
proof
  fix s assume "acc_init s"
  then show "acc_inv s" by (simp add: acc_init_def acc_inv_def recorded_def tracked_size_def sa_new_def)
next
  fix s t assume inv: "acc_inv s" and step: "acc_step blake3 s t"
  have d: "distinct (sa_recent_ranges (sy_acc s))" and r: "recorded s = tracked_size s"
    using inv by (auto simp: acc_inv_def)
  from step show "acc_inv t"
  proof cases
    case (acc_credit key r new acc')
    let ?id = "range_file_id blake3 key r"
    show ?thesis
    proof (cases "?id \<in> set (sa_recent_ranges (sy_acc s))")
      case True
      then show ?thesis using acc_credit inv by (simp add: acc_op_defs acc_inv_def recorded_def tracked_size_def)
    next
      case False
      then have "?id \<notin> set (sa_recent_ranges (sy_acc s))" by simp
      then show ?thesis
        using acc_credit d r sum_list_update_fresh [of ?id "sa_recent_ranges (sy_acc s)" "sy_sizes s" "cr_compressed_size r"] False
        by (auto simp: acc_op_defs acc_inv_def recorded_def tracked_size_def algebra_simps)
    qed
  next
    case (acc_debit key r tracked acc')
    let ?id = "range_file_id blake3 key r"
    have "?id \<in> set (sa_recent_ranges (sy_acc s))" using acc_debit(2) by simp
    from sum_list_filter_out [OF d this, of "\<lambda>r. of_nat (sy_sizes s r)"] show ?thesis
      using acc_debit d r
      by (auto simp: acc_op_defs acc_inv_def recorded_def tracked_size_def algebra_simps)
  qed (use d r sum_list_remove1 [of _ "sy_inflight s" fst] in
      \<open>auto simp: acc_op_defs acc_inv_def recorded_def tracked_size_def algebra_simps\<close>)
qed



end
