(* ===== verification/Journal.thy ===== *)
theory Journal
  imports Range_Files Size_Accumulator "HOL-Library.AList"
begin

text \<open>
  The journal of \<open>src/src/journal_manager.rs\<close> and its consolidation in
  \<open>src/src/journal_consolidator.rs\<close>: which entries may touch an object version, the newest
  entry per byte range, the application of entries to the metadata, and the worker that does
  this for one cache key, removing the files of other versions on the way.

  Serialization (\<open>serde_json\<close>) and locks are outside: the entries that were read, whether the
  lock was free and whether the metadata file could be written are arguments.
\<close>

section \<open>Entries\<close>

datatype JournalOperation = Add | Update | Remove | TtlRefresh | AccessUpdate | Graduation

record JournalEntry =
  je_timestamp :: SystemTime
  je_instance_id :: string
  je_cache_key :: string
  je_range_spec :: CacheRangeSpec
  je_operation :: JournalOperation
  je_range_file_path :: string
  je_metadata_version :: u64
  je_new_ttl_secs :: "u64 option"
  je_object_ttl_secs :: "u64 option"
  je_access_increment :: "u64 option"
  je_object_metadata :: "ObjectMetadata option"

definition carries_bytes :: "JournalOperation \<Rightarrow> bool" where
  "carries_bytes op = (op = Add \<or> op = Update)"

definition entry_matches_object_version ::
    "(string \<Rightarrow> string) \<Rightarrow> JournalOperation \<Rightarrow> CacheRangeSpec \<Rightarrow> string option \<Rightarrow> string \<Rightarrow> bool" where
  "entry_matches_object_version blake3 operation range_spec entry_etag etag =
     (let version_id = object_version_id blake3 etag
      in case operation of
           Remove \<Rightarrow>
             (case range_file_version (cr_file_path range_spec) of
                None \<Rightarrow> True
              | Some version \<Rightarrow> version = version_id)
         | Add \<Rightarrow>
             range_file_belongs_to range_spec version_id \<and>
             (case entry_etag of None \<Rightarrow> True | Some entry_etag \<Rightarrow> entry_etag = etag)
         | Update \<Rightarrow>
             range_file_belongs_to range_spec version_id \<and>
             (case entry_etag of None \<Rightarrow> True | Some entry_etag \<Rightarrow> entry_etag = etag)
         | _ \<Rightarrow> True)"

definition matches_object_version :: "(string \<Rightarrow> string) \<Rightarrow> JournalEntry \<Rightarrow> string \<Rightarrow> bool" where
  "matches_object_version blake3 entry etag =
     entry_matches_object_version blake3 (je_operation entry) (je_range_spec entry)
       (map_option om_etag (je_object_metadata entry)) etag"

section \<open>Newest entry per range\<close>

definition range_key :: "CacheRangeSpec \<Rightarrow> u64 \<times> u64" where
  "range_key r = (cr_start r, cr_end r)"

text \<open>
  The hash map of the source is an association list. The loop over it visits distinct keys and
  each visit looks only at ranges with that key, so its order does not matter.
\<close>

definition collect_entry ::
    "JournalEntry \<Rightarrow> ((u64 \<times> u64) \<times> JournalEntry) list \<times> nat \<Rightarrow>
     ((u64 \<times> u64) \<times> JournalEntry) list \<times> nat" where
  "collect_entry entry acc =
     (let (journal_ranges, conflicts_resolved) = acc;
          key = range_key (je_range_spec entry)
      in if \<not> carries_bytes (je_operation entry) then acc
         else (case map_of journal_ranges key of
                 Some existing \<Rightarrow>
                   if je_timestamp entry > je_timestamp existing
                   then (AList.update key entry journal_ranges, conflicts_resolved + 1)
                   else acc
               | None \<Rightarrow> (AList.update key entry journal_ranges, conflicts_resolved)))"

text \<open>\<open>iter_mut().find(p)\<close> followed by an assignment.\<close>

fun update_first :: "('a \<Rightarrow> bool) \<Rightarrow> ('a \<Rightarrow> 'a) \<Rightarrow> 'a list \<Rightarrow> 'a list" where
  "update_first p f [] = []"
| "update_first p f (x # xs) = (if p x then f x # xs else x # update_first p f xs)"

definition resolve_range ::
    "(u64 \<times> u64) \<times> JournalEntry \<Rightarrow> CacheRangeSpec list \<times> nat \<Rightarrow> CacheRangeSpec list \<times> nat" where
  "resolve_range ke acc =
     (let (key, entry) = ke; (ranges, n) = acc
      in case find (\<lambda>r. range_key r = key) ranges of
           Some existing_range \<Rightarrow>
             if je_timestamp entry > cr_created_at existing_range
             then (update_first (\<lambda>r. range_key r = key) (\<lambda>_. je_range_spec entry) ranges, n + 1)
             else acc
         | None \<Rightarrow> acc)"

definition resolve_conflicts ::
    "NewCacheMetadata \<Rightarrow> JournalEntry list \<Rightarrow> usize \<times> NewCacheMetadata" where
  "resolve_conflicts metadata journal_entries =
     (let (journal_ranges, n) = fold collect_entry journal_entries ([], 0);
          (ranges, n') = fold resolve_range journal_ranges (nm_ranges metadata, n)
      in (n', metadata \<lparr> nm_ranges := ranges \<rparr>))"

section \<open>Applying entries\<close>

record ApplyAcc =
  aa_metadata :: NewCacheMetadata
  aa_entries_applied :: usize
  aa_size_affecting :: "JournalEntry list"
  aa_graduated_bytes :: u64

definition same_extent :: "JournalEntry \<Rightarrow> CacheRangeSpec \<Rightarrow> bool" where
  "same_extent entry r = (range_key r = range_key (je_range_spec entry))"

definition removes_range :: "JournalEntry \<Rightarrow> CacheRangeSpec \<Rightarrow> bool" where
  "removes_range entry r =
     (same_extent entry r \<and>
      path_file_name (cr_file_path r) = path_file_name (cr_file_path (je_range_spec entry)) \<and>
      \<not> cr_created_at r > je_timestamp entry)"

definition apply_entry ::
    "(string \<Rightarrow> string) \<Rightarrow> SystemTime \<Rightarrow> JournalEntry \<Rightarrow> ApplyAcc \<Rightarrow> ApplyAcc" where
  "apply_entry blake3 now entry acc =
     (let m = aa_metadata acc;
          ranges = nm_ranges m;
          applied = acc \<lparr> aa_entries_applied := aa_entries_applied acc + 1 \<rparr>
      in case je_operation entry of
           Add \<Rightarrow>
             if \<not> list_ex (same_extent entry) ranges then
               applied \<lparr> aa_metadata := m \<lparr> nm_ranges := ranges @ [je_range_spec entry] \<rparr>,
                         aa_size_affecting := aa_size_affecting acc @ [entry] \<rparr>
             else acc
         | Update \<Rightarrow>
             if list_ex (same_extent entry) ranges then
               applied \<lparr> aa_metadata := m \<lparr> nm_ranges :=
                 update_first (same_extent entry) (\<lambda>_. je_range_spec entry) ranges \<rparr> \<rparr>
             else acc
         | Remove \<Rightarrow>
             if \<not> matches_object_version blake3 entry (om_etag (nm_object_metadata m)) then acc
             else applied \<lparr> aa_metadata := m \<lparr> nm_ranges := filter (\<lambda>r. \<not> removes_range entry r) ranges \<rparr>,
                            aa_size_affecting := aa_size_affecting acc @ [entry] \<rparr>
         | TtlRefresh \<Rightarrow>
             (case je_new_ttl_secs entry of
                None \<Rightarrow> acc
              | Some new_ttl_secs \<Rightarrow>
                  let m' = refresh_object_ttl now (new_ttl_secs * nanos_per_sec) m
                  in applied \<lparr> aa_metadata := m' \<lparr> nm_ranges :=
                       update_first (same_extent entry)
                         (\<lambda>r. r \<lparr> cr_last_accessed := je_timestamp entry \<rparr>) ranges \<rparr> \<rparr>)
         | Graduation \<Rightarrow>
             if om_graduation_accounted (nm_object_metadata m) then acc
             else applied \<lparr>
               aa_metadata := m \<lparr> nm_object_metadata :=
                 (nm_object_metadata m) \<lparr> om_graduation_accounted := True \<rparr> \<rparr>,
               aa_graduated_bytes := saturating_add (aa_graduated_bytes acc)
                 (cr_compressed_size (je_range_spec entry)) \<rparr>
         | AccessUpdate \<Rightarrow>
             (case je_access_increment entry of
                None \<Rightarrow> acc
              | Some access_increment \<Rightarrow>
                  if list_ex (same_extent entry) ranges then
                    applied \<lparr> aa_metadata := m \<lparr> nm_ranges :=
                      update_first (same_extent entry)
                        (\<lambda>r. r \<lparr> cr_access_count := u64_add (cr_access_count r) access_increment,
                                 cr_last_accessed := je_timestamp entry \<rparr>) ranges \<rparr> \<rparr>
                  else acc))"

definition fill_content_length :: "NewCacheMetadata \<Rightarrow> NewCacheMetadata" where
  "fill_content_length m =
     (case nm_ranges m of
        [r] \<Rightarrow>
          if cr_start r = 0 \<and> om_content_length (nm_object_metadata m) = 0
          then m \<lparr> nm_object_metadata := (nm_object_metadata m)
                    \<lparr> om_content_length := u64_add (cr_end r) 1 \<rparr> \<rparr>
          else m
      | _ \<Rightarrow> m)"

definition apply_journal_entries ::
    "(string \<Rightarrow> string) \<Rightarrow> SystemTime \<Rightarrow> NewCacheMetadata \<Rightarrow> JournalEntry list \<Rightarrow> ApplyAcc" where
  "apply_journal_entries blake3 now metadata entries =
     (let acc = fold (apply_entry blake3 now) entries
            \<lparr> aa_metadata = metadata, aa_entries_applied = 0, aa_size_affecting = [],
              aa_graduated_bytes = 0 \<rparr>
      in acc \<lparr> aa_metadata := fill_content_length (aa_metadata acc) \<rparr>)"

section \<open>Loading the metadata\<close>

text \<open>\<open>Iterator::max_by_key\<close>: the last of several maxima.\<close>

fun max_by_timestamp :: "JournalEntry list \<Rightarrow> JournalEntry option" where
  "max_by_timestamp [] = None"
| "max_by_timestamp (e # es) =
     (case max_by_timestamp es of
        None \<Rightarrow> Some e
      | Some best \<Rightarrow> if je_timestamp e > je_timestamp best then Some e else Some best)"

definition object_entry :: "JournalEntry list \<Rightarrow> JournalEntry option" where
  "object_entry journal_entries =
     (case max_by_timestamp
             (filter (\<lambda>entry. case je_object_metadata entry of
                                Some object \<Rightarrow> om_etag object \<noteq> []
                              | None \<Rightarrow> False)
               (filter (\<lambda>entry. carries_bytes (je_operation entry)) journal_entries)) of
        Some entry \<Rightarrow> Some entry
      | None \<Rightarrow> find (\<lambda>entry. je_object_metadata entry \<noteq> None) journal_entries)"

text \<open>
  \<open>stored\<close> is the metadata file: absent, or what reading and parsing it gives. \<open>None\<close> is the
  panic of an addition past the end of time.
\<close>

definition load_or_create_metadata_with_journal_entries ::
    "SystemTime \<Rightarrow> (string + NewCacheMetadata) option \<Rightarrow> string \<Rightarrow> JournalEntry list \<Rightarrow>
     (ProxyError + NewCacheMetadata) option" where
  "load_or_create_metadata_with_journal_entries now stored cache_key journal_entries =
     (case stored of
        Some (Inl err) \<Rightarrow> Some (Inl (CacheError err))
      | Some (Inr metadata) \<Rightarrow> Some (Inr metadata)
      | None \<Rightarrow>
          let entry = object_entry journal_entries;
              object_metadata = (case Option.bind entry je_object_metadata of
                                   Some object \<Rightarrow> object | None \<Rightarrow> ObjectMetadata_default);
              object_ttl = (case Option.bind entry je_object_ttl_secs of
                              Some secs \<Rightarrow> secs * nanos_per_sec | None \<Rightarrow> 0)
          in map_option
               (\<lambda>expires_at.
                  Inr ((NewCacheMetadata_default now)
                         \<lparr> nm_cache_key := cache_key, nm_object_metadata := object_metadata,
                           nm_ranges := [], nm_created_at := now, nm_expires_at := expires_at \<rparr>))
               (time_checked_add now object_ttl))"

section \<open>Validation\<close>

type_synonym evicted = "(string \<times> (u64 \<times> u64) list) list"

definition mark_ranges_evicted :: "(string \<times> u64 \<times> u64) list \<Rightarrow> evicted \<Rightarrow> evicted" where
  "mark_ranges_evicted ranges guard =
     fold (\<lambda>(key, s, e) g.
             AList.update key ((case map_of g key of Some rs \<Rightarrow> rs | None \<Rightarrow> []) @ [(s, e)]) g)
       ranges guard"

definition check_and_clear_evicted_range :: "string \<Rightarrow> u64 \<Rightarrow> u64 \<Rightarrow> evicted \<Rightarrow> bool \<times> evicted" where
  "check_and_clear_evicted_range cache_key s e guard =
     (case map_of guard cache_key of
        None \<Rightarrow> (False, guard)
      | Some ranges \<Rightarrow>
          if (s, e) \<in> set ranges then
            (let ranges' = remove1 (s, e) ranges
             in (True, if ranges' = [] then AList.delete cache_key guard
                       else AList.update cache_key ranges' guard))
          else (False, guard))"

definition consolidator_range_file_path :: "string \<Rightarrow> CacheRangeSpec \<Rightarrow> ProxyError + string list" where
  "consolidator_range_file_path cache_key range_spec =
     (case parse_cache_key cache_key of
        Inl e \<Rightarrow> Inl e
      | Inr _ \<Rightarrow>
          if \<not> is_safe_relative_file_path (cr_file_path range_spec)
          then Inl (CacheError (''Unsafe range file path: '' @ cr_file_path range_spec))
          else Inr (''ranges'' # path_components (cr_file_path range_spec)))"

record Validation =
  va_valid :: "JournalEntry list"
  va_stale :: "JournalEntry list"
  va_evicted :: evicted

definition is_stale :: "SystemTime \<Rightarrow> Duration \<Rightarrow> JournalEntry \<Rightarrow> bool" where
  "is_stale now stale_timeout entry =
     (duration_since_or_zero now (je_timestamp entry) > stale_timeout)"

text \<open>\<open>metadata_exists\<close> tells whether the sharded metadata path of a key exists.\<close>

definition validate_entry ::
    "SystemTime \<Rightarrow> Duration \<Rightarrow> (string \<Rightarrow> bool) \<Rightarrow> fs \<Rightarrow> JournalEntry \<Rightarrow> Validation \<Rightarrow> Validation" where
  "validate_entry now stale_timeout metadata_exists fs entry v =
     (let valid = v \<lparr> va_valid := va_valid v @ [entry] \<rparr>
      in if je_operation entry = Remove then valid
         else
           let (was_evicted, guard) =
                 check_and_clear_evicted_range (je_cache_key entry)
                   (cr_start (je_range_spec entry)) (cr_end (je_range_spec entry)) (va_evicted v);
               v = v \<lparr> va_evicted := guard \<rparr>;
               valid = v \<lparr> va_valid := va_valid v @ [entry] \<rparr>;
               stale = v \<lparr> va_stale := va_stale v @ [entry] \<rparr>
           in if was_evicted then stale
              else if \<not> carries_bytes (je_operation entry) then
                if metadata_exists (je_cache_key entry) then valid
                else if is_stale now stale_timeout entry then stale else v
              else
                (case consolidator_range_file_path (je_cache_key entry) (je_range_spec entry) of
                   Inl _ \<Rightarrow> v
                 | Inr path \<Rightarrow>
                     if fs path \<noteq> FileMissing then valid
                     else if is_stale now stale_timeout entry then stale else v))"

definition validate_journal_entries_with_staleness ::
    "SystemTime \<Rightarrow> Duration \<Rightarrow> (string \<Rightarrow> bool) \<Rightarrow> fs \<Rightarrow> evicted \<Rightarrow> JournalEntry list \<Rightarrow> Validation" where
  "validate_journal_entries_with_staleness now stale_timeout metadata_exists fs guard entries =
     fold (validate_entry now stale_timeout metadata_exists fs) entries
       \<lparr> va_valid = [], va_stale = [], va_evicted = guard \<rparr>"

section \<open>Consolidating one object\<close>

record ConsolidationResult =
  rs_cache_key :: string
  rs_entries_processed :: usize
  rs_entries_consolidated :: usize
  rs_entries_removed :: usize
  rs_conflicts_resolved :: usize
  rs_invalid_entries_removed :: usize
  rs_success :: bool
  rs_error :: "string option"
  rs_consolidated_entries :: "JournalEntry list"
  rs_size_delta :: i64
  rs_write_cache_delta :: i64
  rs_is_new_object :: bool

definition result_success :: "string \<Rightarrow> usize \<Rightarrow> usize \<Rightarrow> ConsolidationResult" where
  "result_success cache_key entries_processed entries_consolidated =
     \<lparr> rs_cache_key = cache_key, rs_entries_processed = entries_processed,
       rs_entries_consolidated = entries_consolidated, rs_entries_removed = 0,
       rs_conflicts_resolved = 0, rs_invalid_entries_removed = 0, rs_success = True,
       rs_error = None, rs_consolidated_entries = [], rs_size_delta = 0,
       rs_write_cache_delta = 0, rs_is_new_object = False \<rparr>"

definition result_failure :: "string \<Rightarrow> string \<Rightarrow> ConsolidationResult" where
  "result_failure cache_key err =
     (result_success cache_key 0 0) \<lparr> rs_success := False, rs_error := Some err \<rparr>"

text \<open>The files and the size accumulator, which the removal loops change together.\<close>

record FileStore =
  fst_fs :: fs
  fst_acc :: SizeAccumulator

text \<open>
  \<open>remove_file\<close> of the file system: \<open>rm path\<close> is the error of a failing call. The result says
  whether the file was removed, was not there, or could not be removed.
\<close>

datatype Removal = Removed | NotFound | RemoveFailed string

definition unlink :: "(string list \<Rightarrow> string option) \<Rightarrow> string list \<Rightarrow> fs \<Rightarrow> Removal \<times> fs" where
  "unlink rm path fs =
     (case fs path of
        FileMissing \<Rightarrow> (NotFound, fs)
      | _ \<Rightarrow> (case rm path of
               Some e \<Rightarrow> (RemoveFailed e, fs)
             | None \<Rightarrow> (Removed, fs(path := FileMissing))))"

definition debit_removed ::
    "(string \<Rightarrow> string) \<Rightarrow> string \<Rightarrow> CacheRangeSpec \<Rightarrow> bool \<Rightarrow> SizeAccumulator \<Rightarrow> SizeAccumulator" where
  "debit_removed blake3 cache_key r is_write_cached acc =
     (let acc = snd (subtract_range_file blake3 cache_key r acc)
      in if is_staged_range_spec r is_write_cached
         then subtract_write_cache (cr_compressed_size r) acc else acc)"

fun cleanup_rejected ::
    "(string \<Rightarrow> string) \<Rightarrow> (string list \<Rightarrow> string option) \<Rightarrow> string \<Rightarrow> string \<Rightarrow> string list \<Rightarrow>
     JournalEntry list \<Rightarrow> string list \<Rightarrow> string list \<Rightarrow> FileStore \<Rightarrow>
     (ProxyError + string list) \<times> FileStore" where
  "cleanup_rejected blake3 rm cache_key etag retained [] attempted failed st = (Inr failed, st)"
| "cleanup_rejected blake3 rm cache_key etag retained (entry # entries) attempted failed st =
     (let file_path = cr_file_path (je_range_spec entry)
      in if \<not> carries_bytes (je_operation entry) \<or> matches_object_version blake3 entry etag \<or>
            file_path \<in> set retained \<or> file_path \<in> set attempted
         then cleanup_rejected blake3 rm cache_key etag retained entries attempted failed st
         else
           (case consolidator_range_file_path cache_key (je_range_spec entry) of
              Inl e \<Rightarrow> (Inl e, st)
            | Inr path \<Rightarrow>
                (case unlink rm path (fst_fs st) of
                   (Removed, fs) \<Rightarrow>
                     cleanup_rejected blake3 rm cache_key etag retained entries
                       (file_path # attempted) failed
                       \<lparr> fst_fs = fs,
                         fst_acc = debit_removed blake3 cache_key (je_range_spec entry)
                           (case je_object_metadata entry of
                              Some object \<Rightarrow> om_is_write_cached object | None \<Rightarrow> False)
                           (fst_acc st) \<rparr>
                 | (NotFound, _) \<Rightarrow>
                     cleanup_rejected blake3 rm cache_key etag retained entries
                       (file_path # attempted) failed st
                 | (RemoveFailed _, _) \<Rightarrow>
                     cleanup_rejected blake3 rm cache_key etag retained entries
                       (file_path # attempted) (file_path # failed) st)))"

fun retire_foreign ::
    "(string \<Rightarrow> string) \<Rightarrow> (string list \<Rightarrow> string option) \<Rightarrow> string \<Rightarrow> string \<Rightarrow> bool \<Rightarrow>
     CacheRangeSpec list \<Rightarrow> string list \<Rightarrow> FileStore \<Rightarrow> string list \<times> FileStore" where
  "retire_foreign blake3 rm cache_key etag is_write_cached [] retired st = (retired, st)"
| "retire_foreign blake3 rm cache_key etag is_write_cached (r # rs) retired st =
     (if range_file_belongs_to r (object_version_id blake3 etag)
      then retire_foreign blake3 rm cache_key etag is_write_cached rs retired st
      else
        (case consolidator_range_file_path cache_key r of
           Inl _ \<Rightarrow>
             retire_foreign blake3 rm cache_key etag is_write_cached rs (cr_file_path r # retired) st
         | Inr path \<Rightarrow>
             (case unlink rm path (fst_fs st) of
                (Removed, fs) \<Rightarrow>
                  retire_foreign blake3 rm cache_key etag is_write_cached rs (cr_file_path r # retired)
                    \<lparr> fst_fs = fs,
                      fst_acc = debit_removed blake3 cache_key r is_write_cached (fst_acc st) \<rparr>
              | (NotFound, _) \<Rightarrow>
                  retire_foreign blake3 rm cache_key etag is_write_cached rs
                    (cr_file_path r # retired) st
              | (RemoveFailed _, _) \<Rightarrow>
                  retire_foreign blake3 rm cache_key etag is_write_cached rs retired st)))"

text \<open>The metadata that consolidation writes, from the metadata it loaded.\<close>

record Consolidated =
  co_metadata :: NewCacheMetadata
  co_applied :: usize
  co_graduated :: u64
  co_failed_cleanup :: "string list"

definition consolidate_metadata ::
    "(string \<Rightarrow> string) \<Rightarrow> (string list \<Rightarrow> string option) \<Rightarrow> SystemTime \<Rightarrow> string \<Rightarrow> JournalEntry list \<Rightarrow>
     NewCacheMetadata \<Rightarrow> FileStore \<Rightarrow> (ProxyError + Consolidated) \<times> FileStore" where
  "consolidate_metadata blake3 rm now cache_key valid_entries metadata st =
     (let etag = om_etag (nm_object_metadata metadata);
          matching_entries = filter (\<lambda>entry. matches_object_version blake3 entry etag) valid_entries;
          retained_files = map cr_file_path (nm_ranges metadata @ map je_range_spec matching_entries)
      in case cleanup_rejected blake3 rm cache_key etag retained_files valid_entries [] [] st of
           (Inl e, st) \<Rightarrow> (Inl e, st)
         | (Inr failed_cleanup, st) \<Rightarrow>
             let (retired_files, st) =
                   retire_foreign blake3 rm cache_key etag
                     (om_is_write_cached (nm_object_metadata metadata)) (nm_ranges metadata) [] st;
                 metadata = metadata \<lparr> nm_ranges :=
                   filter (\<lambda>r. cr_file_path r \<notin> set retired_files) (nm_ranges metadata) \<rparr>;
                 metadata = snd (resolve_conflicts metadata matching_entries);
                 acc = apply_journal_entries blake3 now metadata matching_entries
             in (Inr \<lparr> co_metadata = aa_metadata acc, co_applied = aa_entries_applied acc,
                       co_graduated = aa_graduated_bytes acc, co_failed_cleanup = failed_cleanup \<rparr>,
                 st))"

text \<open>
  One consolidation: \<open>lock_free\<close> and \<open>all_entries\<close> are what the lock manager and the journal
  manager answer, \<open>stored\<close> the metadata file and \<open>written\<close> the error of writing it back. The
  second component of the result is the metadata file afterwards.
\<close>

record ConsolidationInput =
  cn_now :: SystemTime
  cn_stale_timeout :: Duration
  cn_lock_free :: bool
  cn_all_entries :: "ProxyError + JournalEntry list"
  cn_metadata_exists :: "string \<Rightarrow> bool"
  cn_written :: "ProxyError option"

record ConsolidationState =
  ct_stored :: "(string + NewCacheMetadata) option"
  ct_store :: FileStore
  ct_evicted :: evicted

definition consolidate_valid ::
    "(string \<Rightarrow> string) \<Rightarrow> (string list \<Rightarrow> string option) \<Rightarrow> ConsolidationInput \<Rightarrow> string \<Rightarrow> nat \<Rightarrow>
     JournalEntry list \<Rightarrow> JournalEntry list \<Rightarrow> ConsolidationState \<Rightarrow>
     ((ProxyError + ConsolidationResult) \<times> ConsolidationState) option" where
  "consolidate_valid blake3 rm inp cache_key processed valid_entries stale_entries st =
     (case load_or_create_metadata_with_journal_entries (cn_now inp) (ct_stored st) cache_key valid_entries of
        None \<Rightarrow> None
      | Some (Inl e) \<Rightarrow>
          Some (Inr (result_failure cache_key (''Failed to load metadata: '' @ show_error e)), st)
      | Some (Inr metadata) \<Rightarrow>
          (case consolidate_metadata blake3 rm (cn_now inp) cache_key valid_entries metadata (ct_store st) of
             (Inl e, fst') \<Rightarrow> Some (Inl e, st \<lparr> ct_store := fst' \<rparr>)
           | (Inr co, fst') \<Rightarrow>
               let st = st \<lparr> ct_store := fst' \<rparr>
               in case cn_written inp of
                    Some e \<Rightarrow>
                      Some (Inr (result_failure cache_key (''Failed to write metadata: '' @ show_error e)), st)
                  | None \<Rightarrow>
                      let etag = om_etag (nm_object_metadata (co_metadata co));
                          entries_to_remove =
                            filter (\<lambda>entry. matches_object_version blake3 entry etag \<or>
                                cr_file_path (je_range_spec entry) \<notin> set (co_failed_cleanup co))
                              valid_entries @ stale_entries
                      in Some (Inr ((result_success cache_key processed (co_applied co))
                              \<lparr> rs_conflicts_resolved := u64_sub (length valid_entries) (co_applied co),
                                rs_invalid_entries_removed := length stale_entries,
                                rs_consolidated_entries := entries_to_remove,
                                rs_write_cache_delta := - of_nat (co_graduated co),
                                rs_is_new_object :=
                                  (nm_ranges metadata = [] \<and> co_applied co > 0) \<rparr>),
                            st \<lparr> ct_stored := Some (Inr (co_metadata co)) \<rparr>)))"

definition consolidate_object ::
    "(string \<Rightarrow> string) \<Rightarrow> (string list \<Rightarrow> string option) \<Rightarrow> ConsolidationInput \<Rightarrow> string \<Rightarrow>
     ConsolidationState \<Rightarrow> ((ProxyError + ConsolidationResult) \<times> ConsolidationState) option" where
  "consolidate_object blake3 rm inp cache_key st =
     (if \<not> cn_lock_free inp then Some (Inr (result_success cache_key 0 0), st)
      else
        (case cn_all_entries inp of
           Inl e \<Rightarrow>
             Some (Inr (result_failure cache_key (''Failed to get journal entries: '' @ show_error e)), st)
         | Inr all_entries \<Rightarrow>
             if all_entries = [] then Some (Inr (result_success cache_key 0 0), st)
             else
               let v = validate_journal_entries_with_staleness (cn_now inp) (cn_stale_timeout inp)
                         (cn_metadata_exists inp) (fst_fs (ct_store st)) (ct_evicted st) all_entries;
                   st = st \<lparr> ct_evicted := va_evicted v \<rparr>
               in if va_valid v = [] then
                    Some (Inr ((result_success cache_key (length all_entries) 0)
                            \<lparr> rs_invalid_entries_removed := length (va_stale v),
                              rs_consolidated_entries := va_stale v \<rparr>), st)
                  else consolidate_valid blake3 rm inp cache_key (length all_entries)
                         (va_valid v) (va_stale v) st))"

section \<open>What consolidation keeps\<close>

text \<open>Two descriptions of the same published file; access statistics may differ.\<close>

definition same_file :: "CacheRangeSpec \<Rightarrow> CacheRangeSpec \<Rightarrow> bool" where
  "same_file r r' \<longleftrightarrow>
     cr_start r = cr_start r' \<and> cr_end r = cr_end r' \<and> cr_file_path r = cr_file_path r' \<and>
     cr_compression_algorithm r = cr_compression_algorithm r' \<and>
     cr_compressed_size r = cr_compressed_size r' \<and> cr_uncompressed_size r = cr_uncompressed_size r'"

lemma same_file_refl [simp]: "same_file r r"
  by (simp add: same_file_def)

lemma same_file_trans: "same_file a b \<Longrightarrow> same_file b c \<Longrightarrow> same_file a c"
  by (simp add: same_file_def)

lemma same_file_belongs: "same_file r r' \<Longrightarrow> range_file_belongs_to r v = range_file_belongs_to r' v"
  by (simp add: same_file_def range_file_belongs_to_def split: option.split)

text \<open>The ranges come from \<open>old\<close> or from the byte-carrying entries of \<open>es\<close>.\<close>

definition ranges_from :: "CacheRangeSpec list \<Rightarrow> JournalEntry list \<Rightarrow> CacheRangeSpec list \<Rightarrow> bool" where
  "ranges_from old es new \<longleftrightarrow>
     (\<forall>r \<in> set new. \<exists>r0. same_file r r0 \<and>
        (r0 \<in> set old \<or> (\<exists>e \<in> set es. carries_bytes (je_operation e) \<and> r0 = je_range_spec e)))"

lemma update_first_set:
  "x \<in> set (update_first p f xs) \<Longrightarrow> x \<in> set xs \<or> (\<exists>y \<in> set xs. p y \<and> x = f y)"
  by (induction xs) (auto split: if_splits)

lemma update_first_keys:
  "(\<And>x. p x \<Longrightarrow> k (f x) = k x) \<Longrightarrow> map k (update_first p f xs) = map k xs"
  by (induction xs) auto

lemma ranges_from_refl: "ranges_from old es old"
  unfolding ranges_from_def using same_file_refl by blast

lemma ranges_from_mono: "ranges_from old es new \<Longrightarrow> set new' \<subseteq> set new \<Longrightarrow> ranges_from old es new'"
  by (auto simp: ranges_from_def)

lemma ranges_from_add:
  "ranges_from old es new \<Longrightarrow> e \<in> set es \<Longrightarrow> carries_bytes (je_operation e) \<Longrightarrow>
   ranges_from old es (new @ [je_range_spec e])"
  unfolding ranges_from_def by (auto intro: exI [of _ "je_range_spec e"])

lemma ranges_from_replace:
  assumes "ranges_from old es new" "e \<in> set es" "carries_bytes (je_operation e)"
  shows "ranges_from old es (update_first p (\<lambda>_. je_range_spec e) new)"
  unfolding ranges_from_def
proof
  fix r assume "r \<in> set (update_first p (\<lambda>_. je_range_spec e) new)"
  then have "r \<in> set new \<or> r = je_range_spec e" using update_first_set by fastforce
  then show "\<exists>r0. same_file r r0 \<and>
        (r0 \<in> set old \<or> (\<exists>e \<in> set es. carries_bytes (je_operation e) \<and> r0 = je_range_spec e))"
    using assms unfolding ranges_from_def by (metis same_file_refl)
qed

lemma ranges_from_touch:
  assumes "ranges_from old es new" "\<And>r. same_file (f r) r"
  shows "ranges_from old es (update_first p f new)"
  unfolding ranges_from_def
proof
  fix r assume "r \<in> set (update_first p f new)"
  then obtain y where "y \<in> set new" "same_file r y"
    using update_first_set assms(2) by (metis same_file_refl)
  then show "\<exists>r0. same_file r r0 \<and>
        (r0 \<in> set old \<or> (\<exists>e \<in> set es. carries_bytes (je_operation e) \<and> r0 = je_range_spec e))"
    using assms(1) same_file_trans unfolding ranges_from_def by blast
qed

text \<open>What one entry does to the ranges, the identity of the object and their keys.\<close>

lemma apply_entry_ranges:
  assumes "ranges_from old es (nm_ranges (aa_metadata acc))" "entry \<in> set es"
  shows "ranges_from old es (nm_ranges (aa_metadata (apply_entry blake3 now entry acc)))"
proof (cases "je_operation entry")
  case Add
  then show ?thesis using ranges_from_add [OF assms] assms(1) by (simp add: apply_entry_def Let_def carries_bytes_def)
next
  case Update
  then show ?thesis using ranges_from_replace [OF assms] assms(1) by (simp add: apply_entry_def Let_def carries_bytes_def)
next
  case Remove
  then show ?thesis using ranges_from_mono [OF assms(1)] assms(1) by (simp add: apply_entry_def Let_def)
next
  case TtlRefresh
  then show ?thesis using assms(1)
    by (auto simp: apply_entry_def Let_def refresh_object_ttl_def same_file_def split: option.split
        intro!: ranges_from_touch)
next
  case AccessUpdate
  then show ?thesis using assms(1)
    by (auto simp: apply_entry_def Let_def same_file_def split: option.split intro!: ranges_from_touch)
next
  case Graduation
  then show ?thesis using assms(1) by (simp add: apply_entry_def Let_def)
qed

lemma fold_apply_ranges:
  "ranges_from old es (nm_ranges (aa_metadata acc)) \<Longrightarrow> set todo \<subseteq> set es \<Longrightarrow>
   ranges_from old es (nm_ranges (aa_metadata (fold (apply_entry blake3 now) todo acc)))"
  by (induction todo arbitrary: acc) (auto simp: apply_entry_ranges)

lemma apply_entry_etag:
  "om_etag (nm_object_metadata (aa_metadata (apply_entry blake3 now entry acc))) =
   om_etag (nm_object_metadata (aa_metadata acc))"
  by (cases "je_operation entry")
    (auto simp: apply_entry_def Let_def refresh_object_ttl_def split: option.split)

lemma fill_content_length_simps [simp]:
  "nm_ranges (fill_content_length m) = nm_ranges m"
  "om_etag (nm_object_metadata (fill_content_length m)) = om_etag (nm_object_metadata m)"
  "om_graduation_accounted (nm_object_metadata (fill_content_length m)) =
     om_graduation_accounted (nm_object_metadata m)"
  by (auto simp: fill_content_length_def split: list.split)

lemma fold_apply_etag:
  "om_etag (nm_object_metadata (aa_metadata (fold (apply_entry blake3 now) es acc))) =
   om_etag (nm_object_metadata (aa_metadata acc))"
  by (induction es arbitrary: acc) (auto simp: apply_entry_etag)

lemma apply_ranges_from:
  "ranges_from (nm_ranges m) es (nm_ranges (aa_metadata (apply_journal_entries blake3 now m es)))"
  unfolding apply_journal_entries_def Let_def
  by (simp, rule fold_apply_ranges) (simp_all add: ranges_from_refl)

lemma apply_etag:
  "om_etag (nm_object_metadata (aa_metadata (apply_journal_entries blake3 now m es))) =
   om_etag (nm_object_metadata m)"
  by (simp add: apply_journal_entries_def Let_def fold_apply_etag)

definition grouped :: "JournalEntry list \<Rightarrow> ((u64 \<times> u64) \<times> JournalEntry) list \<Rightarrow> bool" where
  "grouped es js \<longleftrightarrow>
     (\<forall>(k, e) \<in> set js. e \<in> set es \<and> carries_bytes (je_operation e) \<and> k = range_key (je_range_spec e))"

lemma grouped_update:
  assumes "grouped es js" "e \<in> set es" "carries_bytes (je_operation e)"
  shows "grouped es (AList.update (range_key (je_range_spec e)) e js)"
proof -
  have "set (AList.update k v js) \<subseteq> insert (k, v) (set js)" for k v
    by (induction js) auto
  then show ?thesis using assms unfolding grouped_def by blast
qed

lemma collect_entry_grouped:
  assumes "grouped es js" "entry \<in> set es" "collect_entry entry (js, n) = (js', n')"
  shows "grouped es js'"
proof -
  have "js' = js \<or> carries_bytes (je_operation entry) \<and>
      js' = AList.update (range_key (je_range_spec entry)) entry js"
    using assms(3) by (auto simp: collect_entry_def Let_def split: if_splits option.splits)
  then show ?thesis using assms(1,2) grouped_update by blast
qed

lemma fold_collect_grouped:
  "grouped es js \<Longrightarrow> set todo \<subseteq> set es \<Longrightarrow> fold collect_entry todo (js, n) = (js', n') \<Longrightarrow> grouped es js'"
proof (induction todo arbitrary: js n)
  case (Cons a todo)
  obtain js1 n1 where c: "collect_entry a (js, n) = (js1, n1)" by fastforce
  then have "grouped es js1" using collect_entry_grouped Cons.prems(1,2) by (metis list.set_intros(1) subsetD)
  then show ?case using Cons.IH [of js1 n1] Cons.prems(2,3) c by simp
qed simp

lemma resolve_range_from:
  assumes "ranges_from old es rs" "e \<in> set es" "carries_bytes (je_operation e)"
    and "k = range_key (je_range_spec e)" "resolve_range (k, e) (rs, n) = (rs', n')"
  shows "ranges_from old es rs'" "map range_key rs' = map range_key rs"
  using assms ranges_from_replace [OF assms(1-3)]
  by (auto simp: resolve_range_def split: option.splits if_splits intro!: update_first_keys)

lemma fold_resolve_from:
  "grouped es js \<Longrightarrow> ranges_from old es rs \<Longrightarrow> fold resolve_range js (rs, n) = (rs', n') \<Longrightarrow>
   ranges_from old es rs' \<and> map range_key rs' = map range_key rs"
proof (induction js arbitrary: rs n)
  case (Cons j js)
  obtain k e where j: "j = (k, e)" by fastforce
  obtain rs1 n1 where c: "resolve_range j (rs, n) = (rs1, n1)" by fastforce
  have e: "e \<in> set es" "carries_bytes (je_operation e)" "k = range_key (je_range_spec e)"
    using Cons.prems(1) j by (auto simp: grouped_def)
  have rest: "grouped es js" using Cons.prems(1) by (simp add: grouped_def)
  note one = resolve_range_from [OF Cons.prems(2) e c [unfolded j]]
  from Cons.IH [OF rest one(1), of n1] Cons.prems(3) one(2) c show ?case by simp
qed simp

lemma resolve_conflicts_from:
  assumes "resolve_conflicts m es = (n, m')"
  shows "ranges_from (nm_ranges m) es (nm_ranges m')" "map range_key (nm_ranges m') = map range_key (nm_ranges m)"
    "nm_object_metadata m' = nm_object_metadata m"
proof -
  obtain js k where c: "fold collect_entry es ([], 0) = (js, k)" by fastforce
  obtain rs k' where r: "fold resolve_range js (nm_ranges m, k) = (rs, k')" by fastforce
  have "grouped es js"
    by (rule fold_collect_grouped [OF _ _ c]) (simp_all add: grouped_def)
  from fold_resolve_from [OF this ranges_from_refl r] assms c r
  show "ranges_from (nm_ranges m) es (nm_ranges m')" "map range_key (nm_ranges m') = map range_key (nm_ranges m)"
    "nm_object_metadata m' = nm_object_metadata m"
    by (auto simp: resolve_conflicts_def)
qed

lemma apply_entry_extents:
  assumes "distinct (map range_key (nm_ranges (aa_metadata acc)))"
  shows "distinct (map range_key (nm_ranges (aa_metadata (apply_entry blake3 now entry acc))))"
proof -
  have touch: "map range_key (update_first p f rs) = map range_key rs"
    if "\<And>r. range_key (f r) = range_key r" for p f rs
    using that by (intro update_first_keys) auto
  have put: "map range_key (update_first (same_extent entry) (\<lambda>_. je_range_spec entry) rs) = map range_key rs" for rs
    by (intro update_first_keys) (simp add: same_extent_def)
  have "range_key (je_range_spec entry) \<notin> range_key ` set rs" if "\<not> list_ex (same_extent entry) rs" for rs
    using that by (auto simp: list_ex_iff same_extent_def)
  then show ?thesis
    using assms
    by (cases "je_operation entry")
      (auto simp: apply_entry_def Let_def refresh_object_ttl_def touch put range_key_def distinct_map_filter
        split: option.split)
qed

lemma fold_apply_extents:
  "distinct (map range_key (nm_ranges (aa_metadata acc))) \<Longrightarrow>
   distinct (map range_key (nm_ranges (aa_metadata (fold (apply_entry blake3 now) es acc))))"
  by (induction es arbitrary: acc) (auto simp: apply_entry_extents)

lemma apply_extents:
  "distinct (map range_key (nm_ranges m)) \<Longrightarrow>
   distinct (map range_key (nm_ranges (aa_metadata (apply_journal_entries blake3 now m es))))"
  by (simp add: apply_journal_entries_def Let_def fold_apply_extents)

section \<open>Versions and extents\<close>

lemma retire_foreign_mono:
  "retire_foreign blake3 rm key etag wc rs retired st = (retired', st') \<Longrightarrow> set retired \<subseteq> set retired'"
proof (induction rs arbitrary: retired st)
  case (Cons r rs)
  note sub = Cons.IH
  show ?case
    using Cons.prems by (auto split: if_splits sum.splits prod.splits Removal.splits dest!: sub)
qed simp

lemma retire_foreign_complete:
  assumes "retire_foreign blake3 rm key etag wc rs retired st = (retired', st')"
    and "r \<in> set rs" "\<not> range_file_belongs_to r (object_version_id blake3 etag)"
  shows "cr_file_path r \<in> set retired' \<or>
    (\<exists>path err. consolidator_range_file_path key r = Inr path \<and> rm path = Some err)"
  using assms
proof (induction rs arbitrary: retired st)
  case (Cons a rs)
  show ?case
  proof (cases "r = a")
    case False
    then show ?thesis using Cons by (auto split: if_splits sum.splits prod.splits Removal.splits)
  next
    case True
    show ?thesis
    proof (cases "consolidator_range_file_path key a")
      case (Inl e)
      then show ?thesis using Cons.prems True retire_foreign_mono by fastforce
    next
      case (Inr path)
      obtain rem fs where u: "unlink rm path (fst_fs st) = (rem, fs)" by fastforce
      show ?thesis
      proof (cases rem)
        case (RemoveFailed e)
        then have "rm path = Some e" using u by (auto simp: unlink_def split: FileState.splits option.splits)
        then show ?thesis using Inr True by blast
      qed (use Cons.prems True Inr u retire_foreign_mono in fastforce)+
    qed
  qed
qed simp

lemma consolidate_metadata_parts:
  assumes "consolidate_metadata blake3 rm now key valid m st = (Inr co, st')"
  obtains failed st1 retired n m' where
    "cleanup_rejected blake3 rm key (om_etag (nm_object_metadata m))
       (map cr_file_path (nm_ranges m @ map je_range_spec
          (filter (\<lambda>e. matches_object_version blake3 e (om_etag (nm_object_metadata m))) valid)))
       valid [] [] st = (Inr failed, st1)"
    "retire_foreign blake3 rm key (om_etag (nm_object_metadata m))
       (om_is_write_cached (nm_object_metadata m)) (nm_ranges m) [] st1 = (retired, st')"
    "resolve_conflicts (m \<lparr> nm_ranges := filter (\<lambda>r. cr_file_path r \<notin> set retired) (nm_ranges m) \<rparr>)
       (filter (\<lambda>e. matches_object_version blake3 e (om_etag (nm_object_metadata m))) valid) = (n, m')"
    "co_metadata co = aa_metadata (apply_journal_entries blake3 now m'
       (filter (\<lambda>e. matches_object_version blake3 e (om_etag (nm_object_metadata m))) valid))"
proof -
  let ?etag = "om_etag (nm_object_metadata m)"
  let ?es = "filter (\<lambda>e. matches_object_version blake3 e ?etag) valid"
  obtain res st1 where c: "cleanup_rejected blake3 rm key ?etag
      (map cr_file_path (nm_ranges m @ map je_range_spec ?es)) valid [] [] st = (res, st1)" by fastforce
  obtain retired st2 where f: "retire_foreign blake3 rm key ?etag
      (om_is_write_cached (nm_object_metadata m)) (nm_ranges m) [] st1 = (retired, st2)" by fastforce
  obtain n m' where r: "resolve_conflicts
      (m \<lparr> nm_ranges := filter (\<lambda>r. cr_file_path r \<notin> set retired) (nm_ranges m) \<rparr>) ?es = (n, m')" by fastforce
  obtain failed where failed: "res = Inr failed"
    using assms c by (cases res) (auto simp: consolidate_metadata_def Let_def)
  have "st2 = st'" "co_metadata co = aa_metadata (apply_journal_entries blake3 now m' ?es)"
    using assms unfolding consolidate_metadata_def Let_def c failed prod.case sum.case f r by auto
  then show thesis using that [OF c [unfolded failed] _ r] f by blast
qed

lemma ranges_from_trans:
  assumes "ranges_from old es mid" "ranges_from mid es new"
  shows "ranges_from old es new"
  unfolding ranges_from_def
proof
  fix r assume "r \<in> set new"
  then obtain r1 where r1: "same_file r r1"
    "r1 \<in> set mid \<or> (\<exists>e \<in> set es. carries_bytes (je_operation e) \<and> r1 = je_range_spec e)"
    using assms(2) unfolding ranges_from_def by blast
  then show "\<exists>r0. same_file r r0 \<and>
        (r0 \<in> set old \<or> (\<exists>e \<in> set es. carries_bytes (je_operation e) \<and> r0 = je_range_spec e))"
    using assms(1) same_file_trans unfolding ranges_from_def by blast
qed

lemma consolidated_from:
  assumes "consolidate_metadata blake3 rm now key valid m st = (Inr co, st')"
  obtains retired st1 where
    "retire_foreign blake3 rm key (om_etag (nm_object_metadata m))
       (om_is_write_cached (nm_object_metadata m)) (nm_ranges m) [] st1 = (retired, st')"
    "ranges_from (filter (\<lambda>r. cr_file_path r \<notin> set retired) (nm_ranges m))
       (filter (\<lambda>e. matches_object_version blake3 e (om_etag (nm_object_metadata m))) valid)
       (nm_ranges (co_metadata co))"
    "om_etag (nm_object_metadata (co_metadata co)) = om_etag (nm_object_metadata m)"
proof -
  obtain failed st1 retired n m' where p:
    "retire_foreign blake3 rm key (om_etag (nm_object_metadata m))
       (om_is_write_cached (nm_object_metadata m)) (nm_ranges m) [] st1 = (retired, st')"
    "resolve_conflicts (m \<lparr> nm_ranges := filter (\<lambda>r. cr_file_path r \<notin> set retired) (nm_ranges m) \<rparr>)
       (filter (\<lambda>e. matches_object_version blake3 e (om_etag (nm_object_metadata m))) valid) = (n, m')"
    "co_metadata co = aa_metadata (apply_journal_entries blake3 now m'
       (filter (\<lambda>e. matches_object_version blake3 e (om_etag (nm_object_metadata m))) valid))"
    using consolidate_metadata_parts [OF assms] by metis
  note r = resolve_conflicts_from [OF p(2)]
  show thesis
    by (rule that [OF p(1)])
      (use ranges_from_trans [OF r(1) apply_ranges_from, of blake3 now] r(3) p(3) apply_etag in auto)
qed

text \<open>
  C23: Consolidation keeps an object to one version. The object's ETag is unchanged; every
  range it lists afterwards is named for that version, unless it was listed before and its
  file could not be removed; and no byte extent is listed twice. Entries of other versions,
  however they are ordered, add nothing.
\<close>

theorem consolidated_ranges_of_version:
  assumes "consolidate_metadata blake3 rm now key valid m st = (Inr co, st')"
    and "distinct (map range_key (nm_ranges m))"
  shows "om_etag (nm_object_metadata (co_metadata co)) = om_etag (nm_object_metadata m) \<and>
    distinct (map range_key (nm_ranges (co_metadata co))) \<and>
    (\<forall>r \<in> set (nm_ranges (co_metadata co)).
       range_file_belongs_to r (object_version_id blake3 (om_etag (nm_object_metadata m))) \<or>
       (\<exists>r0 path err. r0 \<in> set (nm_ranges m) \<and> same_file r r0 \<and>
          consolidator_range_file_path key r0 = Inr path \<and> rm path = Some err))"
proof -
  let ?etag = "om_etag (nm_object_metadata m)"
  let ?ver = "object_version_id blake3 ?etag"
  let ?es = "filter (\<lambda>e. matches_object_version blake3 e ?etag) valid"
  obtain retired st1 where p: "retire_foreign blake3 rm key ?etag
       (om_is_write_cached (nm_object_metadata m)) (nm_ranges m) [] st1 = (retired, st')"
    and from_: "ranges_from (filter (\<lambda>r. cr_file_path r \<notin> set retired) (nm_ranges m)) ?es
       (nm_ranges (co_metadata co))"
    and etag: "om_etag (nm_object_metadata (co_metadata co)) = ?etag"
    using consolidated_from [OF assms(1)] .
  have "distinct (map range_key (nm_ranges (co_metadata co)))"
  proof -
    obtain failed st1 retired n m' where q:
      "resolve_conflicts (m \<lparr> nm_ranges := filter (\<lambda>r. cr_file_path r \<notin> set retired) (nm_ranges m) \<rparr>) ?es = (n, m')"
      "co_metadata co = aa_metadata (apply_journal_entries blake3 now m' ?es)"
      using consolidate_metadata_parts [OF assms(1)] by metis
    have "distinct (map range_key (nm_ranges m'))"
      using resolve_conflicts_from(2) [OF q(1)] assms(2) by (simp add: distinct_map_filter)
    then show ?thesis unfolding q(2) by (rule apply_extents)
  qed
  moreover have "range_file_belongs_to r ?ver \<or> (\<exists>r0 path err. r0 \<in> set (nm_ranges m) \<and> same_file r r0 \<and>
      consolidator_range_file_path key r0 = Inr path \<and> rm path = Some err)"
    if "r \<in> set (nm_ranges (co_metadata co))" for r
  proof -
    have "\<exists>r0. same_file r r0 \<and> (r0 \<in> set (filter (\<lambda>r. cr_file_path r \<notin> set retired) (nm_ranges m)) \<or>
       (\<exists>e \<in> set ?es. carries_bytes (je_operation e) \<and> r0 = je_range_spec e))"
      using from_ that unfolding ranges_from_def by blast
    then obtain r0 where r0: "same_file r r0" and src:
      "r0 \<in> set (nm_ranges m) \<and> cr_file_path r0 \<notin> set retired \<or>
       (\<exists>e \<in> set ?es. carries_bytes (je_operation e) \<and> r0 = je_range_spec e)" by auto
    from src show ?thesis
    proof
      assume "\<exists>e \<in> set ?es. carries_bytes (je_operation e) \<and> r0 = je_range_spec e"
      then have "range_file_belongs_to r0 ?ver"
        by (auto simp: matches_object_version_def entry_matches_object_version_def carries_bytes_def Let_def)
      then show ?thesis using same_file_belongs [OF r0] by simp
    next
      assume "r0 \<in> set (nm_ranges m) \<and> cr_file_path r0 \<notin> set retired"
      then show ?thesis using retire_foreign_complete [OF p, of r0] same_file_belongs [OF r0] r0 by blast
    qed
  qed
  ultimately show ?thesis using etag by blast
qed

section \<open>No live file is removed\<close>

text \<open>Descriptions that resolve to one file agree on its path and its extent.\<close>

definition consistent_specs :: "CacheRangeSpec list \<Rightarrow> bool" where
  "consistent_specs rs \<longleftrightarrow>
     (\<forall>r \<in> set rs. \<forall>r' \<in> set rs.
        path_components (cr_file_path r) = path_components (cr_file_path r') \<longrightarrow>
        cr_file_path r = cr_file_path r' \<and> range_key r = range_key r')"

abbreviation spec_path :: "CacheRangeSpec \<Rightarrow> string list" where
  "spec_path r \<equiv> ''ranges'' # path_components (cr_file_path r)"

lemma unlink_other: "unlink rm path fs = (x, fs') \<Longrightarrow> p \<noteq> path \<Longrightarrow> fs' p = fs p"
  by (auto simp: unlink_def split: FileState.splits option.splits)

lemma consolidator_path: "consolidator_range_file_path key r = Inr path \<Longrightarrow> path = spec_path r"
  by (auto simp: consolidator_range_file_path_def split: sum.splits if_splits)

lemma cleanup_rejected_untouched:
  "cleanup_rejected blake3 rm key etag retained es attempted failed st = (res, st') \<Longrightarrow>
   \<forall>e \<in> set es. cr_file_path (je_range_spec e) \<notin> set retained \<longrightarrow> spec_path (je_range_spec e) \<noteq> p \<Longrightarrow>
   fst_fs st' p = fst_fs st p"
proof (induction es arbitrary: attempted failed st)
  case (Cons e es)
  note IH = Cons.IH [OF _ ballI]
  let ?fp = "cr_file_path (je_range_spec e)"
  have rest: "\<forall>e \<in> set es. cr_file_path (je_range_spec e) \<notin> set retained \<longrightarrow> spec_path (je_range_spec e) \<noteq> p"
    using Cons.prems(2) by simp
  show ?case
  proof (cases "\<not> carries_bytes (je_operation e) \<or> matches_object_version blake3 e etag \<or>
      ?fp \<in> set retained \<or> ?fp \<in> set attempted")
    case True
    then show ?thesis using Cons.IH [OF _ rest] Cons.prems(1) by (simp add: Let_def)
  next
    case live: False
    show ?thesis
    proof (cases "consolidator_range_file_path key (je_range_spec e)")
      case (Inl err)
      then show ?thesis using live Cons.prems(1) by (simp add: Let_def)
    next
      case (Inr path)
      then have path: "path \<noteq> p" using consolidator_path live Cons.prems(2) by auto
      obtain x fs where u: "unlink rm path (fst_fs st) = (x, fs)" by fastforce
      show ?thesis
        using Cons.prems(1) live Inr u Cons.IH [OF _ rest] unlink_other [OF u path [symmetric]]
        by (cases x) (fastforce simp: Let_def)+
    qed
  qed
qed simp

lemma retire_foreign_untouched:
  "retire_foreign blake3 rm key etag wc rs retired st = (retired', st') \<Longrightarrow>
   \<forall>r \<in> set rs. \<not> range_file_belongs_to r (object_version_id blake3 etag) \<longrightarrow> spec_path r \<noteq> p \<Longrightarrow>
   fst_fs st' p = fst_fs st p"
proof (induction rs arbitrary: retired st)
  case (Cons r rs)
  have rest: "\<forall>r \<in> set rs. \<not> range_file_belongs_to r (object_version_id blake3 etag) \<longrightarrow> spec_path r \<noteq> p"
    using Cons.prems(2) by simp
  show ?case
  proof (cases "range_file_belongs_to r (object_version_id blake3 etag)")
    case True
    then show ?thesis using Cons.IH [OF _ rest] Cons.prems(1) by simp
  next
    case foreign: False
    show ?thesis
    proof (cases "consolidator_range_file_path key r")
      case (Inl err)
      then show ?thesis using foreign Cons.IH [OF _ rest] Cons.prems(1) by simp
    next
      case (Inr path)
      then have path: "path \<noteq> p" using consolidator_path foreign Cons.prems(2) by auto
      obtain x fs where u: "unlink rm path (fst_fs st) = (x, fs)" by fastforce
      show ?thesis
        using Cons.prems(1) foreign Inr u Cons.IH [OF _ rest] unlink_other [OF u path [symmetric]]
        by (cases x) fastforce+
    qed
  qed
qed simp

lemma belongs_cong:
  "cr_file_path r = cr_file_path r' \<Longrightarrow> range_key r = range_key r' \<Longrightarrow>
   range_file_belongs_to r v = range_file_belongs_to r' v"
  by (simp add: range_key_def range_file_belongs_to_def split: option.split)

text \<open>
  C24: Consolidation removes only dead files. A file that the consolidated metadata lists for
  the object's version is exactly as it was, whatever rejected or superseded ranges were
  cleaned up in the same pass.
\<close>

theorem consolidation_keeps_live_files:
  assumes "consolidate_metadata blake3 rm now key valid m st = (Inr co, st')"
    and "consistent_specs (nm_ranges m @ map je_range_spec valid)"
    and "r \<in> set (nm_ranges (co_metadata co))"
    and "range_file_belongs_to r (object_version_id blake3 (om_etag (nm_object_metadata m)))"
  shows "fst_fs st' (spec_path r) = fst_fs st (spec_path r)"
proof -
  let ?etag = "om_etag (nm_object_metadata m)"
  let ?ver = "object_version_id blake3 ?etag"
  let ?es = "filter (\<lambda>e. matches_object_version blake3 e ?etag) valid"
  let ?retained = "map cr_file_path (nm_ranges m @ map je_range_spec ?es)"
  obtain failed st1 retired n m' where p:
    "cleanup_rejected blake3 rm key ?etag ?retained valid [] [] st = (Inr failed, st1)"
    "retire_foreign blake3 rm key ?etag (om_is_write_cached (nm_object_metadata m)) (nm_ranges m) [] st1 =
       (retired, st')"
    using consolidate_metadata_parts [OF assms(1)] by metis
  obtain retired' where "ranges_from (filter (\<lambda>r. cr_file_path r \<notin> set retired') (nm_ranges m)) ?es
       (nm_ranges (co_metadata co))" using consolidated_from [OF assms(1)] by metis
  then have "\<exists>r0. same_file r r0 \<and> (r0 \<in> set (filter (\<lambda>r. cr_file_path r \<notin> set retired') (nm_ranges m)) \<or>
       (\<exists>e \<in> set ?es. carries_bytes (je_operation e) \<and> r0 = je_range_spec e))"
    using assms(3) unfolding ranges_from_def by blast
  then obtain r0 where r0: "same_file r r0" and src: "r0 \<in> set (nm_ranges m @ map je_range_spec ?es)"
    by auto
  have path: "cr_file_path r = cr_file_path r0" "range_key r = range_key r0"
    using r0 by (simp_all add: same_file_def range_key_def)
  have all: "set (nm_ranges m @ map je_range_spec ?es) \<subseteq> set (nm_ranges m @ map je_range_spec valid)" by auto
  have same: "cr_file_path x = cr_file_path r \<and> range_key x = range_key r"
    if "x \<in> set (nm_ranges m @ map je_range_spec valid)" "spec_path x = spec_path r" for x
  proof -
    have "r0 \<in> set (nm_ranges m @ map je_range_spec valid)" using src all by (rule subsetD [rotated])
    moreover have "path_components (cr_file_path x) = path_components (cr_file_path r0)"
      using that(2) path(1) by simp
    ultimately have "cr_file_path x = cr_file_path r0 \<and> range_key x = range_key r0"
      using assms(2) that(1) unfolding consistent_specs_def by blast
    then show ?thesis using path by simp
  qed
  have "fst_fs st1 (spec_path r) = fst_fs st (spec_path r)"
  proof (rule cleanup_rejected_untouched [OF p(1)], intro ballI impI)
    fix e assume "e \<in> set valid" "cr_file_path (je_range_spec e) \<notin> set ?retained"
    moreover have "cr_file_path r \<in> set ?retained" unfolding path(1) set_map using src by (rule imageI)
    ultimately show "spec_path (je_range_spec e) \<noteq> spec_path r" using same [of "je_range_spec e"] by auto
  qed
  moreover have "fst_fs st' (spec_path r) = fst_fs st1 (spec_path r)"
  proof (rule retire_foreign_untouched [OF p(2)], intro ballI impI)
    fix x assume "x \<in> set (nm_ranges m)" "\<not> range_file_belongs_to x ?ver"
    then show "spec_path x \<noteq> spec_path r"
      using same [of x] assms(4) belongs_cong [of x r ?ver] by auto
  qed
  ultimately show ?thesis by simp
qed

section \<open>Graduation is charged once\<close>

text \<open>Successive consolidations of one object, each under its lock.\<close>

fun graduated_total :: "(string \<Rightarrow> string) \<Rightarrow> SystemTime \<Rightarrow> NewCacheMetadata \<Rightarrow> JournalEntry list list \<Rightarrow> nat" where
  "graduated_total blake3 now m [] = 0"
| "graduated_total blake3 now m (es # batches) =
     (let acc = apply_journal_entries blake3 now m es
      in aa_graduated_bytes acc + graduated_total blake3 now (aa_metadata acc) batches)"

definition first_graduation :: "JournalEntry list \<Rightarrow> nat" where
  "first_graduation es =
     (case find (\<lambda>e. je_operation e = Graduation) es of
        Some e \<Rightarrow> cr_compressed_size (je_range_spec e) | None \<Rightarrow> 0)"

lemma apply_entry_graduation:
  "om_graduation_accounted (nm_object_metadata (aa_metadata (apply_entry blake3 now e acc))) =
     (om_graduation_accounted (nm_object_metadata (aa_metadata acc)) \<or> je_operation e = Graduation)"
  "aa_graduated_bytes (apply_entry blake3 now e acc) =
     (if je_operation e = Graduation \<and> \<not> om_graduation_accounted (nm_object_metadata (aa_metadata acc))
      then saturating_add (aa_graduated_bytes acc) (cr_compressed_size (je_range_spec e))
      else aa_graduated_bytes acc)"
  by (cases "je_operation e";
      auto simp: apply_entry_def Let_def refresh_object_ttl_def split: option.split)+

lemma fold_apply_graduation:
  assumes "\<forall>e \<in> set es. cr_compressed_size (je_range_spec e) < u64_mod" "aa_graduated_bytes acc = 0 \<or> om_graduation_accounted (nm_object_metadata (aa_metadata acc))"
  shows "om_graduation_accounted (nm_object_metadata (aa_metadata (fold (apply_entry blake3 now) es acc))) =
     (om_graduation_accounted (nm_object_metadata (aa_metadata acc)) \<or> (\<exists>e \<in> set es. je_operation e = Graduation))
   \<and> aa_graduated_bytes (fold (apply_entry blake3 now) es acc) =
     (if om_graduation_accounted (nm_object_metadata (aa_metadata acc)) then aa_graduated_bytes acc
      else first_graduation es)"
  using assms
proof (induction es arbitrary: acc)
  case (Cons e es)
  let ?acc = "apply_entry blake3 now e acc"
  have "aa_graduated_bytes ?acc = 0 \<or> om_graduation_accounted (nm_object_metadata (aa_metadata ?acc))"
    using Cons.prems by (auto simp: apply_entry_graduation)
  from Cons.IH [OF _ this] Cons.prems show ?case
    by (auto simp: apply_entry_graduation first_graduation_def saturating_add_exact)
qed (auto simp: first_graduation_def)

text \<open>
  C25: Leaving the write tier is charged exactly once. However many instances journal the
  graduation of an object and however their entries are spread over consolidations, the
  total debited from the write cache is the size in the first entry, and nothing once the
  object is marked as accounted.
\<close>

theorem graduation_charged_once:
  assumes "\<forall>es \<in> set batches. \<forall>e \<in> set es. cr_compressed_size (je_range_spec e) < u64_mod"
  shows "graduated_total blake3 now m batches =
    (if om_graduation_accounted (nm_object_metadata m) then 0 else first_graduation (concat batches))"
  using assms
proof (induction batches arbitrary: m)
  case (Cons es batches)
  let ?acc = "apply_journal_entries blake3 now m es"
  have es: "\<forall>e \<in> set es. cr_compressed_size (je_range_spec e) < u64_mod" using Cons.prems by simp
  have g: "om_graduation_accounted (nm_object_metadata (aa_metadata ?acc)) =
      (om_graduation_accounted (nm_object_metadata m) \<or> (\<exists>e \<in> set es. je_operation e = Graduation))"
    "aa_graduated_bytes ?acc = (if om_graduation_accounted (nm_object_metadata m) then 0 else first_graduation es)"
    using fold_apply_graduation [OF es] by (simp_all add: apply_journal_entries_def Let_def)
  have first: "first_graduation (es @ rest) =
      (if \<exists>e \<in> set es. je_operation e = Graduation then first_graduation es
       else first_graduation rest)" for rest
    by (induction es) (auto simp: first_graduation_def)
  have none: "first_graduation es = 0" if "\<not> (\<exists>e \<in> set es. je_operation e = Graduation)"
    using that by (induction es) (auto simp: first_graduation_def)
  show ?case using Cons g first none by (simp add: Let_def)
qed (simp add: first_graduation_def)

section \<open>A sample object\<close>

definition sample_spec :: CacheRangeSpec where
  "sample_spec = CacheRangeSpec_new 5 0 9
     (''b/00/000/k_0-9.'' @ zero_digest ''v'' @ ''.bin'') Lz4 30 10"

definition sample_entry :: "JournalOperation \<Rightarrow> JournalEntry" where
  "sample_entry op =
     \<lparr> je_timestamp = 5, je_instance_id = ''i'', je_cache_key = ''b/k'', je_range_spec = sample_spec,
       je_operation = op, je_range_file_path = [], je_metadata_version = 1, je_new_ttl_secs = None,
       je_object_ttl_secs = Some 60, je_access_increment = None, je_object_metadata = None \<rparr>"

definition sample_metadata :: NewCacheMetadata where
  "sample_metadata = (NewCacheMetadata_default 0)
     \<lparr> nm_cache_key := ''b/k'', nm_object_metadata := ObjectMetadata_default \<lparr> om_etag := ''v'' \<rparr> \<rparr>"

definition sample_store :: FileStore where
  "sample_store = \<lparr> fst_fs = (\<lambda>_. FileMissing), fst_acc = sa_new \<rparr>"

lemma sample_belongs: "range_file_belongs_to sample_spec (object_version_id zero_digest ''v'')"
  by code_simp

lemma sample_etag [simp]: "om_etag (nm_object_metadata sample_metadata) = ''v''"
  by (simp add: sample_metadata_def)

lemma sample_no_ranges [simp]: "nm_ranges sample_metadata = []"
  by (simp add: sample_metadata_def NewCacheMetadata_default_def)

lemma sample_entry_sel [simp]:
  "je_operation (sample_entry op) = op" "je_range_spec (sample_entry op) = sample_spec"
  "je_object_metadata (sample_entry op) = None"
  by (simp_all add: sample_entry_def)

lemma sample_matches: "matches_object_version zero_digest (sample_entry Add) ''v''"
  using sample_belongs
  by (simp add: matches_object_version_def entry_matches_object_version_def)

lemma sample_consolidation:
  "\<exists>co st'. consolidate_metadata zero_digest (\<lambda>_. None) 7 ''b/k'' [sample_entry Add] sample_metadata
      sample_store = (Inr co, st') \<and> nm_ranges (co_metadata co) = [sample_spec]"
  by (simp add: consolidate_metadata_def Let_def sample_matches resolve_conflicts_def collect_entry_def
      carries_bytes_def resolve_range_def apply_journal_entries_def apply_entry_def fill_content_length_def)

theorem consolidated_ranges_of_version_witness:
  "\<exists>co st'. consolidate_metadata zero_digest (\<lambda>_. None) 7 ''b/k'' [sample_entry Add] sample_metadata
      sample_store = (Inr co, st') \<and> nm_ranges (co_metadata co) = [sample_spec] \<and>
     range_file_belongs_to sample_spec (object_version_id zero_digest ''v'')"
proof -
  obtain co st' where c: "consolidate_metadata zero_digest (\<lambda>_. None) 7 ''b/k'' [sample_entry Add]
      sample_metadata sample_store = (Inr co, st')" "nm_ranges (co_metadata co) = [sample_spec]"
    using sample_consolidation by blast
  have "distinct (map range_key (nm_ranges sample_metadata))" by simp
  from consolidated_ranges_of_version [OF c(1) this] c show ?thesis by simp
qed

theorem consolidation_keeps_live_files_witness:
  "\<exists>co st'. consolidate_metadata zero_digest (\<lambda>_. None) 7 ''b/k'' [sample_entry Add] sample_metadata
      sample_store = (Inr co, st') \<and>
     fst_fs st' (spec_path sample_spec) = fst_fs sample_store (spec_path sample_spec)"
proof -
  obtain co st' where c: "consolidate_metadata zero_digest (\<lambda>_. None) 7 ''b/k'' [sample_entry Add]
      sample_metadata sample_store = (Inr co, st')" "nm_ranges (co_metadata co) = [sample_spec]"
    using sample_consolidation by blast
  have one: "consistent_specs (nm_ranges sample_metadata @ map je_range_spec [sample_entry Add])"
    by (simp add: consistent_specs_def)
  have "sample_spec \<in> set (nm_ranges (co_metadata co))" using c(2) by simp
  from consolidation_keeps_live_files [OF c(1) one this] sample_belongs
  have "fst_fs st' (spec_path sample_spec) = fst_fs sample_store (spec_path sample_spec)" by simp
  then show ?thesis using c(1) by blast
qed

theorem graduation_charged_once_witness:
  "graduated_total zero_digest 7 sample_metadata
     [[sample_entry Graduation, sample_entry Graduation], [sample_entry Graduation]] = 30"
proof -
  have "\<forall>es \<in> set [[sample_entry Graduation, sample_entry Graduation], [sample_entry Graduation]].
      \<forall>e \<in> set es. cr_compressed_size (je_range_spec e) < u64_mod"
    by (simp add: sample_entry_def sample_spec_def CacheRangeSpec_new_def)
  from graduation_charged_once [OF this, of zero_digest 7 sample_metadata] show ?thesis
    by (simp add: sample_metadata_def ObjectMetadata_default_def first_graduation_def sample_entry_def
        sample_spec_def CacheRangeSpec_new_def)
qed

text \<open>
  Among several publications of one range that is not listed yet the first one is kept, not
  the newest: the choice of the newest entry only takes effect when the range is listed.
\<close>

lemma first_publication_kept:
  assumes "je_operation e1 = Add" "je_operation e2 = Add" "nm_ranges m = []"
    and "same_extent e1 (je_range_spec e2)"
  shows "nm_ranges (aa_metadata (apply_journal_entries blake3 now (snd (resolve_conflicts m [e1, e2]))
      [e1, e2])) = [je_range_spec e1]"
proof -
  have "nm_ranges (snd (resolve_conflicts m [e1, e2])) = []"
    using assms by (simp add: resolve_conflicts_def collect_entry_def resolve_range_def Let_def
        carries_bytes_def same_extent_def split: option.split)
  then show ?thesis
    using assms by (simp add: apply_journal_entries_def apply_entry_def Let_def same_extent_def
        fill_content_length_def)
qed

end
