(* ===== verification/Range_Spec.thy ===== *)
theory Range_Spec
  imports Cache_Types
begin

text \<open>
  The pure part of \<open>src/src/range_handler.rs\<close>: byte ranges, page geometry, the parser of the
  \<open>Range\<close> header, merging of ranges, the ranges missing from a cover and the consolidation
  of missing ranges; and the page widening decision of \<open>src/src/http_proxy.rs\<close>.

  A panic of the source (an \<open>assert!\<close>) is the value \<open>None\<close> of the operation.
\<close>

section \<open>Byte ranges\<close>

record RangeSpec =
  r_start :: u64
  r_end :: u64

abbreviation mk_range :: "u64 \<Rightarrow> u64 \<Rightarrow> RangeSpec" where
  "mk_range s e \<equiv> \<lparr> r_start = s, r_end = e \<rparr>"

definition range_len :: "RangeSpec \<Rightarrow> u64" where
  "range_len r = u64_add (u64_sub (r_end r) (r_start r)) 1"

definition range_is_empty :: "RangeSpec \<Rightarrow> bool" where
  "range_is_empty r = (r_start r > r_end r)"

definition slice_offset_in :: "RangeSpec \<Rightarrow> RangeSpec \<Rightarrow> u64" where
  "slice_offset_in r container = u64_sub (r_start r) (r_start container)"

definition slice_length :: "RangeSpec \<Rightarrow> usize" where
  "slice_length r = u64_add (u64_sub (r_end r) (r_start r)) 1"

definition validate_slice_bounds :: "RangeSpec \<Rightarrow> RangeSpec \<Rightarrow> usize \<Rightarrow> ProxyError + unit" where
  "validate_slice_bounds r container container_data_len =
     (if r_start r < r_start container then
        Inl (InvalidRange (''Requested range start '' @ show_nat (r_start r) @
               '' is before container range start '' @ show_nat (r_start container)))
      else if r_end r > r_end container then
        Inl (InvalidRange (''Requested range end '' @ show_nat (r_end r) @
               '' is after container range end '' @ show_nat (r_end container)))
      else
        let slice_end = u64_add (slice_offset_in r container) (slice_length r)
        in if slice_end > container_data_len then
             Inl (InvalidRange (''Slice end '' @ show_nat slice_end @
                    '' exceeds container data length '' @ show_nat container_data_len))
           else
             let expected_container_len =
                   u64_add (u64_sub (r_end container) (r_start container)) 1
             in if container_data_len \<noteq> expected_container_len then
                  Inl (InvalidRange (''Container data length '' @ show_nat container_data_len @
                         '' does not match container range size '' @
                         show_nat expected_container_len))
                else Inr ())"

section \<open>Page geometry\<close>

datatype SuffixPageTarget = Pages "(u64 \<times> u64) list" | SizeUnknown

definition page_bounds :: "u64 \<Rightarrow> u64 \<Rightarrow> u64 \<Rightarrow> (u64 \<times> u64) option" where
  "page_bounds start page_size sz =
     (if page_size = 0 \<or> sz = 0 then None
      else
        let page_index = start div page_size;
            page_start = u64_mul page_index page_size;
            page_end = min (u64_sub (u64_add page_start page_size) 1) (u64_sub sz 1)
        in Some (page_start, page_end))"

definition overlapping_pages :: "u64 \<Rightarrow> u64 \<Rightarrow> u64 \<Rightarrow> u64 \<Rightarrow> (u64 \<times> u64) list option" where
  "overlapping_pages start end' page_size sz =
     (if end' < start then None
      else case page_bounds start page_size sz of
             None \<Rightarrow> None
           | Some first \<Rightarrow>
               (case page_bounds end' page_size sz of
                  None \<Rightarrow> None
                | Some lst \<Rightarrow> Some (if lst \<noteq> first then [first, lst] else [first])))"

definition suffix_page_target :: "u64 \<Rightarrow> u64 \<Rightarrow> u64 option \<Rightarrow> SuffixPageTarget option" where
  "suffix_page_target n page_size sz =
     (if n = 0 then None
      else case sz of
             None \<Rightarrow> Some SizeUnknown
           | Some sz \<Rightarrow>
               if page_size = 0 \<or> sz = 0 then None
               else
                 let n = min n sz; start = sz - n; end' = sz - 1
                 in map_option Pages (overlapping_pages start end' page_size sz))"

section \<open>The Range header\<close>

datatype RangeParseResult =
    SingleRange RangeSpec
  | MultipleRanges "RangeSpec list"
  | Invalid string
  | NoRange

text \<open>The \<open>match\<close> on the trimmed texts before and after the dash.\<close>

definition range_of_parts :: "string \<Rightarrow> string \<Rightarrow> u64 option \<Rightarrow> ProxyError + RangeSpec" where
  "range_of_parts start_str end_str content_length =
     (if start_str \<noteq> [] \<and> end_str \<noteq> [] then
        (case parse_u64 start_str of
           None \<Rightarrow> Inl (InvalidRange ''Invalid start position'')
         | Some start \<Rightarrow>
             (case parse_u64 end_str of
                None \<Rightarrow> Inl (InvalidRange ''Invalid end position'')
              | Some end' \<Rightarrow>
                  if start > end' then
                    Inl (InvalidRange ''Start position cannot be greater than end position'')
                  else
                    (case content_length of
                       Some len \<Rightarrow>
                         if start \<ge> len then
                           Inl (InvalidRange ''Start position exceeds content length'')
                         else Inr (mk_range start (min end' (u64_sub len 1)))
                     | None \<Rightarrow> Inr (mk_range start end'))))
      else if start_str \<noteq> [] then
        (case parse_u64 start_str of
           None \<Rightarrow> Inl (InvalidRange ''Invalid start position'')
         | Some start \<Rightarrow>
             (case content_length of
                Some len \<Rightarrow>
                  if start \<ge> len then
                    Inl (InvalidRange ''Start position exceeds content length'')
                  else Inr (mk_range start (u64_sub len 1))
              | None \<Rightarrow>
                  Inl (InvalidRange ''Cannot determine end position without content length'')))
      else if end_str \<noteq> [] then
        (case parse_u64 end_str of
           None \<Rightarrow> Inl (InvalidRange ''Invalid suffix length'')
         | Some suffix \<Rightarrow>
             (case content_length of
                Some len \<Rightarrow>
                  if suffix = 0 then Inl (InvalidRange ''Suffix length cannot be zero'')
                  else Inr (mk_range (saturating_sub len suffix) (u64_sub len 1))
              | None \<Rightarrow>
                  Inl (InvalidRange ''Cannot determine suffix range without content length'')))
      else Inl (InvalidRange ''Empty range specification''))"

definition parse_single_range_spec :: "string \<Rightarrow> u64 option \<Rightarrow> ProxyError + RangeSpec" where
  "parse_single_range_spec range_spec content_length =
     (if CHR ''-'' \<in> set range_spec then
        (let parts = split_char (CHR ''-'') range_spec
         in if length parts \<noteq> 2 then
              Inl (InvalidRange ''Range specification must contain exactly one dash'')
            else range_of_parts (trim (parts ! 0)) (trim (parts ! 1)) content_length)
      else Inl (InvalidRange ''Range specification must contain a dash''))"

text \<open>The loop over the comma-separated specifications returns at the first error.\<close>

fun parse_range_specs :: "string list \<Rightarrow> u64 option \<Rightarrow> ProxyError + RangeSpec list" where
  "parse_range_specs [] content_length = Inr []"
| "parse_range_specs (spec # specs) content_length =
     (case parse_single_range_spec (trim spec) content_length of
        Inl e \<Rightarrow> Inl e
      | Inr r \<Rightarrow>
          (case parse_range_specs specs content_length of
             Inl e \<Rightarrow> Inl e
           | Inr rs \<Rightarrow> Inr (r # rs)))"

definition parse_range_header :: "string \<Rightarrow> u64 option \<Rightarrow> RangeParseResult" where
  "parse_range_header range_header content_length =
     (if \<not> starts_with ''bytes='' range_header then
        Invalid (''Range header must start with '' @ [CHR 0x27] @ ''bytes='' @ [CHR 0x27])
      else
        let range_specs = split_char (CHR '','') (drop 6 range_header)
        in if range_specs = [] then Invalid ''No range specifications found''
           else (case parse_range_specs range_specs content_length of
                   Inl e \<Rightarrow> Invalid (''Invalid range specification: '' @ show_error e)
                 | Inr [] \<Rightarrow> Invalid ''No valid range specifications''
                 | Inr [r] \<Rightarrow> SingleRange r
                 | Inr rs \<Rightarrow> MultipleRanges rs))"

definition signed_client_range_covers :: "string \<Rightarrow> RangeSpec \<Rightarrow> bool option" where
  "signed_client_range_covers raw requested =
     (case strip_prefix ''bytes='' (trim raw) of
        None \<Rightarrow> None
      | Some spec \<Rightarrow>
          (case split_once (CHR ''-'') (trim spec) of
             None \<Rightarrow> None
           | Some (s, e) \<Rightarrow>
               if s = [] \<or> e = [] then None
               else (case parse_u64 (trim s) of
                       None \<Rightarrow> None
                     | Some start \<Rightarrow>
                         (case parse_u64 (trim e) of
                            None \<Rightarrow> None
                          | Some end' \<Rightarrow>
                              Some (start = r_start requested \<and> end' = r_end requested)))))"

definition validate_range_request :: "RangeSpec \<Rightarrow> u64 \<Rightarrow> ProxyError + unit" where
  "validate_range_request r content_length =
     (if r_start r \<ge> content_length then Inl (InvalidRange ''Range start exceeds content length'')
      else if r_end r \<ge> content_length then Inl (InvalidRange ''Range end exceeds content length'')
      else if r_start r > r_end r then
        Inl (InvalidRange ''Range start cannot be greater than end'')
      else Inr ())"

definition build_content_range_header :: "RangeSpec \<Rightarrow> u64 \<Rightarrow> string" where
  "build_content_range_header r content_length =
     ''bytes '' @ show_nat (r_start r) @ ''-'' @ show_nat (r_end r) @ ''/'' @
     show_nat content_length"

section \<open>Sets of ranges\<close>

definition ranges_overlap :: "RangeSpec \<Rightarrow> RangeSpec \<Rightarrow> bool" where
  "ranges_overlap range1 range2 =
     (\<not> (r_end range1 < r_start range2 \<or> r_end range2 < r_start range1))"

fun merge_loop :: "RangeSpec \<Rightarrow> RangeSpec list \<Rightarrow> RangeSpec list" where
  "merge_loop current [] = [current]"
| "merge_loop current (r # rest) =
     (if saturating_add (r_end current) 1 \<ge> r_start r
      then merge_loop (current\<lparr> r_end := max (r_end current) (r_end r) \<rparr>) rest
      else current # merge_loop r rest)"

definition merge_ranges :: "RangeSpec list \<Rightarrow> RangeSpec list" where
  "merge_ranges ranges =
     (case sort_key r_start ranges of
        [] \<Rightarrow> []
      | current # rest \<Rightarrow> merge_loop current rest)"

fun missing_loop :: "u64 \<Rightarrow> RangeSpec list \<Rightarrow> u64 \<Rightarrow> RangeSpec list" where
  "missing_loop current_pos [] req_end =
     (if current_pos \<le> req_end then [mk_range current_pos req_end] else [])"
| "missing_loop current_pos (c # cs) req_end =
     (let rest = missing_loop (max current_pos (u64_add (r_end c) 1)) cs req_end
      in if current_pos < r_start c
         then mk_range current_pos (r_start c - 1) # rest else rest)"

definition calculate_missing_ranges :: "RangeSpec \<Rightarrow> RangeSpec list \<Rightarrow> RangeSpec list" where
  "calculate_missing_ranges requested covered =
     (if covered = [] then [requested]
      else missing_loop (r_start requested) (merge_ranges covered) (r_end requested))"

fun consolidate_loop :: "u64 \<Rightarrow> RangeSpec \<Rightarrow> RangeSpec list \<Rightarrow> RangeSpec list" where
  "consolidate_loop max_gap_size current [] = [current]"
| "consolidate_loop max_gap_size current (r # rest) =
     (let gap = (if r_start r > r_end current then r_start r - r_end current - 1 else 0)
      in if gap \<le> max_gap_size
         then consolidate_loop max_gap_size
                (current\<lparr> r_end := max (r_end current) (r_end r) \<rparr>) rest
         else current # consolidate_loop max_gap_size r rest)"

definition consolidate_missing_ranges :: "RangeSpec list \<Rightarrow> u64 \<Rightarrow> RangeSpec list" where
  "consolidate_missing_ranges missing_ranges max_gap_size =
     (if length missing_ranges \<le> 1 then missing_ranges
      else (case sort_key r_start missing_ranges of
              [] \<Rightarrow> []
            | current # rest \<Rightarrow> consolidate_loop max_gap_size current rest))"

section \<open>Page widening (http_proxy.rs)\<close>

datatype Target = TPages "(u64 \<times> u64) list" RangeSpec | TSizeUnknownSuffix u64

text \<open>
  The first half of \<open>try_widened_range_request\<close>: \<open>Some None\<close> is the early return that leaves
  the request to the path without widening, \<open>None\<close> a panic.
\<close>

definition widening_target ::
    "bool \<Rightarrow> string \<Rightarrow> u64 option \<Rightarrow> u64 \<Rightarrow> Target option option" where
  "widening_target range_signed range_header content_length page_size =
     (if range_signed then Some None
      else
        let trimmed = trim range_header
        in case strip_prefix ''bytes=-'' trimmed of
             Some n_str \<Rightarrow>
               (case parse_u64 n_str of
                  None \<Rightarrow> Some None
                | Some n \<Rightarrow>
                    if n = 0 then Some None
                    else if n \<ge> page_size then Some None
                    else (case content_length of
                            Some sz \<Rightarrow>
                              (case suffix_page_target n page_size (Some sz) of
                                 Some (Pages pages) \<Rightarrow>
                                   Some (Some (TPages pages
                                     (mk_range (saturating_sub sz n) (u64_sub sz 1))))
                               | _ \<Rightarrow> None)
                          | None \<Rightarrow> Some (Some (TSizeUnknownSuffix n))))
           | None \<Rightarrow>
               (case parse_range_header trimmed content_length of
                  SingleRange range_spec \<Rightarrow>
                    if range_len range_spec \<ge> page_size then Some None
                    else
                      let sz = (case content_length of Some sz \<Rightarrow> sz | None \<Rightarrow> u64_max)
                      in (case overlapping_pages (r_start range_spec) (r_end range_spec)
                                 page_size sz of
                            None \<Rightarrow> None
                          | Some pages \<Rightarrow> Some (Some (TPages pages range_spec)))
                | _ \<Rightarrow> Some None))"

section \<open>Merging and consolidation\<close>

definition range_bytes :: "RangeSpec \<Rightarrow> nat set" where
  "range_bytes r = {r_start r..r_end r}"

definition ranges_bytes :: "RangeSpec list \<Rightarrow> nat set" where
  "ranges_bytes rs = (\<Union>r \<in> set rs. range_bytes r)"

definition range_ok :: "RangeSpec \<Rightarrow> bool" where
  "range_ok r \<longleftrightarrow> r_start r \<le> r_end r \<and> r_end r < u64_mod"

text \<open>Sorted, and with more than \<open>gap\<close> bytes between two neighbours.\<close>

definition separated :: "nat \<Rightarrow> RangeSpec list \<Rightarrow> bool" where
  "separated gap rs \<longleftrightarrow> sorted_wrt (\<lambda>a b. r_end a + gap + 1 < r_start b) rs"

named_theorems range_defs \<open>the byte-set reading of ranges\<close>

lemmas [range_defs] = range_bytes_def range_ok_def

lemma ranges_bytes_simps [simp]:
  "ranges_bytes [] = {}"
  "ranges_bytes (r # rs) = range_bytes r \<union> ranges_bytes rs"
  "ranges_bytes (rs @ rs') = ranges_bytes rs \<union> ranges_bytes rs'"
  by (auto simp: ranges_bytes_def)

lemma ranges_bytes_sort [simp]: "ranges_bytes (sort_key f rs) = ranges_bytes rs"
  by (simp add: ranges_bytes_def)

lemma separated_simps [simp]:
  "separated g []"
  "separated g (r # rs) \<longleftrightarrow> (\<forall>q \<in> set rs. r_end r + g + 1 < r_start q) \<and> separated g rs"
  by (auto simp: separated_def)

lemma ranges_overlap_iff:
  "range_ok a \<Longrightarrow> range_ok b \<Longrightarrow> ranges_overlap a b \<longleftrightarrow> range_bytes a \<inter> range_bytes b \<noteq> {}"
  by (auto simp: ranges_overlap_def range_ok_def range_bytes_def)

text \<open>\<open>merge_loop\<close> is \<open>consolidate_loop\<close> with no gap allowed.\<close>

lemma merge_loop_consolidate:
  "\<forall>r \<in> set rs. r_start r < u64_mod \<Longrightarrow> merge_loop c rs = consolidate_loop 0 c rs"
  by (induction rs arbitrary: c) (auto simp: saturating_add_def Let_def)

lemma consolidate_loop_hd:
  "\<exists>e os. consolidate_loop g c rs = mk_range (r_start c) e # os \<and> r_end c \<le> e"
proof (induction rs arbitrary: c)
  case Nil
  show ?case by (cases c) auto
next
  case (Cons r rs)
  from Cons [of "c\<lparr> r_end := max (r_end c) (r_end r) \<rparr>"] show ?case
    by (cases c) (auto simp: Let_def)
qed

lemma consolidate_loop_separated:
  assumes "sorted (map r_start (c # rs))" "\<forall>r \<in> set (c # rs). range_ok r"
  shows "separated g (consolidate_loop g c rs) \<and>
         (\<forall>r \<in> set (consolidate_loop g c rs). range_ok r \<and> r_start c \<le> r_start r)"
  using assms
proof (induction rs arbitrary: c)
  case (Cons r rs)
  show ?case
  proof (cases "(if r_start r > r_end c then r_start r - r_end c - 1 else 0) \<le> g")
    case True
    have "range_ok (c\<lparr> r_end := max (r_end c) (r_end r) \<rparr>)"
      using Cons.prems by (auto simp: range_ok_def)
    with True Cons.IH [of "c\<lparr> r_end := max (r_end c) (r_end r) \<rparr>"] Cons.prems show ?thesis
      by (simp add: Let_def)
  next
    case False
    then have "r_end c + g + 1 < r_start r" by (simp split: if_splits)
    with False Cons.IH [of r] Cons.prems show ?thesis
      by (fastforce simp: Let_def)
  qed
qed simp

lemma consolidate_loop_superset:
  "sorted (map r_start (c # rs)) \<Longrightarrow>
     ranges_bytes (c # rs) \<subseteq> ranges_bytes (consolidate_loop g c rs)"
proof (induction rs arbitrary: c)
  case (Cons r rs)
  let ?c = "c\<lparr> r_end := max (r_end c) (r_end r) \<rparr>"
  have "range_bytes c \<union> range_bytes r \<subseteq> range_bytes ?c"
    using Cons.prems by (auto simp: range_bytes_def)
  moreover have "sorted (map r_start (?c # rs))" "sorted (map r_start (r # rs))"
    using Cons.prems by auto
  ultimately show ?case using Cons.IH [of ?c] Cons.IH [of r] by (auto simp: Let_def)
qed simp

text \<open>A byte that consolidation adds is at most \<open>g\<close> bytes after a byte of the input.\<close>

lemma consolidate_loop_extra:
  assumes "\<forall>r \<in> set (c # rs). range_ok r" "sorted (map r_start (c # rs))"
    and "x \<in> ranges_bytes (consolidate_loop g c rs)"
  shows "x \<in> ranges_bytes (c # rs) \<or> (\<exists>y \<in> ranges_bytes (c # rs). y < x \<and> x \<le> y + g)"
  using assms
proof (induction rs arbitrary: c)
  case (Cons r rs)
  let ?c = "c\<lparr> r_end := max (r_end c) (r_end r) \<rparr>"
  have oks: "range_ok c" "range_ok r" "r_start c \<le> r_start r" using Cons.prems by simp_all
  show ?case
  proof (cases "(if r_start r > r_end c then r_start r - r_end c - 1 else 0) \<le> g")
    case False
    with Cons.prems have "x \<in> range_bytes c \<or> x \<in> ranges_bytes (consolidate_loop g r rs)"
      by (auto simp: Let_def)
    with Cons.IH [of r] Cons.prems show ?thesis by auto
  next
    case True
    have ends: "r_end c \<in> range_bytes c" "r_end r \<in> range_bytes r"
      using oks by (auto simp: range_ok_def range_bytes_def)
    have step: "x \<in> range_bytes c \<or> x \<in> range_bytes r \<or> r_end c < x \<and> x \<le> r_end c + g"
      if "x \<in> range_bytes ?c" for x
      using that True oks by (auto simp: range_bytes_def range_ok_def split: if_splits)
    have "range_ok ?c" using oks by (auto simp: range_ok_def)
    with True Cons.IH [of ?c] Cons.prems
    have "x \<in> ranges_bytes (?c # rs) \<or> (\<exists>y \<in> ranges_bytes (?c # rs). y < x \<and> x \<le> y + g)"
      by (simp add: Let_def)
    then consider "x \<in> range_bytes ?c" | "x \<in> ranges_bytes rs"
      | y where "y \<in> range_bytes ?c" "y < x" "x \<le> y + g" "x \<notin> range_bytes ?c"
      | y where "y \<in> ranges_bytes rs" "y < x" "x \<le> y + g"
      by auto
    then show ?thesis
    proof cases
      case 1
      from step [OF this] ends show ?thesis by auto
    next
      case (3 y)
      then have "max (r_end c) (r_end r) < x" "y \<le> max (r_end c) (r_end r)"
        using oks by (auto simp: range_bytes_def)
      moreover have "max (r_end c) (r_end r) \<in> ranges_bytes (c # r # rs)"
        using ends by (simp add: max_def)
      ultimately show ?thesis using 3(3) by (intro disjI2 bexI [of _ "max (r_end c) (r_end r)"]) auto
    qed auto
  qed
qed simp

lemma consolidate_loop_length: "length (consolidate_loop g c rs) \<le> Suc (length rs)"
  by (induction rs arbitrary: c) (simp_all add: Let_def le_SucI)

text \<open>\<open>merge_ranges\<close> gives separated ranges with the same bytes.\<close>

lemma merge_ranges_consolidate:
  assumes "\<forall>r \<in> set rs. range_ok r"
  shows "merge_ranges rs =
    (case sort_key r_start rs of [] \<Rightarrow> [] | c # cs \<Rightarrow> consolidate_loop 0 c cs)"
proof (cases "sort_key r_start rs")
  case (Cons c cs)
  then have "set cs \<subseteq> set rs" by (metis set_sort set_subset_Cons)
  with assms have "\<forall>r \<in> set cs. r_start r < u64_mod" by (fastforce simp: range_ok_def)
  with Cons show ?thesis by (simp add: merge_ranges_def merge_loop_consolidate)
qed (simp add: merge_ranges_def)

lemma merge_ranges_props:
  assumes "\<forall>r \<in> set rs. range_ok r"
  shows "ranges_bytes (merge_ranges rs) = ranges_bytes rs" "separated 0 (merge_ranges rs)"
    "\<forall>r \<in> set (merge_ranges rs). range_ok r"
proof -
  have "ranges_bytes (merge_ranges rs) = ranges_bytes rs \<and> separated 0 (merge_ranges rs) \<and>
        (\<forall>r \<in> set (merge_ranges rs). range_ok r)"
  proof (cases "sort_key r_start rs")
    case Nil
    then show ?thesis by (metis list.simps(4) list.set(1) merge_ranges_def ranges_bytes_sort
          empty_iff separated_simps(1))
  next
    case (Cons c cs)
    have sorted: "sorted (map r_start (c # cs))" using Cons by (metis sorted_sort_key)
    have ok: "\<forall>r \<in> set (c # cs). range_ok r" using assms Cons by (metis set_sort)
    have "ranges_bytes (consolidate_loop 0 c cs) = ranges_bytes (c # cs)"
      using consolidate_loop_superset [OF sorted, of 0] consolidate_loop_extra [OF ok sorted]
      by fastforce
    also have "\<dots> = ranges_bytes rs" using Cons by (metis ranges_bytes_sort)
    finally show ?thesis
      using consolidate_loop_separated [OF sorted ok, of 0]
      by (simp add: merge_ranges_consolidate [OF assms] Cons)
  qed
  then show "ranges_bytes (merge_ranges rs) = ranges_bytes rs" "separated 0 (merge_ranges rs)"
    "\<forall>r \<in> set (merge_ranges rs). range_ok r" by blast+
qed

text \<open>Separated ranges are determined by their bytes.\<close>

lemma separated_after:
  "separated 0 (a # xs) \<Longrightarrow> x \<in> ranges_bytes xs \<Longrightarrow> r_end a + 1 < x"
  by (fastforce simp: ranges_bytes_def range_bytes_def)

lemma separated_least:
  assumes "separated 0 (a # xs)" "range_ok a" "x \<in> ranges_bytes (a # xs)"
  shows "r_start a \<le> x"
  using assms separated_after [of a xs x] by (auto simp: range_bytes_def range_ok_def)

lemma separated_end_le:
  assumes "separated 0 (a # xs)" "range_ok a" "range_ok b" "r_start a = r_start b"
    "ranges_bytes (a # xs) = ranges_bytes (b # ys)"
  shows "r_end b \<le> r_end a"
proof (rule ccontr)
  assume "\<not> r_end b \<le> r_end a"
  then have "r_end a + 1 \<in> ranges_bytes (b # ys)"
    using assms(2,4) by (auto simp: range_bytes_def range_ok_def)
  then have "r_end a + 1 \<in> ranges_bytes (a # xs)" using assms(5) by simp
  then show False using separated_after [OF assms(1)] by (auto simp: range_bytes_def)
qed

lemma separated_unique:
  assumes "separated 0 xs" "separated 0 ys" "\<forall>r \<in> set xs. range_ok r" "\<forall>r \<in> set ys. range_ok r"
    "ranges_bytes xs = ranges_bytes ys"
  shows "xs = ys"
  using assms
proof (induction xs arbitrary: ys)
  case Nil
  then show ?case by (cases ys) (auto simp: range_bytes_def range_ok_def)
next
  case (Cons a xs)
  then obtain b zs where ys: "ys = b # zs"
    by (cases ys) (auto simp: range_bytes_def range_ok_def)
  have ok: "range_ok a" "range_ok b" using Cons.prems ys by simp_all
  have "r_start a \<in> ranges_bytes (a # xs)" "r_start b \<in> ranges_bytes (b # zs)"
    using ok by (auto simp: range_bytes_def range_ok_def)
  then have start: "r_start a = r_start b"
    using separated_least [of a xs "r_start b"] separated_least [of b zs "r_start a"] ok
      Cons.prems ys by (metis le_antisym)
  then have "r_end a = r_end b"
    using separated_end_le [of a xs b zs] separated_end_le [of b zs a xs] ok Cons.prems ys
    by (metis le_antisym)
  with start have "a = b" by (cases a, cases b) simp
  moreover have "ranges_bytes xs = ranges_bytes zs"
  proof -
    have "ranges_bytes xs = ranges_bytes (a # xs) - range_bytes a"
      using separated_after [OF Cons.prems(1)] by (fastforce simp: range_bytes_def)
    moreover have "ranges_bytes zs = ranges_bytes (b # zs) - range_bytes b"
      using separated_after [of b zs] Cons.prems(2) ys by (fastforce simp: range_bytes_def)
    ultimately show ?thesis using Cons.prems(5) ys \<open>a = b\<close> by simp
  qed
  ultimately show ?case using Cons ys by simp
qed

text \<open>
  C8: \<open>merge_ranges\<close> computes the canonical form of a set of byte ranges. Its output
  covers exactly the bytes of its input, is sorted with at least one uncovered byte between
  neighbours, and two inputs in whatever order and overlap that cover the same bytes give the
  same output.
\<close>

theorem merge_ranges_canonical:
  assumes "\<forall>r \<in> set xs. range_ok r" "\<forall>r \<in> set ys. range_ok r"
  shows "ranges_bytes (merge_ranges xs) = ranges_bytes xs \<and> separated 0 (merge_ranges xs) \<and>
         (merge_ranges xs = merge_ranges ys \<longleftrightarrow> ranges_bytes xs = ranges_bytes ys)"
  using merge_ranges_props [OF assms(1)] merge_ranges_props [OF assms(2)]
    separated_unique [of "merge_ranges xs" "merge_ranges ys"] by metis

theorem merge_ranges_canonical_witness:
  "merge_ranges [mk_range 5 9, mk_range 0 4, mk_range 20 30] =
   merge_ranges [mk_range 20 30, mk_range 0 9, mk_range 3 7]"
proof -
  have "ranges_bytes [mk_range 5 9, mk_range 0 4, mk_range 20 30] =
        ranges_bytes [mk_range 20 30, mk_range 0 9, mk_range 3 7]"
    by (auto simp: range_bytes_def)
  then show ?thesis
    using merge_ranges_canonical [of "[mk_range 5 9, mk_range 0 4, mk_range 20 30]"
        "[mk_range 20 30, mk_range 0 9, mk_range 3 7]"]
    by (simp add: range_ok_def)
qed

section \<open>Missing ranges\<close>

lemma missing_loop_props:
  assumes "separated 0 cs" "\<forall>c \<in> set cs. range_ok c \<and> r_end c \<le> e" "e < u64_max"
  shows "ranges_bytes (missing_loop pos cs e) = {pos..e} - ranges_bytes cs \<and>
         separated 0 (missing_loop pos cs e) \<and>
         (\<forall>m \<in> set (missing_loop pos cs e). range_ok m \<and> pos \<le> r_start m \<and> r_end m \<le> e)"
  using assms
proof (induction cs arbitrary: pos)
  case Nil
  then show ?case by (auto simp: range_bytes_def range_ok_def)
next
  case (Cons c cs)
  have c: "r_start c \<le> r_end c" "r_end c \<le> e" "e < u64_max"
    using Cons.prems by (auto simp: range_ok_def)
  then have next_pos: "u64_add (r_end c) 1 = r_end c + 1" by (simp add: u64_add_exact)
  let ?pos = "max pos (r_end c + 1)"
  let ?rest = "missing_loop ?pos cs e"
  have IH: "ranges_bytes ?rest = {?pos..e} - ranges_bytes cs" "separated 0 ?rest"
    "\<forall>m \<in> set ?rest. range_ok m \<and> ?pos \<le> r_start m \<and> r_end m \<le> e"
    using Cons.IH [of ?pos] Cons.prems by simp_all
  have after: "x \<in> ranges_bytes cs \<Longrightarrow> r_end c + 1 < x" for x
    using separated_after [OF Cons.prems(1)] .
  show ?case
  proof (cases "pos < r_start c")
    case True
    have "ranges_bytes (missing_loop pos (c # cs) e) =
          {pos..r_start c - 1} \<union> ({?pos..e} - ranges_bytes cs)"
      using True IH(1) by (simp add: next_pos [simplified] range_bytes_def)
    also have "\<dots> = {pos..e} - ranges_bytes (c # cs)"
      using True c after by (fastforce simp: range_bytes_def)
    finally show ?thesis
      using True IH(2,3) c by (fastforce simp: next_pos [simplified] range_ok_def)
  next
    case False
    have "{?pos..e} - ranges_bytes cs = {pos..e} - ranges_bytes (c # cs)"
      using False after by (fastforce simp: range_bytes_def)
    with False IH show ?thesis by (simp add: next_pos [simplified])
  qed
qed

text \<open>
  C6: The missing ranges of a lookup are exact: together they hold precisely the requested
  bytes that no covered range holds, they are pairwise disjoint, non-empty, in order and
  inside the request, and the list is empty (the condition under which the response is served
  from the cache) exactly when every requested byte is covered.
\<close>

theorem calculate_missing_ranges_exact:
  assumes req: "r_start requested \<le> r_end requested" "r_end requested < u64_max"
    and cov: "\<forall>c \<in> set covered. range_ok c \<and> range_bytes c \<subseteq> range_bytes requested"
  shows "ranges_bytes (calculate_missing_ranges requested covered) =
           range_bytes requested - ranges_bytes covered \<and>
         separated 0 (calculate_missing_ranges requested covered) \<and>
         (\<forall>m \<in> set (calculate_missing_ranges requested covered).
            range_ok m \<and> range_bytes m \<subseteq> range_bytes requested) \<and>
         (calculate_missing_ranges requested covered = [] \<longleftrightarrow>
            range_bytes requested \<subseteq> ranges_bytes covered)"
proof -
  let ?m = "calculate_missing_ranges requested covered"
  have oks: "\<forall>c \<in> set covered. range_ok c" using cov by blast
  have "ranges_bytes ?m = range_bytes requested - ranges_bytes covered \<and> separated 0 ?m \<and>
        (\<forall>m \<in> set ?m. range_ok m \<and> r_start requested \<le> r_start m \<and> r_end m \<le> r_end requested)"
  proof (cases "covered = []")
    case True
    then show ?thesis
      using req by (simp add: calculate_missing_ranges_def range_ok_def)
  next
    case False
    have ends: "\<forall>c \<in> set (merge_ranges covered). range_ok c \<and> r_end c \<le> r_end requested"
    proof
      fix c assume c: "c \<in> set (merge_ranges covered)"
      with merge_ranges_props(3) [OF oks] have "range_ok c" by blast
      then have "r_end c \<in> ranges_bytes (merge_ranges covered)"
        using c by (auto simp: ranges_bytes_def range_bytes_def range_ok_def)
      then have "r_end c \<in> range_bytes requested"
        using merge_ranges_props(1) [OF oks] cov by (auto simp: ranges_bytes_def)
      with \<open>range_ok c\<close> show "range_ok c \<and> r_end c \<le> r_end requested"
        by (simp add: range_bytes_def)
    qed
    from missing_loop_props [OF merge_ranges_props(2) [OF oks] ends req(2)]
    show ?thesis
      using False merge_ranges_props(1) [OF oks]
      by (simp add: calculate_missing_ranges_def range_bytes_def)
  qed
  moreover from this have "?m = [] \<longleftrightarrow> ranges_bytes ?m = {}"
    by (cases ?m) (auto simp: range_bytes_def range_ok_def)
  ultimately show ?thesis by (auto simp: range_bytes_def)
qed

theorem calculate_missing_ranges_exact_witness:
  "ranges_bytes (calculate_missing_ranges (mk_range 0 99) [mk_range 40 59, mk_range 10 19]) =
     {0..99} - ({40..59} \<union> {10..19}) \<and>
   calculate_missing_ranges (mk_range 0 99) [mk_range 40 59, mk_range 10 19] =
     [mk_range 0 9, mk_range 20 39, mk_range 60 99]"
  using calculate_missing_ranges_exact [of "mk_range 0 99" "[mk_range 40 59, mk_range 10 19]"]
  by (simp add: range_ok_def range_bytes_def calculate_missing_ranges_def merge_ranges_def
      saturating_add_def u64_add_def)

text \<open>
  C9: Consolidating missing ranges loses no missing byte, adds only bytes at most
  \<open>max_gap_size\<close> behind a missing byte, never asks for more requests than before, and leaves
  more than \<open>max_gap_size\<close> bytes between any two of its ranges; with a gap of 0 it only
  joins ranges that touch and the set of bytes is unchanged.
\<close>

theorem consolidate_missing_ranges_cover:
  assumes ok: "\<forall>r \<in> set rs. range_ok r"
  shows "ranges_bytes rs \<subseteq> ranges_bytes (consolidate_missing_ranges rs g) \<and>
         (\<forall>x \<in> ranges_bytes (consolidate_missing_ranges rs g) - ranges_bytes rs.
            \<exists>y \<in> ranges_bytes rs. y < x \<and> x \<le> y + g) \<and>
         length (consolidate_missing_ranges rs g) \<le> length rs \<and>
         separated g (consolidate_missing_ranges rs g)"
proof (cases "length rs \<le> 1")
  case True
  then show ?thesis by (cases rs) (simp_all add: consolidate_missing_ranges_def)
next
  case False
  then have "sort_key r_start rs \<noteq> []" by (metis length_sort list.size(3) zero_le)
  then obtain c cs where cs: "sort_key r_start rs = c # cs" by (cases "sort_key r_start rs") auto
  have sorted: "sorted (map r_start (c # cs))" using cs by (metis sorted_sort_key)
  have oks: "\<forall>r \<in> set (c # cs). range_ok r" using ok cs by (metis set_sort)
  have bytes: "ranges_bytes (c # cs) = ranges_bytes rs" using cs by (metis ranges_bytes_sort)
  have "length rs = Suc (length cs)" using cs by (metis length_Cons length_sort)
  then show ?thesis
    using False cs consolidate_loop_superset [OF sorted, of g, unfolded bytes]
      consolidate_loop_extra [OF oks sorted, of _ g, unfolded bytes]
      consolidate_loop_separated [OF sorted oks, of g] consolidate_loop_length [of g c cs]
    by (auto simp: consolidate_missing_ranges_def bytes)
qed

theorem consolidate_missing_ranges_cover_witness:
  "ranges_bytes [mk_range 0 9, mk_range 20 29, mk_range 500 599] \<subseteq>
     ranges_bytes (consolidate_missing_ranges
       [mk_range 0 9, mk_range 20 29, mk_range 500 599] 16) \<and>
   consolidate_missing_ranges [mk_range 0 9, mk_range 20 29, mk_range 500 599] 16 =
     [mk_range 0 29, mk_range 500 599]"
  using consolidate_missing_ranges_cover
    [of "[mk_range 0 9, mk_range 20 29, mk_range 500 599]" 16]
  by (simp add: range_ok_def consolidate_missing_ranges_def)

section \<open>Slices\<close>

lemma range_len_ok: "range_ok r \<Longrightarrow> r_end r - r_start r < u64_max \<Longrightarrow>
    range_len r = r_end r + 1 - r_start r"
  by (auto simp: range_ok_def range_len_def u64_add_def u64_sub_def)

lemma validate_slice_bounds_ok:
  assumes "range_ok r" "range_ok c" "r_end c < u64_max" "validate_slice_bounds r c n = Inr ()"
  shows "range_bytes r \<subseteq> range_bytes c \<and> n = card (range_bytes c) \<and>
         slice_offset_in r c + slice_length r \<le> n \<and>
         (\<forall>i < slice_length r. r_start c + (slice_offset_in r c + i) = r_start r + i)"
  using assms
  by (auto simp: validate_slice_bounds_def range_ok_def range_bytes_def slice_offset_in_def
      slice_length_def Let_def u64_add_def u64_sub_def split: if_splits)

section \<open>Pages\<close>

definition pages_bytes :: "(u64 \<times> u64) list \<Rightarrow> nat set" where
  "pages_bytes ps = (\<Union>(s, e) \<in> set ps. {s..e})"

lemma pages_bytes_simps [simp]:
  "pages_bytes [] = {}"
  "pages_bytes (pg # ps) = {fst pg..snd pg} \<union> pages_bytes ps"
  by (auto simp: pages_bytes_def)

text \<open>Page number \<open>q\<close> of the grid, clamped to the object.\<close>

definition grid_page :: "nat \<Rightarrow> nat \<Rightarrow> nat \<Rightarrow> nat \<times> nat" where
  "grid_page p sz q = (q * p, min (q * p + p - 1) (sz - 1))"

lemma page_bounds_Some:
  assumes "0 < p" "start < sz" "sz < u64_mod" "start + p \<le> u64_mod"
  shows "page_bounds start p sz = Some (grid_page p sz (start div p))"
proof -
  have le: "start div p * p \<le> start" by simp
  have mul: "u64_mul (start div p) p = start div p * p"
    using assms(2,3) by (intro u64_mul_exact le_less_trans [OF le]) simp
  have "min (u64_sub (u64_add (start div p * p) p) 1) (sz - 1) =
        min (start div p * p + p - 1) (sz - 1)"
  proof (cases "start div p * p + p < u64_mod")
    case True
    then show ?thesis using assms by (simp add: u64_add_exact u64_sub_exact)
  next
    case False
    with le assms(4) have "start div p * p + p = u64_mod" by linarith
    then show ?thesis using assms by (simp add: u64_add_def u64_sub_def)
  qed
  with assms mul show ?thesis by (simp add: page_bounds_def Let_def u64_sub_exact grid_page_def)
qed

lemma page_interval:
  assumes "0 < (p :: nat)"
  shows "x \<in> {q * p..q * p + p - 1} \<longleftrightarrow> x div p = q"
proof
  assume "x \<in> {q * p..q * p + p - 1}"
  then have "p * q \<le> x" "x < p * Suc q" using assms by (auto simp: algebra_simps)
  then show "x div p = q" by (rule div_nat_eqI)
next
  assume "x div p = q"
  then have "x = q * p + x mod p" by (metis div_mult_mod_eq)
  moreover have "x mod p < p" using assms by simp
  ultimately show "x \<in> {q * p..q * p + p - 1}" unfolding atLeastAtMost_iff by linarith
qed

lemma grid_page_bytes:
  assumes "0 < p" "0 < sz"
  shows "{fst (grid_page p sz q)..snd (grid_page p sz q)} = {x. x < sz \<and> x div p = q}"
proof (rule set_eqI)
  fix x
  have "x \<in> {q * p..min (q * p + p - 1) (sz - 1)} \<longleftrightarrow> x < sz \<and> x \<in> {q * p..q * p + p - 1}"
    using assms(2) by auto
  then show "x \<in> {fst (grid_page p sz q)..snd (grid_page p sz q)} \<longleftrightarrow>
             x \<in> {x. x < sz \<and> x div p = q}"
    unfolding page_interval [OF assms(1)] grid_page_def fst_conv snd_conv by blast
qed

lemma grid_page_aligned:
  assumes "0 < p" "x < sz"
  shows "p dvd fst (grid_page p sz (x div p)) \<and>
         fst (grid_page p sz (x div p)) \<le> snd (grid_page p sz (x div p)) \<and>
         snd (grid_page p sz (x div p)) < fst (grid_page p sz (x div p)) + p"
proof -
  have "x div p * p \<le> sz - 1" using assms(2) div_times_less_eq_dividend [of x p] by linarith
  moreover have "n \<le> min (n + p - 1) m \<and> min (n + p - 1) m < n + p" if "n \<le> m" for n m :: nat
    using that assms(1) by (auto simp: min_def)
  ultimately show ?thesis by (simp only: grid_page_def fst_conv snd_conv dvd_triv_right simp_thms)
qed

lemma overlapping_pages_Some:
  assumes "0 < p" "s \<le> e" "e < sz" "sz < u64_mod" "e + p \<le> u64_mod"
  shows "overlapping_pages s e p sz =
    Some (if s div p = e div p then [grid_page p sz (s div p)]
          else [grid_page p sz (s div p), grid_page p sz (e div p)])"
proof -
  have "grid_page p sz (e div p) = grid_page p sz (s div p) \<longleftrightarrow> s div p = e div p"
    using assms(1) by (auto simp: grid_page_def)
  then show ?thesis
    using assms page_bounds_Some [of p s sz] page_bounds_Some [of p e sz]
    by (simp add: overlapping_pages_def)
qed

lemma pages_bytes_overlapping:
  assumes "0 < p" "s \<le> e" "e < sz" "sz < u64_mod" "e + p \<le> u64_mod"
  obtains ps where "overlapping_pages s e p sz = Some ps" "length ps \<le> 2"
    "set ps \<subseteq> {grid_page p sz (s div p), grid_page p sz (e div p)}"
    "pages_bytes ps = {x. x < sz \<and> (x div p = s div p \<or> x div p = e div p)}"
proof -
  have "0 < sz" using assms by simp
  note page = grid_page_bytes [OF assms(1) this]
  show thesis
    by (rule that [OF overlapping_pages_Some [OF assms]])
      (cases "s div p = e div p"; simp add: page; blast)+
qed

lemma two_pages_cover:
  fixes p :: nat
  assumes "0 < p" "s \<le> e" "e < sz"
  shows "{s..e} \<subseteq> {x. x < sz \<and> (x div p = s div p \<or> x div p = e div p)} \<longleftrightarrow>
         e div p \<le> s div p + 1"
proof
  assume near: "e div p \<le> s div p + 1"
  show "{s..e} \<subseteq> {x. x < sz \<and> (x div p = s div p \<or> x div p = e div p)}"
  proof
    fix x assume "x \<in> {s..e}"
    then have "s div p \<le> x div p" "x div p \<le> e div p" "x < sz"
      using assms(3) by (simp_all add: div_le_mono)
    moreover from this near have "x div p = s div p \<or> x div p = e div p" by linarith
    ultimately show "x \<in> {x. x < sz \<and> (x div p = s div p \<or> x div p = e div p)}" by blast
  qed
next
  assume cover: "{s..e} \<subseteq> {x. x < sz \<and> (x div p = s div p \<or> x div p = e div p)}"
  show "e div p \<le> s div p + 1"
  proof (rule ccontr)
    assume far: "\<not> e div p \<le> s div p + 1"
    define x where "x = p * (s div p + 1)"
    have "s < x" using dividend_less_times_div [OF assms(1), of s] by (simp add: x_def)
    have "x \<le> p * (e div p)" unfolding x_def using far by (intro mult_le_mono2) linarith
    also have "\<dots> \<le> e" by simp
    finally have "x \<in> {s..e}" using \<open>s < x\<close> by simp
    then have "x div p = s div p \<or> x div p = e div p" using cover by blast
    moreover have "x div p = s div p + 1" using assms(1) by (simp add: x_def)
    ultimately show False using far by linarith
  qed
qed

text \<open>
  C10: The pages that widening fetches cover the requested bytes exactly when the range touches
  at most two pages of the grid; they are aligned, number at most two, and stay inside the
  object.
\<close>

theorem overlapping_pages_cover:
  assumes "0 < p" "s \<le> e" "e < sz" "sz < u64_mod" "e + p \<le> u64_mod"
  shows "\<exists>ps. overlapping_pages s e p sz = Some ps \<and> length ps \<le> 2 \<and>
           pages_bytes ps \<subseteq> {..<sz} \<and>
           (\<forall>pg \<in> set ps. p dvd fst pg \<and> fst pg \<le> snd pg \<and> snd pg < fst pg + p) \<and>
           ({s..e} \<subseteq> pages_bytes ps \<longleftrightarrow> e div p \<le> s div p + 1)"
proof -
  obtain ps where ps: "overlapping_pages s e p sz = Some ps" "length ps \<le> 2"
      "set ps \<subseteq> {grid_page p sz (s div p), grid_page p sz (e div p)}"
    and bytes: "pages_bytes ps = {x. x < sz \<and> (x div p = s div p \<or> x div p = e div p)}"
    using pages_bytes_overlapping [OF assms] .
  have "s < sz" using assms(2,3) by simp
  then have "\<forall>pg \<in> set ps. p dvd fst pg \<and> fst pg \<le> snd pg \<and> snd pg < fst pg + p"
    using ps(3) grid_page_aligned [of p s sz] grid_page_aligned [of p e sz] assms(1,3) by blast
  moreover have "pages_bytes ps \<subseteq> {..<sz}" by (auto simp: bytes)
  ultimately show ?thesis using ps(1,2) two_pages_cover [OF assms(1-3), folded bytes] by blast
qed

theorem overlapping_pages_cover_witness:
  "\<exists>ps. overlapping_pages 90 110 100 250 = Some ps \<and> length ps \<le> 2 \<and>
      {90..110} \<subseteq> pages_bytes ps"
  using overlapping_pages_cover [of 100 90 110 250] by auto

section \<open>Parsing\<close>

definition length_ok :: "u64 option \<Rightarrow> bool" where
  "length_ok content_length \<longleftrightarrow> (\<forall>n. content_length = Some n \<longrightarrow> 0 < n \<and> n < u64_mod)"

definition range_within :: "u64 option \<Rightarrow> RangeSpec \<Rightarrow> bool" where
  "range_within content_length r \<longleftrightarrow>
     range_ok r \<and> (\<forall>n. content_length = Some n \<longrightarrow> r_end r < n)"

lemma range_of_parts_None:
  assumes "range_of_parts p q None = Inr r"
  shows "parse_u64 q = Some (r_end r) \<and> r_start r \<le> r_end r"
  using assms unfolding range_of_parts_def by (auto split: if_splits option.splits)

lemma range_of_parts_Some:
  assumes "range_of_parts p q (Some n) = Inr r" "0 < n"
  shows "r_start r \<le> r_end r \<and> r_end r < n"
  using assms unfolding range_of_parts_def saturating_sub_minus
  by (auto simp: u64_sub_1 min_def split: if_splits option.splits)

lemma range_of_parts_within:
  assumes "range_of_parts p q content_length = Inr r" "length_ok content_length"
  shows "range_within content_length r"
proof (cases content_length)
  case None
  with assms(1) range_of_parts_None parse_u64_bound show ?thesis
    unfolding range_within_def range_ok_def by blast
next
  case (Some n)
  with assms(2) have "0 < n" "n < u64_mod" by (auto simp: length_ok_def)
  with Some assms(1) range_of_parts_Some [of p q n r] show ?thesis
    by (auto simp: range_within_def range_ok_def)
qed

lemma parse_single_within:
  "parse_single_range_spec s content_length = Inr r \<Longrightarrow> length_ok content_length \<Longrightarrow>
     range_within content_length r"
  unfolding parse_single_range_spec_def Let_def
  by (auto intro: range_of_parts_within split: if_splits)

lemma parse_range_specs_within:
  "parse_range_specs specs content_length = Inr rs \<Longrightarrow> length_ok content_length \<Longrightarrow>
     (\<forall>r \<in> set rs. range_within content_length r) \<and> length rs = length specs"
  by (induction specs arbitrary: rs)
    (auto split: sum.splits simp: parse_single_within)

lemma parse_range_header_cases:
  assumes "parse_range_header h content_length = res" "\<not> (\<exists>m. res = Invalid m)"
  obtains rs where "parse_range_specs (split_char (CHR '','') (drop 6 h)) content_length = Inr rs"
    "starts_with ''bytes='' h"
    "res = (case rs of [r] \<Rightarrow> SingleRange r | _ \<Rightarrow> MultipleRanges rs)"
  using assms
  by (auto simp: parse_range_header_def Let_def split: if_splits sum.splits list.splits)

lemma show_nat_no_dash [simp]: "CHR ''-'' \<notin> set (show_nat n)"
  by (rule show_nat_notin) simp

lemma show_nat_no_comma [simp]: "CHR '','' \<notin> set (show_nat n)"
  by (rule show_nat_notin) simp

lemma trim_absolute [simp]: "trim (show_nat a @ CHR ''-'' # show_nat b) = show_nat a @ CHR ''-'' # show_nat b"
  by (rule trim_graph) simp

lemma trim_open [simp]: "trim (show_nat a @ [CHR ''-'']) = show_nat a @ [CHR ''-'']"
  by (rule trim_graph) simp

lemma trim_suffix [simp]: "trim (CHR ''-'' # show_nat b) = CHR ''-'' # show_nat b"
  by (rule trim_graph) simp

lemma parse_single_absolute:
  "a < u64_mod \<Longrightarrow> b < u64_mod \<Longrightarrow> a \<le> b \<Longrightarrow>
     parse_single_range_spec (show_nat a @ CHR ''-'' # show_nat b) content_length =
     (case content_length of
        None \<Rightarrow> Inr (mk_range a b)
      | Some n \<Rightarrow> if a \<ge> n then Inl (InvalidRange ''Start position exceeds content length'')
                  else Inr (mk_range a (min b (n - 1))))"
  by (auto simp: parse_single_range_spec_def range_of_parts_def split_char_sep split_char_no_sep
      parse_u64_show_nat u64_sub_exact split: option.splits)

lemma parse_single_open:
  "a < u64_mod \<Longrightarrow>
     parse_single_range_spec (show_nat a @ [CHR ''-'']) (Some n) =
     (if a \<ge> n then Inl (InvalidRange ''Start position exceeds content length'')
      else Inr (mk_range a (n - 1)))"
  by (auto simp: parse_single_range_spec_def range_of_parts_def split_char_sep split_char_no_sep
      parse_u64_show_nat u64_sub_exact)

lemma parse_single_suffix:
  "b < u64_mod \<Longrightarrow> 0 < b \<Longrightarrow> 0 < n \<Longrightarrow>
     parse_single_range_spec (CHR ''-'' # show_nat b) (Some n) =
     Inr (mk_range (n - b) (n - 1))"
  by (simp add: parse_single_range_spec_def range_of_parts_def split_char_no_sep
      parse_u64_show_nat u64_sub_exact saturating_sub_minus)

lemma parse_range_header_one:
  "CHR '','' \<notin> set s \<Longrightarrow> trim s = s \<Longrightarrow>
     parse_range_header (''bytes='' @ s) content_length =
     (case parse_single_range_spec s content_length of
        Inl e \<Rightarrow> Invalid (''Invalid range specification: '' @ show_error e)
      | Inr r \<Rightarrow> SingleRange r)"
proof -
  assume s: "CHR '','' \<notin> set s" "trim s = s"
  have "starts_with ''bytes='' (''bytes='' @ s)" by (rule starts_with_append)
  with s show ?thesis
    by (simp add: parse_range_header_def split_char_no_sep Let_def split: sum.splits)
qed

text \<open>
  C11: The three forms of the \<open>Range\<close> header are read back as the bytes they denote: an
  absolute range is clamped to the object, an open range runs to its last byte and a suffix
  takes its last bytes (the whole object when it is shorter), and an absolute header is
  recognised by \<open>signed_client_range_covers\<close> as naming exactly its own range.
\<close>

theorem range_header_round_trip:
  assumes "a \<le> b" "b < u64_mod" "a < n" "n < u64_mod" "0 < k" "k < u64_mod"
  shows "parse_range_header (''bytes='' @ show_nat a @ ''-'' @ show_nat b) (Some n) =
           SingleRange (mk_range a (min b (n - 1))) \<and>
         parse_range_header (''bytes='' @ show_nat a @ ''-'' @ show_nat b) None =
           SingleRange (mk_range a b) \<and>
         parse_range_header (''bytes='' @ show_nat a @ ''-'') (Some n) =
           SingleRange (mk_range a (n - 1)) \<and>
         parse_range_header (''bytes=-'' @ show_nat k) (Some n) =
           SingleRange (mk_range (n - k) (n - 1)) \<and>
         signed_client_range_covers (''bytes='' @ show_nat a @ ''-'' @ show_nat b) r =
           Some (r = mk_range a b)"
proof -
  have abs: "parse_range_header (''bytes='' @ (show_nat a @ CHR ''-'' # show_nat b)) cl =
      (case cl of None \<Rightarrow> SingleRange (mk_range a b)
       | Some n \<Rightarrow> if a \<ge> n then Invalid (''Invalid range specification: '' @
             show_error (InvalidRange ''Start position exceeds content length''))
           else SingleRange (mk_range a (min b (n - 1))))" for cl
    using assms by (subst parse_range_header_one)
      (simp_all add: parse_single_absolute split: option.splits)
  have opn: "parse_range_header (''bytes='' @ (show_nat a @ [CHR ''-''])) (Some n) =
      SingleRange (mk_range a (n - 1))"
    using assms by (subst parse_range_header_one) (simp_all add: parse_single_open)
  have suf: "parse_range_header (''bytes='' @ (CHR ''-'' # show_nat k)) (Some n) =
      SingleRange (mk_range (n - k) (n - 1))"
    using assms by (subst parse_range_header_one) (simp_all add: parse_single_suffix)
  have trimmed: "trim (''bytes='' @ show_nat a @ CHR ''-'' # show_nat b) =
      ''bytes='' @ show_nat a @ CHR ''-'' # show_nat b"
    by (rule trim_graph) simp
  have "signed_client_range_covers (''bytes='' @ show_nat a @ CHR ''-'' # show_nat b) r =
      Some (r = mk_range a b)"
    unfolding signed_client_range_covers_def trimmed strip_prefix_append
    using assms by (cases r) (auto simp: split_once_sep parse_u64_show_nat)
  with abs [of "Some n"] abs [of None] opn suf assms show ?thesis by simp
qed

theorem range_header_round_trip_witness:
  "parse_range_header ''bytes=5-70'' (Some 20) = SingleRange (mk_range 5 19) \<and>
   parse_range_header ''bytes=-30'' (Some 20) = SingleRange (mk_range 0 19)"
proof -
  have "show_nat 5 = ''5''" "show_nat 70 = ''70''" "show_nat 30 = ''30''"
    by code_simp+
  with range_header_round_trip [of 5 70 20 30] show ?thesis by simp
qed

section \<open>Widening\<close>

lemma div_near: "0 < (p :: nat) \<Longrightarrow> e < s + p \<Longrightarrow> e div p \<le> s div p + 1"
  using div_le_mono [of e "s + p" p] by simp

lemma overlapping_pages_near:
  assumes "0 < p" "s \<le> e" "e < s + p" "e < sz" "sz < u64_mod" "e + p \<le> u64_mod"
    and "overlapping_pages s e p sz = Some ps"
  shows "length ps \<le> 2 \<and> {s..e} \<subseteq> pages_bytes ps \<and> pages_bytes ps \<subseteq> {..<sz}"
proof -
  obtain qs where qs: "overlapping_pages s e p sz = Some qs" "length qs \<le> 2"
    "pages_bytes qs = {x. x < sz \<and> (x div p = s div p \<or> x div p = e div p)}"
    using pages_bytes_overlapping [OF assms(1,2,4-6)] .
  have "{s..e} \<subseteq> pages_bytes qs"
    unfolding qs(3) using two_pages_cover [OF assms(1,2,4)] div_near [OF assms(1,3)] by blast
  moreover have "pages_bytes qs \<subseteq> {..<sz}" by (auto simp: qs(3))
  ultimately show ?thesis using qs(1,2) assms(7) by simp
qed

lemma widening_suffix:
  assumes "strip_prefix ''bytes=-'' (trim h) = Some n_str"
    and "widening_target signed h cl p = Some (Some (TPages ps r))"
  obtains n sz where "\<not> signed" "parse_u64 n_str = Some n" "0 < n" "n < p" "cl = Some sz"
    "suffix_page_target n p (Some sz) = Some (Pages ps)" "r = mk_range (sz - n) (u64_sub sz 1)"
  using assms
  by (auto simp: widening_target_def Let_def saturating_sub_minus
      split: if_splits option.splits SuffixPageTarget.splits)

lemma widening_absolute:
  assumes "strip_prefix ''bytes=-'' (trim h) = None"
    and "widening_target signed h cl p = Some (Some (TPages ps r))"
  shows "\<not> signed" "parse_range_header (trim h) cl = SingleRange r" "range_len r < p"
    "overlapping_pages (r_start r) (r_end r) p (case cl of Some sz \<Rightarrow> sz | None \<Rightarrow> u64_max) = Some ps"
  using assms
  by (auto simp: widening_target_def Let_def split: if_splits option.splits RangeParseResult.splits)

lemma parse_range_header_single:
  assumes "parse_range_header h cl = SingleRange r" "length_ok cl"
  shows "range_within cl r"
proof -
  obtain rs where "parse_range_specs (split_char (CHR '','') (drop 6 h)) cl = Inr rs"
    "SingleRange r = (case rs of [r] \<Rightarrow> SingleRange r | _ \<Rightarrow> MultipleRanges rs)"
    using parse_range_header_cases [OF assms(1)] by blast
  with parse_range_specs_within [OF _ assms(2)] show ?thesis
    by (auto split: list.splits)
qed

lemma overlapping_pages_total:
  "s \<le> e \<Longrightarrow> 0 < p \<Longrightarrow> 0 < sz \<Longrightarrow> \<exists>ps. overlapping_pages s e p sz = Some ps"
  by (simp add: overlapping_pages_def page_bounds_def Let_def)

lemma suffix_page_target_total:
  "0 < n \<Longrightarrow> 0 < p \<Longrightarrow> 0 < sz \<Longrightarrow> \<exists>ps. suffix_page_target n p (Some sz) = Some (Pages ps)"
  using overlapping_pages_total [of "sz - min n sz" "sz - 1" p sz]
  by (auto simp: suffix_page_target_def Let_def)

lemma widening_no_panic:
  assumes "length_ok cl" "0 < p"
  shows "widening_target signed h cl p \<noteq> None"
proof
  assume panic: "widening_target signed h cl p = None"
  show False
  proof (cases "strip_prefix ''bytes=-'' (trim h)")
    case None
    let ?sz = "case cl of Some sz \<Rightarrow> sz | None \<Rightarrow> u64_max"
    obtain r where "parse_range_header (trim h) cl = SingleRange r"
      and none: "overlapping_pages (r_start r) (r_end r) p ?sz = None"
      using panic None
      by (auto simp: widening_target_def Let_def split: if_splits RangeParseResult.splits
          option.splits [where ?option = "overlapping_pages _ _ _ _"])
    then have "range_ok r"
      using parse_range_header_single [OF _ assms(1)] by (simp add: range_within_def)
    moreover have "0 < ?sz" using assms(1) by (auto simp: length_ok_def split: option.splits)
    ultimately show False
      using none overlapping_pages_total [of "r_start r" "r_end r" p ?sz] assms(2)
      by (auto simp: range_ok_def)
  next
    case (Some n_str)
    then obtain n sz where "0 < n" "cl = Some sz"
      and none: "\<forall>ps. suffix_page_target n p (Some sz) \<noteq> Some (Pages ps)"
      using panic
      by (auto simp: widening_target_def Let_def split: if_splits option.splits
          SuffixPageTarget.splits)
    moreover have "0 < sz" using assms(1) \<open>cl = Some sz\<close> by (simp add: length_ok_def)
    ultimately show False using suffix_page_target_total [of n p sz] assms(2) by blast
  qed
qed

lemma widening_suffix_superset:
  assumes "suffix_page_target n p (Some sz) = Some (Pages ps)" "0 < n" "n < p" "0 < sz"
    "sz < u64_mod" "sz - 1 + p \<le> u64_mod" "r = mk_range (sz - n) (u64_sub sz 1)"
  shows "range_within (Some sz) r \<and> range_len r < p \<and> length ps \<le> 2 \<and>
         range_bytes r \<subseteq> pages_bytes ps \<and> pages_bytes ps \<subseteq> {..<sz}"
proof -
  have start: "sz - min n sz = sz - n" by simp
  have "overlapping_pages (sz - n) (sz - 1) p sz = Some ps"
    using assms(1-4) start by (auto simp: suffix_page_target_def Let_def)
  then have "length ps \<le> 2 \<and> {sz - n..sz - 1} \<subseteq> pages_bytes ps \<and> pages_bytes ps \<subseteq> {..<sz}"
    by (rule overlapping_pages_near [rotated -1]) (use assms in simp_all)
  moreover have "range_ok r" using assms by (auto simp: range_ok_def u64_sub_1)
  moreover have "range_len r < p"
    using assms range_len_ok [OF \<open>range_ok r\<close>] by (simp add: u64_sub_1)
  ultimately show ?thesis
    using assms by (simp add: range_within_def range_bytes_def u64_sub_1)
qed

lemma widening_absolute_superset:
  assumes "parse_range_header h cl = SingleRange r" "length_ok cl" "range_len r < p"
    "r_end r < u64_max" "r_end r + p \<le> u64_mod"
    "overlapping_pages (r_start r) (r_end r) p (case cl of Some sz \<Rightarrow> sz | None \<Rightarrow> u64_max) = Some ps"
  shows "range_within cl r \<and> length ps \<le> 2 \<and> range_bytes r \<subseteq> pages_bytes ps \<and>
         (\<forall>sz. cl = Some sz \<longrightarrow> pages_bytes ps \<subseteq> {..<sz})"
proof -
  have within: "range_within cl r" using assms(1,2) by (rule parse_range_header_single)
  then have ok: "range_ok r" by (simp add: range_within_def)
  then have "r_end r < r_start r + p"
    using range_len_ok [OF ok] assms(3,4) by (simp add: range_ok_def)
  moreover have "r_end r < (case cl of Some sz \<Rightarrow> sz | None \<Rightarrow> u64_max)"
    "(case cl of Some sz \<Rightarrow> sz | None \<Rightarrow> u64_max) < u64_mod"
    using within assms(2,4) by (auto simp: range_within_def length_ok_def split: option.splits)
  ultimately have "length ps \<le> 2 \<and> {r_start r..r_end r} \<subseteq> pages_bytes ps \<and>
      pages_bytes ps \<subseteq> {..<case cl of Some sz \<Rightarrow> sz | None \<Rightarrow> u64_max}"
    using ok assms(3,5,6) by (intro overlapping_pages_near) (auto simp: range_ok_def)
  with within show ?thesis by (auto simp: range_bytes_def)
qed


lemma parse_range_header_sample:
  "parse_range_header ''bytes=95-104'' (Some 250) = SingleRange (mk_range 95 104)"
proof -
  have "show_nat 95 = ''95''" "show_nat 104 = ''104''" by code_simp+
  then show ?thesis
    using parse_range_header_one [of "show_nat 95 @ CHR ''-'' # show_nat 104" "Some 250"]
      parse_single_absolute [of 95 104 "Some 250"] trim_absolute [of 95 104] by simp
qed


end
