(* ===== verification/Range_Merge.thy ===== *)
theory Range_Merge
  imports Range_Spec
begin

text \<open>
  The merging half of \<open>src/src/range_handler.rs\<close>: extraction of the wanted bytes of one cached
  range, the plan of segments, its gap check, and the loop that writes the response body.

  Loading a cached range changes the RAM cache and the statistics, so the loader is an
  operation on a state \<open>'s\<close> that is threaded through the loop. \<open>Range_Serve\<close> supplies the
  loader of \<open>src/src/cache.rs\<close>. The ranges handled here are shorter than \<open>2 ^ 64\<close> bytes.
\<close>

section \<open>Data\<close>

record Range =
  rg_start :: u64
  rg_end :: u64
  rg_data :: string
  rg_etag :: string
  rg_last_modified :: string
  rg_compression_algorithm :: CompressionAlgorithm

datatype RangeMergeSource =
    SrcCached Range u64 u64
  | SrcFetched string RangeSpec

record RangeMergeSegment =
  seg_start :: u64
  seg_end :: u64
  seg_source :: RangeMergeSource

text \<open>
  \<open>cache_efficiency\<close> is the exact quotient; the source rounds it to an \<open>f64\<close>, which only goes
  into a log line.
\<close>

record RangeMergeResult =
  rm_data :: string
  rm_bytes_from_cache :: u64
  rm_bytes_from_s3 :: u64
  rm_segments_merged :: usize
  rm_cache_efficiency :: rat
  rm_ram_hit :: bool

type_synonym 's loader = "'s \<Rightarrow> string \<Rightarrow> Range \<Rightarrow> (ProxyError + (string \<times> bool)) \<times> 's"
type_synonym fetched = "(RangeSpec \<times> string \<times> headers) list"

section \<open>One cached range\<close>

definition calculate_overlap :: "u64 \<Rightarrow> u64 \<Rightarrow> u64 \<Rightarrow> u64 \<Rightarrow> (u64 \<times> u64) option" where
  "calculate_overlap range1_start range1_end range2_start range2_end =
     (if range1_end < range2_start \<or> range2_end < range1_start then None
      else Some (max range1_start range2_start, min range1_end range2_end))"

definition extract_bytes_from_cached_range ::
    "'s loader \<Rightarrow> 's \<Rightarrow> string \<Rightarrow> Range \<Rightarrow> u64 \<Rightarrow> u64 \<Rightarrow> (ProxyError + (string \<times> bool)) \<times> 's" where
  "extract_bytes_from_cached_range load s cache_key cached_range requested_start requested_end =
     (if rg_end cached_range < requested_start \<or> rg_start cached_range > requested_end then
        (Inl (InvalidRange (''Cached range '' @ show_nat (rg_start cached_range) @ ''-'' @
                show_nat (rg_end cached_range) @ '' does not overlap with requested range '' @
                show_nat requested_start @ ''-'' @ show_nat requested_end)), s)
      else
        let intersection_start = max (rg_start cached_range) requested_start;
            intersection_end = min (rg_end cached_range) requested_end;
            read_offset = u64_sub intersection_start (rg_start cached_range);
            read_length = u64_add (u64_sub intersection_end intersection_start) 1;
            cached_range_size = u64_add (u64_sub (rg_end cached_range) (rg_start cached_range)) 1
        in if read_offset \<ge> cached_range_size then
             (Inl (InvalidRange (''Read offset '' @ show_nat read_offset @
                     '' exceeds cached range size '' @ show_nat cached_range_size)), s)
           else if u64_add read_offset read_length > cached_range_size then
             (Inl (InvalidRange (''Read offset '' @ show_nat read_offset @ '' + length '' @
                     show_nat read_length @ '' exceeds cached range size '' @
                     show_nat cached_range_size)), s)
           else
             (case load s cache_key cached_range of
                (Inl e, s') \<Rightarrow> (Inl e, s')
              | (Inr (range_data, ram_hit), s') \<Rightarrow>
                  if length range_data \<noteq> cached_range_size then
                    (Inl (CacheError (''Cached range data size mismatch: expected '' @
                            show_nat cached_range_size @ '' bytes, got '' @
                            show_nat (length range_data) @ '' bytes'')), s')
                  else
                    let start_idx = read_offset; end_idx = u64_add read_offset read_length
                    in if end_idx > length range_data then
                         (Inl (InvalidRange (''Extraction range '' @ show_nat start_idx @ ''-'' @
                                 show_nat end_idx @ '' exceeds data length '' @
                                 show_nat (length range_data))), s')
                       else (Inr (take (end_idx - start_idx) (drop start_idx range_data), ram_hit),
                             s')))"

definition check_if_merge_needed :: "RangeSpec \<Rightarrow> Range list \<Rightarrow> fetched \<Rightarrow> bool" where
  "check_if_merge_needed requested_range cached_ranges fetched_ranges =
     (if cached_ranges \<noteq> [] \<and> fetched_ranges \<noteq> [] then True
      else if length cached_ranges > 1 then True
      else if length fetched_ranges > 1 then True
      else if length cached_ranges = 1 \<and>
        rg_start (cached_ranges ! 0) = r_start requested_range \<and>
        rg_end (cached_ranges ! 0) = r_end requested_range then False
      else if length cached_ranges = 1 \<and>
        rg_start (cached_ranges ! 0) \<le> r_start requested_range \<and>
        rg_end (cached_ranges ! 0) \<ge> r_end requested_range then False
      else if length fetched_ranges = 1 \<and>
        r_start (fst (fetched_ranges ! 0)) = r_start requested_range \<and>
        r_end (fst (fetched_ranges ! 0)) = r_end requested_range then False
      else True)"

section \<open>The merge plan\<close>

definition cached_segment :: "RangeSpec \<Rightarrow> Range \<Rightarrow> RangeMergeSegment option" where
  "cached_segment requested_range cached_range =
     (case calculate_overlap (rg_start cached_range) (rg_end cached_range)
             (r_start requested_range) (r_end requested_range) of
        None \<Rightarrow> None
      | Some (overlap_start, overlap_end) \<Rightarrow>
          Some \<lparr> seg_start = overlap_start, seg_end = overlap_end,
                 seg_source = SrcCached cached_range
                   (u64_sub overlap_start (rg_start cached_range))
                   (u64_add (u64_sub overlap_end overlap_start) 1) \<rparr>)"

definition fetched_segment ::
    "RangeSpec \<Rightarrow> RangeSpec \<times> string \<times> headers \<Rightarrow> RangeMergeSegment option" where
  "fetched_segment requested_range f =
     (case f of (range_spec, data, _) \<Rightarrow>
        (case calculate_overlap (r_start range_spec) (r_end range_spec)
                (r_start requested_range) (r_end requested_range) of
           None \<Rightarrow> None
         | Some (overlap_start, overlap_end) \<Rightarrow>
             Some \<lparr> seg_start = overlap_start, seg_end = overlap_end,
                    seg_source = SrcFetched data range_spec \<rparr>))"

definition merge_plan :: "RangeSpec \<Rightarrow> Range list \<Rightarrow> fetched \<Rightarrow> RangeMergeSegment list" where
  "merge_plan requested_range cached_ranges fetched_ranges =
     sort_key seg_start
       (List.map_filter (cached_segment requested_range) cached_ranges @
        List.map_filter (fetched_segment requested_range) fetched_ranges)"

fun check_gaps :: "nat \<Rightarrow> RangeMergeSegment list \<Rightarrow> ProxyError option" where
  "check_gaps i (a # b # rest) =
     (if seg_start b > u64_add (seg_end a) 1 then
        Some (CacheError (''Gap detected between segments: segment '' @ show_nat i @
                '' ends at '' @ show_nat (seg_end a) @ '', segment '' @ show_nat (i + 1) @
                '' starts at '' @ show_nat (seg_start b)))
      else check_gaps (i + 1) (b # rest))"
| "check_gaps i _ = None"

definition validate_plan :: "RangeSpec \<Rightarrow> RangeMergeSegment list \<Rightarrow> ProxyError option" where
  "validate_plan requested_range segments =
     (if segments = [] then Some (CacheError ''No segments available for merge'')
      else if seg_start (hd segments) \<noteq> r_start requested_range then
        Some (CacheError (''Gap at start: first segment starts at '' @
                show_nat (seg_start (hd segments)) @ '', requested starts at '' @
                show_nat (r_start requested_range)))
      else (case check_gaps 0 segments of
              Some e \<Rightarrow> Some e
            | None \<Rightarrow>
                if seg_end (last segments) \<noteq> r_end requested_range then
                  Some (CacheError (''Gap at end: last segment ends at '' @
                          show_nat (seg_end (last segments)) @ '', requested ends at '' @
                          show_nat (r_end requested_range)))
                else None))"

section \<open>Writing the body\<close>

record MergeAcc =
  acc_output :: string
  acc_from_cache :: u64
  acc_from_s3 :: u64
  acc_position :: u64
  acc_all_ram :: bool

text \<open>
  Appending bytes of a cached range, and of a fetched body; \<open>start\<close> is the segment's start or,
  when its first bytes are already written, the current position.
\<close>

definition append_cached ::
    "'s loader \<Rightarrow> 's \<Rightarrow> string \<Rightarrow> MergeAcc \<Rightarrow> RangeMergeSegment \<Rightarrow> Range \<Rightarrow> u64 \<Rightarrow> u64 \<Rightarrow> string \<Rightarrow>
     (ProxyError + MergeAcc) \<times> 's" where
  "append_cached load s cache_key acc segment cached_range start len msg =
     (case extract_bytes_from_cached_range load s cache_key cached_range start (seg_end segment) of
        (Inl e, s') \<Rightarrow> (Inl e, s')
      | (Inr (bytes, ram_hit), s') \<Rightarrow>
          let expected_bytes = u64_add (u64_sub (seg_end segment) start) 1
          in if length bytes \<noteq> expected_bytes then
               (Inl (CacheError (msg @ '': expected '' @ show_nat expected_bytes @
                       '' bytes, got '' @ show_nat (length bytes) @ '' bytes'')), s')
             else
               (Inr \<lparr> acc_output = acc_output acc @ bytes,
                      acc_from_cache = u64_add (acc_from_cache acc) len,
                      acc_from_s3 = acc_from_s3 acc,
                      acc_position = u64_add (seg_end segment) 1,
                      acc_all_ram = (acc_all_ram acc \<and> ram_hit) \<rparr>, s'))"

definition append_fetched ::
    "MergeAcc \<Rightarrow> RangeMergeSegment \<Rightarrow> string \<Rightarrow> RangeSpec \<Rightarrow> u64 \<Rightarrow> ProxyError + MergeAcc" where
  "append_fetched acc segment data range_spec start =
     (let data_offset = u64_sub start (r_start range_spec);
          data_length = u64_add (u64_sub (seg_end segment) start) 1;
          data_end = u64_add data_offset data_length
      in if data_end > length data then
           Inl (CacheError (''Fetched data bounds error: offset='' @ show_nat data_offset @
                  '', end='' @ show_nat data_end @ '', data_len='' @ show_nat (length data)))
         else
           Inr \<lparr> acc_output = acc_output acc @ take (data_end - data_offset) (drop data_offset data),
                 acc_from_cache = acc_from_cache acc,
                 acc_from_s3 = u64_add (acc_from_s3 acc) data_length,
                 acc_position = u64_add (seg_end segment) 1,
                 acc_all_ram = acc_all_ram acc \<rparr>)"

definition merge_segment ::
    "'s loader \<Rightarrow> 's \<Rightarrow> string \<Rightarrow> MergeAcc \<Rightarrow> RangeMergeSegment \<Rightarrow> (ProxyError + MergeAcc) \<times> 's" where
  "merge_segment load s cache_key acc segment =
     (if seg_start segment < acc_position acc then
        let skip_bytes = acc_position acc - seg_start segment;
            segment_length = u64_add (u64_sub (seg_end segment) (seg_start segment)) 1
        in if skip_bytes \<ge> segment_length then (Inr acc, s)
           else (case seg_source segment of
                   SrcCached cached_range read_offset read_length \<Rightarrow>
                     append_cached load s cache_key acc segment cached_range (acc_position acc)
                       (u64_sub read_length skip_bytes) ''Overlapping sliced data size mismatch''
                 | SrcFetched data range_spec \<Rightarrow>
                     (append_fetched acc segment data range_spec (acc_position acc), s))
      else
        (case seg_source segment of
           SrcCached cached_range read_offset read_length \<Rightarrow>
             append_cached load s cache_key acc segment cached_range (seg_start segment)
               read_length ''Sliced data size mismatch''
         | SrcFetched data range_spec \<Rightarrow>
             (append_fetched acc segment data range_spec (seg_start segment), s)))"

fun merge_segments ::
    "'s loader \<Rightarrow> 's \<Rightarrow> string \<Rightarrow> MergeAcc \<Rightarrow> RangeMergeSegment list \<Rightarrow>
     (ProxyError + MergeAcc) \<times> 's" where
  "merge_segments load s cache_key acc [] = (Inr acc, s)"
| "merge_segments load s cache_key acc (segment # segments) =
     (case merge_segment load s cache_key acc segment of
        (Inl e, s') \<Rightarrow> (Inl e, s')
      | (Inr acc', s') \<Rightarrow> merge_segments load s' cache_key acc' segments)"

definition merge_range_segments ::
    "'s loader \<Rightarrow> 's \<Rightarrow> string \<Rightarrow> RangeSpec \<Rightarrow> Range list \<Rightarrow> fetched \<Rightarrow>
     (ProxyError + RangeMergeResult) \<times> 's" where
  "merge_range_segments load s cache_key requested_range cached_ranges fetched_ranges =
     (let expected_size = range_len requested_range;
          segments = merge_plan requested_range cached_ranges fetched_ranges
      in case validate_plan requested_range segments of
           Some e \<Rightarrow> (Inl e, s)
         | None \<Rightarrow>
             (case merge_segments load s cache_key
                     \<lparr> acc_output = [], acc_from_cache = 0, acc_from_s3 = 0,
                       acc_position = r_start requested_range, acc_all_ram = True \<rparr> segments of
                (Inl e, s') \<Rightarrow> (Inl e, s')
              | (Inr acc, s') \<Rightarrow>
                  if length (acc_output acc) \<noteq> expected_size then
                    (Inl (CacheError (''Merge size mismatch: expected '' @ show_nat expected_size @
                            '' bytes, got '' @ show_nat (length (acc_output acc)) @
                            '' bytes'')), s')
                  else
                    let total_bytes = u64_add (acc_from_cache acc) (acc_from_s3 acc)
                    in (Inr \<lparr> rm_data = acc_output acc,
                              rm_bytes_from_cache = acc_from_cache acc,
                              rm_bytes_from_s3 = acc_from_s3 acc,
                              rm_segments_merged = length segments,
                              rm_cache_efficiency =
                                (if total_bytes > 0
                                 then of_nat (acc_from_cache acc) / of_nat total_bytes * 100
                                 else 0),
                              rm_ram_hit = (acc_all_ram acc \<and> acc_from_s3 acc = 0) \<rparr>, s')))"

section \<open>The loader's contract\<close>

text \<open>
  What the merge relies on. \<open>obj k t\<close> is the body of the object version with key \<open>k\<close> and
  ETag \<open>t\<close>. A loader keeps the invariant of its state, and what it returns for a cached range
  are the bytes of that range in the version the range carries the ETag of, for the versions
  that satisfy \<open>ver_ok\<close>.
\<close>

locale range_loader =
  fixes load :: "'s loader"
    and inv :: "'s \<Rightarrow> bool"
    and obj :: "string \<Rightarrow> string \<Rightarrow> string"
    and ver_ok :: "string \<Rightarrow> string \<Rightarrow> bool"
  assumes load_inv: "inv s \<Longrightarrow> load s k r = (res, s') \<Longrightarrow> ver_ok k (rg_etag r) \<Longrightarrow> inv s'"
    and load_bytes:
      "inv s \<Longrightarrow> load s k r = (Inr (d, h), s') \<Longrightarrow> rg_start r \<le> rg_end r \<Longrightarrow>
         ver_ok k (rg_etag r) \<Longrightarrow> d = slice (obj k (rg_etag r)) (rg_start r) (rg_end r)"
begin

lemma extract_inv:
  assumes "inv s" "extract_bytes_from_cached_range load s k r a b = (res, s')" "ver_ok k (rg_etag r)"
  shows "inv s'"
proof -
  have "s' = s \<or> (\<exists>res'. load s k r = (res', s'))"
    using assms(2) unfolding extract_bytes_from_cached_range_def Let_def
    by (auto split: if_splits prod.splits sum.splits)
  with assms(1,3) load_inv show ?thesis by blast
qed

lemma extract_bytes:
  assumes "inv s" "extract_bytes_from_cached_range load s k r a b = (Inr (d, h), s')"
    and "rg_start r \<le> a" "a \<le> b" "b \<le> rg_end r" "rg_end r < u64_max"
    and "ver_ok k (rg_etag r)"
  shows "d = slice (obj k (rg_etag r)) a b \<and> length d = b + 1 - a"
proof -
  have eqs: "max (rg_start r) a = a" "min (rg_end r) b = b"
    "u64_sub a (rg_start r) = a - rg_start r"
    "u64_add (u64_sub b a) 1 = b + 1 - a"
    "u64_add (a - rg_start r) (b + 1 - a) = b + 1 - rg_start r"
    "u64_add (u64_sub (rg_end r) (rg_start r)) 1 = rg_end r + 1 - rg_start r"
    using assms(3-6) by (simp_all add: u64_sub_exact u64_add_exact)
  obtain e where load: "load s k r = (Inr (e, h), s')"
    and len: "length e = rg_end r + 1 - rg_start r"
    and d: "d = take (b + 1 - rg_start r - (a - rg_start r)) (drop (a - rg_start r) e)"
    using assms(2) unfolding extract_bytes_from_cached_range_def Let_def eqs
    by (auto split: if_splits prod.splits sum.splits)
  have "e = slice (obj k (rg_etag r)) (rg_start r) (rg_end r)"
    using load_bytes [OF assms(1) load _ assms(7)] assms(3-5) by simp
  moreover have "d = take (Suc b - a) (drop (a - rg_start r) e)" using d assms(3,4) by simp
  ultimately have "d = slice (obj k (rg_etag r)) a b" by (simp only: slice_slice [OF assms(3-5)])
  moreover have "length d = b + 1 - a" using d len assms(3-5) by simp
  ultimately show ?thesis by simp
qed

end

section \<open>The merged body\<close>

definition seg_ok :: "string \<Rightarrow> string \<Rightarrow> RangeSpec \<Rightarrow> RangeMergeSegment \<Rightarrow> bool" where
  "seg_ok body etag req seg \<longleftrightarrow>
     seg_start seg \<le> seg_end seg \<and> r_start req \<le> seg_start seg \<and> seg_end seg \<le> r_end req \<and>
     (case seg_source seg of
        SrcCached r off len \<Rightarrow>
          rg_start r \<le> seg_start seg \<and> seg_end seg \<le> rg_end r \<and> rg_end r < u64_max \<and>
          rg_etag r = etag \<and> len = seg_end seg + 1 - seg_start seg
      | SrcFetched d spec \<Rightarrow>
          r_start spec \<le> seg_start seg \<and> seg_end seg \<le> r_end spec \<and>
          d = slice body (r_start spec) (r_end spec))"

definition acc_ok :: "string \<Rightarrow> RangeSpec \<Rightarrow> MergeAcc \<Rightarrow> bool" where
  "acc_ok body req acc \<longleftrightarrow>
     r_start req \<le> acc_position acc \<and> acc_position acc \<le> r_end req + 1 \<and>
     acc_output acc = take (acc_position acc - r_start req) (drop (r_start req) body) \<and>
     length (acc_output acc) = acc_position acc - r_start req \<and>
     acc_from_cache acc + acc_from_s3 acc = acc_position acc - r_start req"

lemma acc_ok_append:
  assumes "acc_ok body req acc" "acc_position acc \<le> e" "e \<le> r_end req"
    "d = slice body (acc_position acc) e" "length d = e + 1 - acc_position acc"
    "acc_output acc' = acc_output acc @ d" "acc_position acc' = e + 1"
    "acc_from_cache acc' + acc_from_s3 acc' =
       acc_from_cache acc + acc_from_s3 acc + (e + 1 - acc_position acc)"
  shows "acc_ok body req acc'"
proof -
  have "take (acc_position acc - r_start req) (drop (r_start req) body) @
          slice body (acc_position acc) e = slice body (r_start req) e"
    using assms(1,2) by (intro slice_append) (auto simp: acc_ok_def)
  with assms show ?thesis by (auto simp: acc_ok_def slice_def)
qed

lemma append_fetched_ok:
  assumes "append_fetched acc seg data spec (acc_position acc) = Inr acc'"
    and "acc_ok body req acc" "seg_ok body etag req seg" "seg_source seg = SrcFetched data spec"
    and "acc_position acc \<le> seg_end seg" "r_start spec \<le> acc_position acc" "r_end req < u64_max"
  shows "acc_ok body req acc' \<and> acc_position acc' = seg_end seg + 1"
proof -
  let ?p = "acc_position acc" and ?e = "seg_end seg" and ?s = "r_start spec"
  have data: "data = slice body ?s (r_end spec)" "?e \<le> r_end spec" "?e \<le> r_end req"
    using assms(3,4) by (auto simp: seg_ok_def)
  have eqs: "u64_sub ?p ?s = ?p - ?s" "u64_add (u64_sub ?e ?p) 1 = ?e + 1 - ?p"
    "u64_add (?p - ?s) (?e + 1 - ?p) = ?e + 1 - ?s" "u64_add ?e 1 = ?e + 1"
    using assms(5-7) data(3) by (simp_all add: u64_sub_exact u64_add_exact)
  have small: "acc_from_s3 acc + (?e + 1 - ?p) < u64_mod"
    using assms(2,5,7) data(3) by (auto simp: acc_ok_def)
  have acc': "?e + 1 - ?s \<le> length data"
    "acc' = \<lparr> acc_output = acc_output acc @ take (?e + 1 - ?s - (?p - ?s)) (drop (?p - ?s) data),
              acc_from_cache = acc_from_cache acc,
              acc_from_s3 = acc_from_s3 acc + (?e + 1 - ?p),
              acc_position = ?e + 1, acc_all_ram = acc_all_ram acc \<rparr>"
    using assms(1) unfolding append_fetched_def Let_def eqs u64_add_exact [OF small]
    by (auto split: if_splits)
  have "?e + 1 - ?s - (?p - ?s) = Suc ?e - ?p" using assms(5,6) by simp
  then have "take (?e + 1 - ?s - (?p - ?s)) (drop (?p - ?s) data) = slice body ?p ?e"
    by (simp only: data(1) slice_slice [OF assms(6,5) data(2)])
  moreover have "length (take (?e + 1 - ?s - (?p - ?s)) (drop (?p - ?s) data)) = ?e + 1 - ?p"
    using acc'(1) assms(5,6) by simp
  ultimately show ?thesis
    using acc_ok_append [OF assms(2,5) data(3), where acc' = acc'] acc'(2) by simp
qed

context range_loader
begin

lemma append_cached_ok:
  assumes "append_cached load s k acc seg r (acc_position acc) len msg = (Inr acc', s')" "inv s"
    and "acc_ok (obj k etag) req acc" "rg_etag r = etag" "rg_start r \<le> acc_position acc"
    and "acc_position acc \<le> seg_end seg" "seg_end seg \<le> rg_end r" "rg_end r < u64_max"
    and "seg_end seg \<le> r_end req" "r_end req < u64_max" "len = seg_end seg + 1 - acc_position acc"
    and "ver_ok k etag"
  shows "inv s' \<and> acc_ok (obj k etag) req acc' \<and> acc_position acc' = seg_end seg + 1"
proof -
  let ?p = "acc_position acc" and ?e = "seg_end seg"
  obtain d h where ext: "extract_bytes_from_cached_range load s k r ?p ?e = (Inr (d, h), s')"
    using assms(1) by (auto simp: append_cached_def Let_def split: prod.splits sum.splits if_splits)
  have small: "acc_from_cache acc + len < u64_mod" "?e + 1 < u64_mod"
    using assms(3,6,9-11) by (auto simp: acc_ok_def)
  have d: "d = slice (obj k etag) ?p ?e \<and> length d = ?e + 1 - ?p"
    using extract_bytes [OF assms(2) ext assms(5-8), unfolded assms(4), OF assms(12)] .
  have acc': "acc_output acc' = acc_output acc @ d" "acc_position acc' = ?e + 1"
    "acc_from_cache acc' = acc_from_cache acc + len" "acc_from_s3 acc' = acc_from_s3 acc"
    using assms(1) ext u64_add_exact [OF small(1)] u64_add_exact [OF small(2)]
    by (auto simp: append_cached_def Let_def split: if_splits)
  have "acc_ok (obj k etag) req acc'"
    using d acc' assms(11) by (intro acc_ok_append [OF assms(3,6,9)]) auto
  with acc'(2) extract_inv [OF assms(2) ext] assms(4,12) show ?thesis by simp
qed

lemma merge_segment_ok:
  assumes "merge_segment load s k acc seg = (Inr acc', s')" "inv s"
    and "acc_ok (obj k etag) req acc" "seg_ok (obj k etag) etag req seg"
    and "seg_start seg \<le> acc_position acc" "r_end req < u64_max" "ver_ok k etag"
  shows "inv s' \<and> acc_ok (obj k etag) req acc' \<and>
         acc_position acc' = max (acc_position acc) (seg_end seg + 1)"
proof -
  have seg: "seg_start seg \<le> seg_end seg" "seg_end seg \<le> r_end req"
    using assms(4) by (auto simp: seg_ok_def)
  have len: "u64_add (u64_sub (seg_end seg) (seg_start seg)) 1 = seg_end seg + 1 - seg_start seg"
    using seg assms(6) by (simp add: u64_sub_exact u64_add_exact)
  show ?thesis
  proof (cases "seg_end seg < acc_position acc")
    case True
    then have "merge_segment load s k acc seg = (Inr acc, s)"
      unfolding merge_segment_def Let_def len using seg by auto
    with assms(1-3) True show ?thesis by simp
  next
    case False
    then have le: "acc_position acc \<le> seg_end seg" by simp
    have long: "\<not> seg_end seg + 1 - seg_start seg \<le> acc_position acc - seg_start seg"
      using le seg assms(5) by linarith
    show ?thesis
    proof (cases "seg_source seg")
      case (SrcCached r off n)
      have r: "rg_start r \<le> acc_position acc" "seg_end seg \<le> rg_end r" "rg_end r < u64_max"
        "rg_etag r = etag" "n = seg_end seg + 1 - seg_start seg"
        using assms(4,5) SrcCached by (auto simp: seg_ok_def)
      have n: "u64_sub n (acc_position acc - seg_start seg) = seg_end seg + 1 - acc_position acc"
        using r(5) le assms(5) by (simp add: u64_sub_exact)
      have "\<exists>msg. append_cached load s k acc seg r (acc_position acc)
              (seg_end seg + 1 - acc_position acc) msg = (Inr acc', s')"
      proof (cases "seg_start seg = acc_position acc")
        case True
        then show ?thesis
          using assms(1) r(5) unfolding merge_segment_def SrcCached by auto
      next
        case False
        then have "seg_start seg < acc_position acc" using assms(5) by simp
        then show ?thesis
          using assms(1) long n
          unfolding merge_segment_def Let_def len SrcCached RangeMergeSource.case by auto
      qed
      then obtain msg where "append_cached load s k acc seg r (acc_position acc)
              (seg_end seg + 1 - acc_position acc) msg = (Inr acc', s')" by blast
      from append_cached_ok [OF this assms(2,3) r(4,1) le r(2,3) seg(2) assms(6) refl assms(7)] le
      show ?thesis by simp
    next
      case (SrcFetched d spec)
      have spec: "r_start spec \<le> acc_position acc" using assms(4,5) SrcFetched by (auto simp: seg_ok_def)
      have "append_fetched acc seg d spec (acc_position acc) = Inr acc' \<and> s' = s"
      proof (cases "seg_start seg = acc_position acc")
        case True
        then show ?thesis
          using assms(1) unfolding merge_segment_def SrcFetched by simp
      next
        case False
        then have "seg_start seg < acc_position acc" using assms(5) by simp
        then show ?thesis
          using assms(1) long
          unfolding merge_segment_def Let_def len SrcFetched RangeMergeSource.case by simp
      qed
      then have fetched: "append_fetched acc seg d spec (acc_position acc) = Inr acc'" "s' = s"
        by simp_all
      from append_fetched_ok [OF fetched(1) assms(3,4) SrcFetched le spec assms(6)] le assms(2)
        fetched(2)
      show ?thesis by simp
    qed
  qed
qed

end

lemma cached_segment_ok:
  assumes "cached_segment req r = Some seg" "rg_start r \<le> rg_end r" "rg_end r < u64_max"
    "rg_etag r = etag" "r_start req \<le> r_end req" "r_end req < u64_max"
  shows "seg_ok body etag req seg"
proof -
  let ?s = "max (rg_start r) (r_start req)" and ?e = "min (rg_end r) (r_end req)"
  have "\<not> (rg_end r < r_start req \<or> r_end req < rg_start r)"
    using assms(1) by (auto simp: cached_segment_def calculate_overlap_def split: if_splits)
  then have le: "?s \<le> ?e" using assms(2,5) by (simp add: max_def min_def)
  then have "u64_add (u64_sub ?e ?s) 1 = ?e + 1 - ?s"
    using assms(6) by (simp add: u64_sub_exact u64_add_exact del: max.bounded_iff min.bounded_iff)
  moreover have "seg = \<lparr> seg_start = ?s, seg_end = ?e, seg_source = SrcCached r
      (u64_sub ?s (rg_start r)) (u64_add (u64_sub ?e ?s) 1) \<rparr>"
    using assms(1) by (auto simp: cached_segment_def calculate_overlap_def split: if_splits)
  ultimately show ?thesis using le assms(3,4) by (simp add: seg_ok_def)
qed

lemma fetched_segment_ok:
  assumes "fetched_segment req (spec, d, h) = Some seg" "r_start spec \<le> r_end spec"
    "d = slice body (r_start spec) (r_end spec)" "r_start req \<le> r_end req"
  shows "seg_ok body etag req seg"
proof -
  let ?s = "max (r_start spec) (r_start req)" and ?e = "min (r_end spec) (r_end req)"
  have "\<not> (r_end spec < r_start req \<or> r_end req < r_start spec)"
    using assms(1) by (auto simp: fetched_segment_def calculate_overlap_def split: if_splits)
  then have le: "?s \<le> ?e" using assms(2,4) by (simp add: max_def min_def)
  have "seg = \<lparr> seg_start = ?s, seg_end = ?e, seg_source = SrcFetched d spec \<rparr>"
    using assms(1) by (auto simp: fetched_segment_def calculate_overlap_def split: if_splits)
  with le assms(3) show ?thesis by (simp add: seg_ok_def)
qed

text \<open>The cached and fetched ranges a merge is given, all of one object version.\<close>

definition sources_ok :: "string \<Rightarrow> string \<Rightarrow> Range list \<Rightarrow> fetched \<Rightarrow> bool" where
  "sources_ok body etag cached fetched \<longleftrightarrow>
     (\<forall>r \<in> set cached. rg_start r \<le> rg_end r \<and> rg_end r < u64_max \<and> rg_etag r = etag) \<and>
     (\<forall>(spec, d, h) \<in> set fetched. r_start spec \<le> r_end spec \<and>
        d = slice body (r_start spec) (r_end spec))"

lemma map_filter_set: "y \<in> set (List.map_filter f xs) \<Longrightarrow> \<exists>x \<in> set xs. f x = Some y"
  by (auto simp: List.map_filter_def)

lemma merge_plan_ok:
  assumes "sources_ok body etag cached fetched" "r_start req \<le> r_end req" "r_end req < u64_max"
    "seg \<in> set (merge_plan req cached fetched)"
  shows "seg_ok body etag req seg"
proof -
  have "seg \<in> set (List.map_filter (cached_segment req) cached) \<or>
        seg \<in> set (List.map_filter (fetched_segment req) fetched)"
    using assms(4) by (auto simp: merge_plan_def)
  then show ?thesis
  proof
    assume "seg \<in> set (List.map_filter (cached_segment req) cached)"
    then obtain r where "r \<in> set cached" "cached_segment req r = Some seg"
      using map_filter_set by fast
    with assms(1-3) show ?thesis by (auto simp: sources_ok_def intro: cached_segment_ok)
  next
    assume "seg \<in> set (List.map_filter (fetched_segment req) fetched)"
    then obtain f where f: "f \<in> set fetched" "fetched_segment req f = Some seg"
      using map_filter_set by fast
    obtain spec d h where "f = (spec, d, h)" by (cases f)
    with f assms(1,2) show ?thesis by (auto simp: sources_ok_def intro: fetched_segment_ok)
  qed
qed

context range_loader
begin

lemma merge_segments_ok:
  assumes "merge_segments load s k acc segs = (Inr acc', s')" "inv s"
    and "acc_ok (obj k etag) req acc" "\<forall>seg \<in> set segs. seg_ok (obj k etag) etag req seg"
    and "segs \<noteq> [] \<Longrightarrow> seg_start (hd segs) \<le> acc_position acc" "check_gaps i segs = None"
    and "r_end req < u64_max" "ver_ok k etag"
  shows "inv s' \<and> acc_ok (obj k etag) req acc' \<and>
         (segs \<noteq> [] \<longrightarrow> seg_end (last segs) < acc_position acc')"
  using assms
proof (induction segs arbitrary: s acc i)
  case (Cons seg segs)
  obtain acc1 s1 where step: "merge_segment load s k acc seg = (Inr acc1, s1)"
    and rest: "merge_segments load s1 k acc1 segs = (Inr acc', s')"
    using Cons.prems(1) by (auto split: prod.splits sum.splits)
  have start: "seg_start seg \<le> acc_position acc" using Cons.prems(5) by simp
  have seg: "seg_ok (obj k etag) etag req seg" using Cons.prems(4) by simp
  from merge_segment_ok [OF step Cons.prems(2,3) seg start Cons.prems(7,8)]
  have one: "inv s1" "acc_ok (obj k etag) req acc1"
    "acc_position acc1 = max (acc_position acc) (seg_end seg + 1)" by simp_all
  show ?case
  proof (cases segs)
    case Nil
    with rest one show ?thesis by simp
  next
    case (Cons b bs)
    have "u64_add (seg_end seg) 1 = seg_end seg + 1"
      using seg Cons.prems(7) by (intro u64_add_exact) (auto simp: seg_ok_def)
    then have "seg_start b \<le> seg_end seg + 1" "check_gaps (i + 1) segs = None"
      using Cons.prems(6) Cons by (auto split: if_splits)
    then have "inv s' \<and> acc_ok (obj k etag) req acc' \<and>
        (segs \<noteq> [] \<longrightarrow> seg_end (last segs) < acc_position acc')"
      using Cons.prems(4,7,8) one Cons by (intro Cons.IH [OF rest]) auto
    with Cons show ?thesis by simp
  qed
qed simp

lemma merge_body:
  assumes "merge_range_segments load s k req cached fetched = (Inr res, s')" "inv s"
    and "sources_ok (obj k etag) etag cached fetched"
    and "r_start req \<le> r_end req" "r_end req < u64_max" "ver_ok k etag"
  shows "inv s' \<and> rm_data res = slice (obj k etag) (r_start req) (r_end req) \<and>
         length (rm_data res) = r_end req + 1 - r_start req \<and>
         rm_bytes_from_cache res + rm_bytes_from_s3 res = length (rm_data res)"
proof -
  let ?plan = "merge_plan req cached fetched"
  let ?acc0 = "\<lparr> acc_output = [], acc_from_cache = 0, acc_from_s3 = 0,
                acc_position = r_start req, acc_all_ram = True \<rparr>"
  have valid: "validate_plan req ?plan = None"
    using assms(1) by (auto simp: merge_range_segments_def Let_def split: option.splits)
  then have plan: "?plan \<noteq> []" "seg_start (hd ?plan) = r_start req" "check_gaps 0 ?plan = None"
    "seg_end (last ?plan) = r_end req"
    by (auto simp: validate_plan_def split: if_splits option.splits)
  obtain acc where acc: "merge_segments load s k ?acc0 ?plan = (Inr acc, s')"
    and res: "rm_data res = acc_output acc" "rm_bytes_from_cache res = acc_from_cache acc"
      "rm_bytes_from_s3 res = acc_from_s3 acc"
    using assms(1) valid
    by (auto simp: merge_range_segments_def Let_def split: prod.splits sum.splits if_splits)
  have "acc_ok (obj k etag) req ?acc0" using assms(4) by (simp add: acc_ok_def)
  then have final: "inv s'" "acc_ok (obj k etag) req acc" "seg_end (last ?plan) < acc_position acc"
    using merge_segments_ok [OF acc assms(2)] merge_plan_ok [OF assms(3-5)] plan assms(5,6) by auto
  then have pos: "acc_position acc = r_end req + 1" using plan(4) by (simp add: acc_ok_def)
  from final(2) have "acc_output acc = slice (obj k etag) (r_start req) (r_end req)"
    "length (acc_output acc) = r_end req + 1 - r_start req"
    "acc_from_cache acc + acc_from_s3 acc = r_end req + 1 - r_start req"
    unfolding acc_ok_def slice_def pos by blast+
  with final(1) show ?thesis by (simp only: res simp_thms)
qed

end

section \<open>Nested cached ranges\<close>

text \<open>
  The gap check compares neighbours of the sorted plan only. A cached range inside another one
  therefore hides the end of the outer range: with 0-59, 10-20 and 60-99 cached, a request for
  0-99 has no missing byte, but the merge reports a gap, whatever the loader, and the caller
  fetches the whole range again.
\<close>

definition sample_range :: "u64 \<Rightarrow> u64 \<Rightarrow> Range" where
  "sample_range s e =
     \<lparr> rg_start = s, rg_end = e, rg_data = [], rg_etag = ''v'', rg_last_modified = [],
       rg_compression_algorithm = Lz4 \<rparr>"

lemma nested_range_reported_as_gap:
  "calculate_missing_ranges (mk_range 0 99) [mk_range 0 59, mk_range 10 20, mk_range 60 99] = [] \<and>
   (\<exists>m. merge_range_segments load s k (mk_range 0 99)
          [sample_range 0 59, sample_range 10 20, sample_range 60 99] [] =
        (Inl (CacheError (''Gap detected between segments: segment '' @ m)), s))"
proof
  show "calculate_missing_ranges (mk_range 0 99) [mk_range 0 59, mk_range 10 20, mk_range 60 99] = []"
    by (simp add: calculate_missing_ranges_def merge_ranges_def saturating_add_def u64_add_def)
  have plan: "merge_plan (mk_range 0 99) [sample_range 0 59, sample_range 10 20, sample_range 60 99] [] =
      [\<lparr> seg_start = 0, seg_end = 59, seg_source = SrcCached (sample_range 0 59) 0 60 \<rparr>,
       \<lparr> seg_start = 10, seg_end = 20, seg_source = SrcCached (sample_range 10 20) 0 11 \<rparr>,
       \<lparr> seg_start = 60, seg_end = 99, seg_source = SrcCached (sample_range 60 99) 0 40 \<rparr>]"
    by (simp add: merge_plan_def List.map_filter_def cached_segment_def calculate_overlap_def
        sample_range_def u64_add_def u64_sub_def)
  show "\<exists>m. merge_range_segments load s k (mk_range 0 99)
          [sample_range 0 59, sample_range 10 20, sample_range 60 99] [] =
        (Inl (CacheError (''Gap detected between segments: segment '' @ m)), s)"
    unfolding merge_range_segments_def Let_def plan
    by (simp add: validate_plan_def u64_add_def)
qed

end
