(* ===== verification/Disk_Lookup.thy ===== *)
theory Disk_Lookup
  imports Journal Range_Merge
begin

text \<open>
  Finding what the disk cache holds for an object, \<open>disk_cache.rs\<close> and \<open>range_handler.rs\<close>:
  reading and classifying a metadata file, the pending ranges of the journals, and the cached
  ranges that overlap a request.

  The JSON parser is a parameter, \<open>JsonCodec\<close>: the metadata a text parses to, the member names
  of an object, the pending range view of a journal line, and the encoding of a key. What the
  file system answers is an argument: the successive answers to the reads of one metadata file,
  and the journal files of a directory listing.
\<close>

record PendingRangeView =
  pv_cache_key :: string
  pv_operation :: JournalOperation
  pv_range_spec :: CacheRangeSpec
  pv_object_etag :: "string option"

record JsonCodec =
  jc_metadata :: "string \<Rightarrow> NewCacheMetadata option"
  jc_object :: "string \<Rightarrow> string list option"
  jc_view :: "string \<Rightarrow> PendingRangeView option"
  jc_key :: "string \<Rightarrow> string"

section \<open>Reading a metadata file\<close>

datatype CorruptReason = Oversize | Legacy | ParseFailure

datatype MetadataReadOutcome =
  Parsed NewCacheMetadata | Missing | TransientMiss | Corrupt CorruptReason

datatype StatResult = StatOk u64 | StatNotFound | StatFailed string

text \<open>A failed read has the number and the message of the error.\<close>

datatype ReadResult = ReadOk string | ReadNotFound | ReadFailed "nat option" string

record MetadataObs =
  mo_stat :: StatResult
  mo_reads :: "nat \<Rightarrow> ReadResult"
  mo_restat :: StatResult

definition MAX_RETRIES :: u32 where
  "MAX_RETRIES = 3"

definition stale_handle :: "nat option \<Rightarrow> string \<Rightarrow> bool" where
  "stale_handle raw_os_error message =
     (raw_os_error = Some 116 \<or> contains_str ''stale file handle'' message \<or>
      contains_str ''ESTALE'' message)"

text \<open>\<open>n\<close> reads have been made so far; the result holds how many there are at the end.\<close>

function read_metadata_loop ::
    "(nat \<Rightarrow> ReadResult) \<Rightarrow> nat \<Rightarrow> (MetadataReadOutcome + string) \<times> nat" where
  "read_metadata_loop reads n =
     (let read_attempts = n + 1
      in case reads n of
           ReadOk c \<Rightarrow>
             if c = [] \<and> read_attempts \<le> MAX_RETRIES then read_metadata_loop reads (n + 1)
             else (Inr c, n + 1)
         | ReadNotFound \<Rightarrow> (Inl Missing, n + 1)
         | ReadFailed raw_os_error message \<Rightarrow>
             if stale_handle raw_os_error message \<and> read_attempts \<le> MAX_RETRIES
             then read_metadata_loop reads (n + 1)
             else (Inl TransientMiss, n + 1))"
  by pat_completeness auto

termination read_metadata_loop
  by (relation "measure (\<lambda>(_, n). 4 - n)") (auto simp: MAX_RETRIES_def)

function parse_metadata_loop ::
    "JsonCodec \<Rightarrow> (nat \<Rightarrow> ReadResult) \<Rightarrow> nat \<Rightarrow> nat \<Rightarrow> string \<Rightarrow> string + NewCacheMetadata" where
  "parse_metadata_loop jc reads attempts n current_content =
     (let parse_attempts = attempts + 1
      in case jc_metadata jc current_content of
           Some meta \<Rightarrow> Inr meta
         | None \<Rightarrow>
             if parse_attempts < MAX_RETRIES then
               (case reads n of
                  ReadOk new_content \<Rightarrow> parse_metadata_loop jc reads parse_attempts (n + 1) new_content
                | _ \<Rightarrow> parse_metadata_loop jc reads parse_attempts (n + 1) current_content)
             else Inl current_content)"
  by pat_completeness auto

termination parse_metadata_loop
  by (relation "measure (\<lambda>(_, _, a, _, _). 3 - a)") (auto simp: MAX_RETRIES_def)

declare read_metadata_loop.simps [simp del] parse_metadata_loop.simps [simp del]

definition legacy_entry :: "JsonCodec \<Rightarrow> string \<Rightarrow> bool" where
  "legacy_entry jc content =
     (case jc_object jc content of
        Some names \<Rightarrow> ''body'' \<in> set names \<and> ''is_put_cached'' \<in> set names \<and>
          ''object_metadata'' \<notin> set names
      | None \<Rightarrow> False)"

definition classify_parse_failure ::
    "JsonCodec \<Rightarrow> u64 \<Rightarrow> StatResult \<Rightarrow> string \<Rightarrow> MetadataReadOutcome" where
  "classify_parse_failure jc initial_size restat content =
     (let current_size = (case restat of StatOk n \<Rightarrow> n | _ \<Rightarrow> initial_size)
      in if current_size = initial_size
         then Corrupt (if legacy_entry jc content then Legacy else ParseFailure)
         else TransientMiss)"

definition read_and_parse_metadata_blocking ::
    "JsonCodec \<Rightarrow> u64 \<Rightarrow> MetadataObs \<Rightarrow> MetadataReadOutcome" where
  "read_and_parse_metadata_blocking jc cap obs =
     (case mo_stat obs of
        StatNotFound \<Rightarrow> Missing
      | StatFailed _ \<Rightarrow> TransientMiss
      | StatOk initial_size \<Rightarrow>
          if initial_size > cap then Corrupt Oversize
          else (case read_metadata_loop (mo_reads obs) 0 of
                  (Inl outcome, _) \<Rightarrow> outcome
                | (Inr content, n) \<Rightarrow>
                    if content = [] then TransientMiss
                    else (case parse_metadata_loop jc (mo_reads obs) 0 n content of
                            Inr meta \<Rightarrow> Parsed meta
                          | Inl current_content \<Rightarrow>
                              classify_parse_failure jc initial_size (mo_restat obs) current_content)))"

text \<open>
  The environment of a lookup: the clock, the configured cap, whether the hybrid writer is
  configured, whether the blocking pool and its semaphore are up, and what is on disk.
\<close>

record MetadataIo =
  mi_exists :: bool
  mi_permit :: bool
  mi_joined :: bool
  mi_obs :: MetadataObs

definition metadata_outcome :: "JsonCodec \<Rightarrow> u64 \<Rightarrow> MetadataIo \<Rightarrow> MetadataReadOutcome" where
  "metadata_outcome jc cap io =
     (if mi_joined io then read_and_parse_metadata_blocking jc cap (mi_obs io) else TransientMiss)"

definition get_metadata ::
    "JsonCodec \<Rightarrow> u64 \<Rightarrow> SystemTime \<Rightarrow> MetadataIo \<Rightarrow> ProxyError + NewCacheMetadata option" where
  "get_metadata jc cap now io =
     (if \<not> mi_exists io then Inr None
      else if \<not> mi_permit io then Inl (CacheError ''Metadata I/O semaphore closed unexpectedly'')
      else (case metadata_outcome jc cap io of
              Missing \<Rightarrow> Inr None
            | TransientMiss \<Rightarrow> Inr None
            | Corrupt _ \<Rightarrow> Inr None
            | Parsed metadata \<Rightarrow>
                if om_is_write_cached (nm_object_metadata metadata) \<and>
                   is_write_cache_expired now (nm_object_metadata metadata)
                then Inr None else Inr (Some metadata)))"

record MetadataLookup =
  ml_meta :: "NewCacheMetadata option"
  ml_corrupt :: bool
  ml_corrupt_reason :: "CorruptReason option"

definition metadata_miss :: MetadataLookup where
  "metadata_miss = \<lparr> ml_meta = None, ml_corrupt = False, ml_corrupt_reason = None \<rparr>"

definition get_metadata_classified ::
    "JsonCodec \<Rightarrow> u64 \<Rightarrow> SystemTime \<Rightarrow> MetadataIo \<Rightarrow> ProxyError + MetadataLookup" where
  "get_metadata_classified jc cap now io =
     (if \<not> mi_exists io then Inr metadata_miss
      else if \<not> mi_permit io then Inl (CacheError ''Metadata I/O semaphore closed unexpectedly'')
      else (case metadata_outcome jc cap io of
              Missing \<Rightarrow> Inr metadata_miss
            | TransientMiss \<Rightarrow> Inr metadata_miss
            | Corrupt reason \<Rightarrow>
                Inr \<lparr> ml_meta = None, ml_corrupt = True, ml_corrupt_reason = Some reason \<rparr>
            | Parsed metadata \<Rightarrow>
                if om_is_write_cached (nm_object_metadata metadata) \<and>
                   is_write_cache_expired now (nm_object_metadata metadata)
                then Inr metadata_miss
                else Inr (metadata_miss \<lparr> ml_meta := Some metadata \<rparr>)))"

definition read_disk_metadata ::
    "JsonCodec \<Rightarrow> u64 \<Rightarrow> MetadataIo \<Rightarrow> ProxyError + NewCacheMetadata option" where
  "read_disk_metadata jc cap io =
     (if \<not> mi_permit io then Inl (CacheError ''Metadata I/O semaphore closed'')
      else if \<not> mi_joined io then Inl (CacheError ''Metadata read failed: join error'')
      else (case read_and_parse_metadata_blocking jc cap (mi_obs io) of
              Missing \<Rightarrow> Inr None
            | Parsed metadata \<Rightarrow> Inr (Some metadata)
            | _ \<Rightarrow> Inl (CacheError
                ''Cannot establish cached object version from unreadable metadata'')))"

section \<open>Pending ranges of the journals\<close>

record JournalFile =
  jf_name :: string
  jf_is_file :: bool
  jf_content :: "string option"

text \<open>\<open>str::lines\<close>.\<close>

definition str_lines :: "string \<Rightarrow> string list" where
  "str_lines s =
     (let parts = split_char (CHR 0x0A) s;
          strip_cr = (\<lambda>l. case strip_suffix [CHR 0x0D] l of Some l' \<Rightarrow> l' | None \<Rightarrow> l)
      in map strip_cr (butlast parts) @ (if last parts = [] then [] else [last parts]))"

definition view_matches :: "(string \<Rightarrow> string) \<Rightarrow> PendingRangeView \<Rightarrow> string \<Rightarrow> bool" where
  "view_matches blake3 view etag =
     entry_matches_object_version blake3 (pv_operation view) (pv_range_spec view)
       (pv_object_etag view) etag"

text \<open>The range of a journal line that is a publication of this version of the key.\<close>

definition pending_range ::
    "(string \<Rightarrow> string) \<Rightarrow> JsonCodec \<Rightarrow> string \<Rightarrow> string \<Rightarrow> string \<Rightarrow> CacheRangeSpec option" where
  "pending_range blake3 jc cache_key object_etag line =
     (if trim line = [] \<or> \<not> contains_str (jc_key jc cache_key) line then None
      else (case jc_view jc line of
              None \<Rightarrow> None
            | Some entry \<Rightarrow>
                if pv_cache_key entry \<noteq> cache_key \<or> pv_operation entry \<noteq> Add \<or>
                   \<not> view_matches blake3 entry object_etag then None
                else Some (pv_range_spec entry)))"

abbreviation spec_overlaps :: "u64 \<Rightarrow> u64 \<Rightarrow> CacheRangeSpec \<Rightarrow> bool" where
  "spec_overlaps s e r \<equiv> s \<le> cr_end r \<and> cr_start r \<le> e"

text \<open>
  The loop over the candidates, in order: \<open>Inl\<close> the range that is returned at once because it
  holds the whole request, \<open>Inr\<close> the overlapping ones.
\<close>

fun scan_ranges :: "u64 \<Rightarrow> u64 \<Rightarrow> CacheRangeSpec list \<Rightarrow> CacheRangeSpec list \<Rightarrow>
    CacheRangeSpec + CacheRangeSpec list" where
  "scan_ranges s e [] acc = Inr acc"
| "scan_ranges s e (r # rs) acc =
     (if spec_overlaps s e r then
        (if cr_start r = s \<and> cr_end r = e then Inl r
         else if cr_start r \<le> s \<and> cr_end r \<ge> e then Inl r
         else scan_ranges s e rs (acc @ [r]))
      else scan_ranges s e rs acc)"

definition journal_lines :: "JournalFile list \<Rightarrow> string list" where
  "journal_lines files =
     concat (map (\<lambda>f. if jf_is_file f \<and> ends_with ''.journal'' (jf_name f)
                      then (case jf_content f of Some c \<Rightarrow> str_lines c | None \<Rightarrow> []) else []) files)"

definition find_pending_journal_ranges ::
    "(string \<Rightarrow> string) \<Rightarrow> JsonCodec \<Rightarrow> bool \<Rightarrow> JournalFile list option \<Rightarrow> string \<Rightarrow> u64 \<Rightarrow> u64 \<Rightarrow>
     string option \<Rightarrow> CacheRangeSpec list" where
  "find_pending_journal_ranges blake3 jc shared journals cache_key requested_start requested_end
       object_etag =
     (if \<not> shared then []
      else (case (journals, object_etag) of
              (Some files, Some etag) \<Rightarrow>
                (case scan_ranges requested_start requested_end
                        (List.map_filter (pending_range blake3 jc cache_key etag) (journal_lines files)) [] of
                   Inl r \<Rightarrow> [r]
                 | Inr matching_ranges \<Rightarrow> sort_key cr_start matching_ranges)
            | _ \<Rightarrow> []))"

section \<open>Cached ranges of a request\<close>

record LookupEnv =
  le_now :: SystemTime
  le_cap :: u64
  le_shared :: bool
  le_metadata :: "string \<Rightarrow> MetadataIo"
  le_journals :: "JournalFile list option"

definition find_cached_ranges ::
    "(string \<Rightarrow> string) \<Rightarrow> JsonCodec \<Rightarrow> LookupEnv \<Rightarrow> string \<Rightarrow> u64 \<Rightarrow> u64 \<Rightarrow> NewCacheMetadata option \<Rightarrow>
     RangeLookupPurpose \<Rightarrow> ProxyError + RangeLookupResult" where
  "find_cached_ranges blake3 jc env cache_key requested_start requested_end preloaded purpose =
     (if requested_start > requested_end then
        Inl (CacheError (''Invalid requested range: start ('' @ show_nat requested_start @ '') > end ('' @
               show_nat requested_end @ '')''))
      else
        (case (case preloaded of
                 Some m \<Rightarrow> Inr (Some m)
               | None \<Rightarrow> get_metadata jc (le_cap env) (le_now env) (le_metadata env cache_key)) of
           Inl e \<Rightarrow> Inl e
         | Inr None \<Rightarrow> Inr lookup_empty
         | Inr (Some metadata) \<Rightarrow>
             let expired = le_now env > nm_expires_at metadata;
                 stored_freshness = (if expired then Expired else Fresh);
                 etag = om_etag (nm_object_metadata metadata)
             in if expired \<and> purpose = FreshServe then Inr lookup_empty
                else
                  (case scan_ranges requested_start requested_end
                          (filter (\<lambda>r. range_file_belongs_to r (object_version_id blake3 etag))
                             (nm_ranges metadata)) [] of
                     Inl r \<Rightarrow> Inr \<lparr> lr_ranges = [r], lr_stored_freshness = stored_freshness \<rparr>
                   | Inr [] \<Rightarrow>
                       (case find_pending_journal_ranges blake3 jc (le_shared env) (le_journals env)
                               cache_key requested_start requested_end (Some etag) of
                          [] \<Rightarrow> Inr \<lparr> lr_ranges = [], lr_stored_freshness = stored_freshness \<rparr>
                        | journal_ranges \<Rightarrow> Inr (lookup_fresh journal_ranges))
                   | Inr overlapping_ranges \<Rightarrow>
                       Inr \<lparr> lr_ranges = sort_key cr_start overlapping_ranges,
                             lr_stored_freshness = stored_freshness \<rparr>)))"

text \<open>The range file of a cached range, from the metadata or else from the journals.\<close>

definition range_spec_not_found :: "string \<Rightarrow> Range \<Rightarrow> ProxyError" where
  "range_spec_not_found cache_key rng =
     CacheError (''Range spec not found for range '' @ show_nat (rg_start rng) @ ''-'' @
       show_nat (rg_end rng) @ '' in key: '' @ cache_key @ '' (checked metadata and journals)'')"

definition resolve_range_spec ::
    "(string \<Rightarrow> string) \<Rightarrow> JsonCodec \<Rightarrow> LookupEnv \<Rightarrow> string \<Rightarrow> Range \<Rightarrow> ProxyError + CacheRangeSpec" where
  "resolve_range_spec blake3 jc env cache_key rng =
     (case get_metadata jc (le_cap env) (le_now env) (le_metadata env cache_key) of
        Inl e \<Rightarrow> Inl e
      | Inr metadata \<Rightarrow>
          let mismatch =
                (case metadata of
                   Some meta \<Rightarrow>
                     if om_etag (nm_object_metadata meta) \<noteq> rg_etag rng
                     then Some (om_etag (nm_object_metadata meta)) else None
                 | None \<Rightarrow> None);
              in_metadata =
                (case metadata of
                   Some meta \<Rightarrow>
                     find (\<lambda>r. cr_start r = rg_start rng \<and> cr_end r = rg_end rng \<and>
                        range_file_belongs_to r (object_version_id blake3 (rg_etag rng))) (nm_ranges meta)
                 | None \<Rightarrow> None)
          in case mismatch of
               Some cached_etag \<Rightarrow> Inl (CacheVersionMismatch cache_key cached_etag (rg_etag rng))
             | None \<Rightarrow>
                 (case in_metadata of
                    Some spec \<Rightarrow> Inr spec
                  | None \<Rightarrow>
                      (case find (\<lambda>r. cr_start r = rg_start rng \<and> cr_end r = rg_end rng)
                              (find_pending_journal_ranges blake3 jc (le_shared env) (le_journals env)
                                 cache_key (rg_start rng) (rg_end rng) (Some (rg_etag rng))) of
                         Some spec \<Rightarrow> Inr spec
                       | None \<Rightarrow> Inl (range_spec_not_found cache_key rng))))"

definition load_range_data_from_new_storage ::
    "(string \<Rightarrow> string) \<Rightarrow> decoder \<Rightarrow> JsonCodec \<Rightarrow> LookupEnv \<Rightarrow> Disk \<Rightarrow> string \<Rightarrow> Range \<Rightarrow>
     (ProxyError + string) \<times> Disk" where
  "load_range_data_from_new_storage blake3 dec jc env disk cache_key rng =
     (case resolve_range_spec blake3 jc env cache_key rng of
        Inl e \<Rightarrow> (Inl e, disk)
      | Inr spec \<Rightarrow> load_range_data_for_version blake3 dec disk spec cache_key (rg_etag rng))"

definition load_range_frame_from_new_storage ::
    "(string \<Rightarrow> string) \<Rightarrow> JsonCodec \<Rightarrow> LookupEnv \<Rightarrow> Disk \<Rightarrow> string \<Rightarrow> Range \<Rightarrow>
     ProxyError + (string \<times> CompressionAlgorithm)" where
  "load_range_frame_from_new_storage blake3 jc env disk cache_key rng =
     (case resolve_range_spec blake3 jc env cache_key rng of
        Inl e \<Rightarrow> Inl e
      | Inr spec \<Rightarrow> read_range_frame blake3 disk spec (Some (cache_key, rg_etag rng)))"

section \<open>What the scans return\<close>

lemma scan_ranges_Inl:
  "scan_ranges s e rs acc = Inl r \<Longrightarrow> r \<in> set rs \<and> spec_overlaps s e r \<and> cr_start r \<le> s \<and> e \<le> cr_end r"
  by (induction s e rs acc rule: scan_ranges.induct) (auto split: if_splits)

lemma scan_ranges_Inr:
  "scan_ranges s e rs acc = Inr xs \<Longrightarrow> xs = acc @ filter (spec_overlaps s e) rs"
  by (induction s e rs acc rule: scan_ranges.induct) (auto split: if_splits)

lemma pending_range_Some:
  assumes "pending_range blake3 jc cache_key etag line = Some r"
  obtains v where "jc_view jc line = Some v" "pv_cache_key v = cache_key" "pv_operation v = Add"
    "pv_range_spec v = r" "range_file_belongs_to r (object_version_id blake3 etag)"
  using assms that unfolding pending_range_def view_matches_def entry_matches_object_version_def
  by (auto split: if_splits option.splits)

text \<open>The pending ranges of a version: those of the journal lines that pass the checks.\<close>

definition pending_specs ::
    "(string \<Rightarrow> string) \<Rightarrow> JsonCodec \<Rightarrow> JournalFile list option \<Rightarrow> string \<Rightarrow> string \<Rightarrow> CacheRangeSpec list" where
  "pending_specs blake3 jc journals cache_key etag =
     (case journals of
        Some files \<Rightarrow> List.map_filter (pending_range blake3 jc cache_key etag) (journal_lines files)
      | None \<Rightarrow> [])"

lemma pending_specs_belong:
  "r \<in> set (pending_specs blake3 jc journals cache_key etag) \<Longrightarrow>
     range_file_belongs_to r (object_version_id blake3 etag)"
  by (auto simp: pending_specs_def map_filter_def split: option.splits elim: pending_range_Some)

lemma find_pending_scan:
  "find_pending_journal_ranges blake3 jc shared journals cache_key s e (Some etag) =
     (if shared
      then (case scan_ranges s e (pending_specs blake3 jc journals cache_key etag) [] of
              Inl r \<Rightarrow> [r] | Inr matching_ranges \<Rightarrow> sort_key cr_start matching_ranges)
      else [])"
  by (cases journals) (simp_all add: find_pending_journal_ranges_def pending_specs_def)

lemma find_pending_subset:
  assumes "r \<in> set (find_pending_journal_ranges blake3 jc shared journals cache_key s e (Some etag))"
  shows "r \<in> set (pending_specs blake3 jc journals cache_key etag)" "spec_overlaps s e r"
proof -
  let ?ps = "pending_specs blake3 jc journals cache_key etag"
  have "r \<in> set ?ps \<and> spec_overlaps s e r"
  proof (cases "scan_ranges s e ?ps []")
    case (Inl r')
    with assms have "r = r'" by (simp add: find_pending_scan split: if_splits)
    then show ?thesis using scan_ranges_Inl [OF Inl] by simp
  next
    case (Inr xs)
    with assms have "r \<in> set xs" by (simp add: find_pending_scan split: if_splits)
    then show ?thesis using scan_ranges_Inr [OF Inr] by simp
  qed
  then show "r \<in> set ?ps" "spec_overlaps s e r" by simp_all
qed

definition spec_bytes :: "CacheRangeSpec list \<Rightarrow> nat set" where
  "spec_bytes rs = (\<Union>r \<in> set rs. {cr_start r..cr_end r})"

definition version_ranges :: "(string \<Rightarrow> string) \<Rightarrow> NewCacheMetadata \<Rightarrow> CacheRangeSpec list" where
  "version_ranges blake3 m =
     filter (\<lambda>r. range_file_belongs_to r (object_version_id blake3 (om_etag (nm_object_metadata m))))
       (nm_ranges m)"

lemma scan_covers:
  assumes "scan_ranges s e rs [] = res"
  shows "spec_bytes rs \<inter> {s..e} \<subseteq> spec_bytes (case res of Inl r \<Rightarrow> [r] | Inr xs \<Rightarrow> xs)"
proof (cases res)
  case (Inl r)
  then show ?thesis using scan_ranges_Inl assms by (fastforce simp: spec_bytes_def)
next
  case (Inr xs)
  then have "xs = filter (spec_overlaps s e) rs" using scan_ranges_Inr assms by fastforce
  then show ?thesis using Inr by (fastforce simp: spec_bytes_def)
qed


text \<open>
  A lookup that serves directly gets nothing from an object past its expiry, whatever is on
  disk or in the journals.
\<close>

lemma find_cached_ranges_expired:
  "s \<le> e \<Longrightarrow> le_now env > nm_expires_at m \<Longrightarrow>
     find_cached_ranges blake3 jc env key s e (Some m) FreshServe = Inr lookup_empty"
  by (simp add: find_cached_ranges_def Let_def)

text \<open>The range file a load resolves to has the extent asked for and is named for the version.\<close>

lemma find_SomeD: "find P xs = Some x \<Longrightarrow> x \<in> set xs \<and> P x"
  by (induction xs) (auto split: if_splits)

lemma resolve_range_spec_Inr:
  assumes "resolve_range_spec blake3 jc env key rng = Inr spec"
  shows "cr_start spec = rg_start rng" "cr_end spec = rg_end rng"
    "range_file_belongs_to spec (object_version_id blake3 (rg_etag rng))"
    "(\<exists>m. get_metadata jc (le_cap env) (le_now env) (le_metadata env key) = Inr (Some m) \<and>
         om_etag (nm_object_metadata m) = rg_etag rng \<and> spec \<in> set (nm_ranges m)) \<or>
     spec \<in> set (pending_specs blake3 jc (le_journals env) key (rg_etag rng))"
proof -
  let ?j = "find_pending_journal_ranges blake3 jc (le_shared env) (le_journals env) key
      (rg_start rng) (rg_end rng) (Some (rg_etag rng))"
  obtain meta where m: "get_metadata jc (le_cap env) (le_now env) (le_metadata env key) = Inr meta"
    using assms unfolding resolve_range_spec_def
    by (cases "get_metadata jc (le_cap env) (le_now env) (le_metadata env key)") simp_all
  let ?P = "\<lambda>r. cr_start r = rg_start rng \<and> cr_end r = rg_end rng \<and>
        range_file_belongs_to r (object_version_id blake3 (rg_etag rng))"
  have journal: "find (\<lambda>r. cr_start r = rg_start rng \<and> cr_end r = rg_end rng) ?j = Some spec"
    if "(case find (\<lambda>r. cr_start r = rg_start rng \<and> cr_end r = rg_end rng) ?j of
           Some spec \<Rightarrow> Inr spec | None \<Rightarrow> Inl (range_spec_not_found key rng)) = Inr spec"
    using that by (cases "find (\<lambda>r. cr_start r = rg_start rng \<and> cr_end r = rg_end rng) ?j") simp_all
  have "(\<exists>m. meta = Some m \<and> om_etag (nm_object_metadata m) = rg_etag rng \<and> find ?P (nm_ranges m) = Some spec) \<or>
    find (\<lambda>r. cr_start r = rg_start rng \<and> cr_end r = rg_end rng) ?j = Some spec"
  proof (cases meta)
    case None
    show ?thesis
      using assms unfolding resolve_range_spec_def m None sum.case option.case Let_def
      by (intro disjI2 journal)
  next
    case (Some m')
    show ?thesis
    proof (cases "om_etag (nm_object_metadata m') = rg_etag rng")
      case True
      have "(case find ?P (nm_ranges m') of Some spec \<Rightarrow> Inr spec | None \<Rightarrow>
          (case find (\<lambda>r. cr_start r = rg_start rng \<and> cr_end r = rg_end rng) ?j of
           Some spec \<Rightarrow> Inr spec | None \<Rightarrow> Inl (range_spec_not_found key rng))) = Inr spec"
        using assms unfolding resolve_range_spec_def m Some sum.case option.case Let_def
        by (simp only: True not_True_eq_False if_False option.case simp_thms)
      then show ?thesis using journal True Some by (cases "find ?P (nm_ranges m')") simp_all
    next
      case False
      then show ?thesis
        using assms unfolding resolve_range_spec_def m Some sum.case option.case Let_def
        by (simp only: False not_False_eq_True if_True option.case simp_thms) simp
    qed
  qed
  then have "cr_start spec = rg_start rng \<and> cr_end spec = rg_end rng \<and>
    range_file_belongs_to spec (object_version_id blake3 (rg_etag rng)) \<and>
    ((\<exists>m. meta = Some m \<and> om_etag (nm_object_metadata m) = rg_etag rng \<and> spec \<in> set (nm_ranges m)) \<or>
     spec \<in> set (pending_specs blake3 jc (le_journals env) key (rg_etag rng)))"
  proof
    assume "\<exists>m. meta = Some m \<and> om_etag (nm_object_metadata m) = rg_etag rng \<and> find ?P (nm_ranges m) = Some spec"
    then obtain m' where "meta = Some m'" "om_etag (nm_object_metadata m') = rg_etag rng"
      "find ?P (nm_ranges m') = Some spec" by blast
    with find_SomeD [OF this(3)] show ?thesis by blast
  next
    assume "find (\<lambda>r. cr_start r = rg_start rng \<and> cr_end r = rg_end rng) ?j = Some spec"
    from find_SomeD [OF this] show ?thesis using find_pending_subset(1) pending_specs_belong by blast
  qed
  then show "cr_start spec = rg_start rng" "cr_end spec = rg_end rng"
    "range_file_belongs_to spec (object_version_id blake3 (rg_etag rng))"
    "(\<exists>m. get_metadata jc (le_cap env) (le_now env) (le_metadata env key) = Inr (Some m) \<and>
         om_etag (nm_object_metadata m) = rg_etag rng \<and> spec \<in> set (nm_ranges m)) \<or>
     spec \<in> set (pending_specs blake3 jc (le_journals env) key (rg_etag rng))"
    unfolding m by auto
qed

section \<open>Retries of a metadata read\<close>

definition transient_read :: "ReadResult \<Rightarrow> bool" where
  "transient_read r =
     (case r of ReadOk c \<Rightarrow> c = [] | ReadFailed raw message \<Rightarrow> stale_handle raw message | ReadNotFound \<Rightarrow> False)"

lemma read_metadata_loop_transient:
  assumes "\<forall>i. n \<le> i \<and> i < j \<longrightarrow> transient_read (reads i)" "n \<le> j" "j \<le> 3" "reads j = ReadOk c" "c \<noteq> []"
  shows "read_metadata_loop reads n = (Inr c, j + 1)"
  using assms
proof (induction "j - n" arbitrary: n)
  case 0
  then show ?case by (subst read_metadata_loop.simps) (simp add: Let_def)
next
  case (Suc d)
  then have n: "n < j" "transient_read (reads n)" by auto
  have "read_metadata_loop reads (n + 1) = (Inr c, j + 1)" using Suc by (intro Suc.hyps(1)) auto
  then show ?case
    using n Suc.prems(3)
    by (subst read_metadata_loop.simps)
      (auto simp: Let_def transient_read_def MAX_RETRIES_def split: ReadResult.splits)
qed

lemma parse_metadata_loop_recovers:
  assumes "\<forall>i < k. jc_metadata jc (cs i) = None" "jc_metadata jc (cs k) = Some m" "a + k < 3"
    and "\<forall>i. i < k \<longrightarrow> reads (n + i) = ReadOk (cs (i + 1))"
  shows "parse_metadata_loop jc reads a n (cs 0) = Inr m"
  using assms
proof (induction k arbitrary: a n cs)
  case 0
  then show ?case by (subst parse_metadata_loop.simps) simp
next
  case (Suc k)
  have "\<forall>i. i < k \<longrightarrow> reads (n + 1 + i) = ReadOk (cs (i + 1 + 1))"
    using Suc.prems(4) by (metis Suc_eq_plus1 Suc_mono add.assoc add.commute)
  then have "parse_metadata_loop jc reads (a + 1) (n + 1) (cs 1) = Inr m"
    using Suc.IH [of "\<lambda>i. cs (i + 1)" "a + 1" "n + 1"] Suc.prems(1-3) by simp
  moreover have "jc_metadata jc (cs 0) = None" "reads n = ReadOk (cs 1)"
    using Suc.prems(1) spec [OF Suc.prems(4), of 0] by simp_all
  ultimately show ?case
    using Suc.prems(3) by (subst parse_metadata_loop.simps) (simp add: Let_def MAX_RETRIES_def)
qed

text \<open>
  C31: A metadata file that is being rewritten is read as soon as it is whole. If up to three
  reads find it empty or meet a stale handle, and up to two more find text that does not
  parse, and the next read finds text that parses, the lookup returns that metadata: no file
  caught in the middle of a write is taken for a corrupt one.
\<close>

theorem metadata_read_recovers:
  assumes "mo_stat obs = StatOk n" "n \<le> cap"
    and "j \<le> 3" "\<forall>i < j. transient_read (mo_reads obs i)"
    and "k \<le> 2" "\<forall>i \<le> k. mo_reads obs (j + i) = ReadOk (cs i)" "cs 0 \<noteq> []"
    and "\<forall>i < k. jc_metadata jc (cs i) = None" "jc_metadata jc (cs k) = Some m"
  shows "read_and_parse_metadata_blocking jc cap obs = Parsed m"
proof -
  have "mo_reads obs j = ReadOk (cs 0)" using assms(6) by (metis add_0_right le0)
  then have "read_metadata_loop (mo_reads obs) 0 = (Inr (cs 0), j + 1)"
    using assms(3,4,7) by (intro read_metadata_loop_transient) auto
  moreover have "\<forall>i. i < k \<longrightarrow> mo_reads obs (j + 1 + i) = ReadOk (cs (i + 1))"
    using assms(6) by (metis Suc_eq_plus1 Suc_leI add.assoc add.commute)
  then have "parse_metadata_loop jc (mo_reads obs) 0 (j + 1) (cs 0) = Inr m"
    using assms(5) by (intro parse_metadata_loop_recovers [OF assms(8,9)]) auto
  ultimately show ?thesis
    using assms(1,2,7) by (simp add: read_and_parse_metadata_blocking_def)
qed

lemma parse_metadata_loop_Inl: "parse_metadata_loop jc reads a n c = Inl c' \<Longrightarrow> jc_metadata jc c' = None"
proof (induction jc reads a n c rule: parse_metadata_loop.induct)
  case (1 jc reads a n c)
  show ?case
  proof (cases "jc_metadata jc c")
    case None
    have eq: "(if a + 1 < MAX_RETRIES then
         (case reads n of
            ReadOk new_content \<Rightarrow> parse_metadata_loop jc reads (a + 1) (n + 1) new_content
          | _ \<Rightarrow> parse_metadata_loop jc reads (a + 1) (n + 1) c)
       else Inl c) = Inl c'"
      using "1.prems" unfolding parse_metadata_loop.simps [of jc reads a n c] Let_def None option.case .
    then show ?thesis
      using "1.IH" [OF refl None] None
      by (cases "a + 1 < MAX_RETRIES"; cases "reads n") simp_all
  next
    case (Some m)
    then show ?thesis using "1.prems" by (subst (asm) parse_metadata_loop.simps) simp
  qed
qed

lemma read_metadata_loop_Inl: "read_metadata_loop reads n = (Inl r, k) \<Longrightarrow> r = Missing \<or> r = TransientMiss"
proof (induction reads n rule: read_metadata_loop.induct)
  case (1 reads n)
  show ?case
    using "1.prems" "1.IH" [OF refl] unfolding read_metadata_loop.simps [of reads n] Let_def
    by (cases "reads n") (simp_all split: if_splits)
qed


section \<open>Lookups that go wrong\<close>

text \<open>
  The journal fallback reports its ranges as fresh even when the lookup has found the object
  past its expiry and only continues so that the caller can revalidate.
\<close>

lemma expired_journal_ranges_reported_fresh:
  assumes "s \<le> e" "le_now env > nm_expires_at m" "nm_ranges m = []"
    and "find_pending_journal_ranges blake3 jc (le_shared env) (le_journals env) key s e
      (Some (om_etag (nm_object_metadata m))) = r # rs"
  shows "find_cached_ranges blake3 jc env key s e (Some m) RevalidationCandidate =
    Inr \<lparr> lr_ranges = r # rs, lr_stored_freshness = Fresh \<rparr>"
  using assms by (simp add: find_cached_ranges_def Let_def lookup_fresh_def)

text \<open>
  A pending range behind a larger one in the journals is returned by a lookup that overlaps
  both, but loading it fails: the search for it stops at the larger range.
\<close>

lemma shadowed_pending_range_not_loadable:
  assumes "pending_specs blake3 jc (le_journals env) key etag = [a, b]" "le_shared env"
    and "cr_start a \<le> cr_start b" "cr_start b \<le> cr_end b" "cr_end b \<le> cr_end a"
      "(cr_start a, cr_end a) \<noteq> (cr_start b, cr_end b)" "cr_end a < e"
    and "get_metadata jc (le_cap env) (le_now env) (le_metadata env key) = Inr None"
    and "rg_start rng = cr_start b" "rg_end rng = cr_end b" "rg_etag rng = etag"
  shows "find_pending_journal_ranges blake3 jc True (le_journals env) key (cr_start a) e (Some etag) = [a, b]"
    and "resolve_range_spec blake3 jc env key rng = Inl (range_spec_not_found key rng)"
proof -
  show "find_pending_journal_ranges blake3 jc True (le_journals env) key (cr_start a) e (Some etag) = [a, b]"
    using assms(1,3-7) by (simp add: find_pending_scan)
  have "find_pending_journal_ranges blake3 jc True (le_journals env) key (cr_start b) (cr_end b) (Some etag) = [a]"
    using assms(1,3-6) by (auto simp: find_pending_scan)
  then show "resolve_range_spec blake3 jc env key rng = Inl (range_spec_not_found key rng)"
    using assms(2,6,8-11) by (auto simp: resolve_range_spec_def Let_def)
qed

section \<open>Samples\<close>

definition sample_codec :: JsonCodec where
  "sample_codec = \<lparr> jc_metadata = (\<lambda>c. if c = ''{m}'' then Some sample_metadata else None),
     jc_object = (\<lambda>_. None), jc_view = (\<lambda>_. None), jc_key = id \<rparr>"

definition sample_obs :: "string \<Rightarrow> MetadataObs" where
  "sample_obs c = \<lparr> mo_stat = StatOk 3, mo_reads = (\<lambda>i. if i = 0 then ReadOk [] else if i = 1 then ReadOk ''{''
       else ReadOk c), mo_restat = StatOk 3 \<rparr>"

definition sample_env :: LookupEnv where
  "sample_env = \<lparr> le_now = 1, le_cap = 100, le_shared = True,
     le_metadata = (\<lambda>_. \<lparr> mi_exists = True, mi_permit = True, mi_joined = True, mi_obs = sample_obs ''{m}'' \<rparr>),
     le_journals = None \<rparr>"

theorem metadata_read_recovers_witness:
  "read_and_parse_metadata_blocking sample_codec 100 (sample_obs ''{m}'') = Parsed sample_metadata"
  by (rule metadata_read_recovers [where n = 3 and j = 1 and k = 1 and cs = "\<lambda>i. if i = 0 then ''{'' else ''{m}''"])
    (auto simp: sample_obs_def sample_codec_def transient_read_def)



end
