(* ===== verification/Journal_Files.thy ===== *)
theory Journal_Files
  imports Disk_Lookup "HOL-Library.Multiset"
begin

text \<open>
  The journal files of \<open>src/src/journal_manager.rs\<close>: appending one entry or a batch, reading the
  entries of a key back, and removing entries.

  The directory is an association list from file names to contents. \<open>serde_json\<close> is a parameter,
  \<open>JournalCodec\<close>; \<open>journal_codec_ok\<close> states what the code relies on. The temporary file of an
  append is renamed or removed before the append returns and its name does not end in
  \<open>.journal\<close>, so it is not part of the model. A failing write leaves a prefix of its bytes behind.
\<close>

record JournalCodec =
  js_show :: "JournalEntry \<Rightarrow> string + string"
  js_parse :: "string \<Rightarrow> JournalEntry option"
  js_key :: "string \<Rightarrow> string"

type_synonym journal_dir = "(string \<times> string) list"

record JournalIo =
  ji_create_dir :: "string option"
  ji_open_lock :: "string option"
  ji_got_lock :: bool
  ji_nanos :: nat
  ji_read :: "string option"
  ji_write :: "(string \<times> nat) option"
  ji_rename :: "string option"

definition journal_io_ok :: JournalIo where
  "journal_io_ok = \<lparr> ji_create_dir = None, ji_open_lock = None, ji_got_lock = True, ji_nanos = 0,
     ji_read = None, ji_write = None, ji_rename = None \<rparr>"

abbreviation newline :: char where
  "newline \<equiv> CHR 0x0A"

section \<open>Appending\<close>

definition primary_journal :: "string \<Rightarrow> string" where
  "primary_journal instance_id = instance_id @ ''.journal''"

definition fresh_journal :: "string \<Rightarrow> nat \<Rightarrow> string" where
  "fresh_journal instance_id timestamp = instance_id @ '':'' @ show_nat timestamp @ ''.journal''"

text \<open>
  The part the two append operations share, once the lines are serialized: the primary file is
  rewritten under its lock, and a fresh file is written when the lock is busy.
\<close>

definition append_lines ::
    "JournalIo \<Rightarrow> string \<Rightarrow> string \<Rightarrow> journal_dir \<Rightarrow> (ProxyError + unit) \<times> journal_dir" where
  "append_lines io instance_id serialized_lines dir =
     (case ji_open_lock io of
        Some e \<Rightarrow> (Inl (CacheError (''Failed to open journal lock file: '' @ e)), dir)
      | None \<Rightarrow>
          if ji_got_lock io then
            (let journal_path = primary_journal instance_id;
                 existing_content =
                   (case map_of dir journal_path of
                      None \<Rightarrow> []
                    | Some content \<Rightarrow> if ji_read io = None then content else [])
             in case ji_write io of
                  Some (e, _) \<Rightarrow>
                    (Inl (CacheError (''Failed to write journal temp file: '' @ e)), dir)
                | None \<Rightarrow>
                    (case ji_rename io of
                       Some e \<Rightarrow> (Inl (CacheError (''Failed to rename journal file: '' @ e)), dir)
                     | None \<Rightarrow>
                         (Inr (), AList.update journal_path (existing_content @ serialized_lines) dir)))
          else
            (let journal_path = fresh_journal instance_id (ji_nanos io)
             in case ji_write io of
                  Some (e, n) \<Rightarrow>
                    (Inl (CacheError (''Failed to write fresh journal file: '' @ e)),
                     AList.update journal_path (take n serialized_lines) dir)
                | None \<Rightarrow> (Inr (), AList.update journal_path serialized_lines dir)))"

definition append_range_entry ::
    "JournalCodec \<Rightarrow> JournalIo \<Rightarrow> string \<Rightarrow> JournalEntry \<Rightarrow> journal_dir \<Rightarrow>
     (ProxyError + unit) \<times> journal_dir" where
  "append_range_entry js io instance_id entry dir =
     (case ji_create_dir io of
        Some e \<Rightarrow> (Inl (CacheError (''Failed to create journal directory: '' @ e)), dir)
      | None \<Rightarrow>
          (case js_show js entry of
             Inl e \<Rightarrow> (Inl (CacheError (''Failed to serialize journal entry: '' @ e)), dir)
           | Inr json_entry \<Rightarrow> append_lines io instance_id (json_entry @ [newline]) dir))"

fun serialize_entries :: "JournalCodec \<Rightarrow> JournalEntry list \<Rightarrow> ProxyError + string" where
  "serialize_entries js [] = Inr []"
| "serialize_entries js (entry # entries) =
     (case js_show js entry of
        Inl e \<Rightarrow> Inl (CacheError (''Failed to serialize journal entry: '' @ e))
      | Inr json_entry \<Rightarrow>
          (case serialize_entries js entries of
             Inl e \<Rightarrow> Inl e
           | Inr rest \<Rightarrow> Inr (json_entry @ [newline] @ rest)))"

definition append_range_entries_batch ::
    "JournalCodec \<Rightarrow> JournalIo \<Rightarrow> string \<Rightarrow> JournalEntry list \<Rightarrow> journal_dir \<Rightarrow>
     (ProxyError + unit) \<times> journal_dir" where
  "append_range_entries_batch js io instance_id entries dir =
     (if entries = [] then (Inr (), dir)
      else
        (case ji_create_dir io of
           Some e \<Rightarrow> (Inl (CacheError (''Failed to create journal directory: '' @ e)), dir)
         | None \<Rightarrow>
             (case serialize_entries js entries of
                Inl e \<Rightarrow> (Inl e, dir)
              | Inr serialized_lines \<Rightarrow> append_lines io instance_id serialized_lines dir)))"

section \<open>Reading\<close>

text \<open>The entry of a line, for a reader that looks for one key; and every entry of a file.\<close>

definition line_entry :: "JournalCodec \<Rightarrow> string \<Rightarrow> string \<Rightarrow> JournalEntry option" where
  "line_entry js cache_key line =
     (if trim line = [] \<or> \<not> contains_str (js_key js cache_key) line then None
      else (case js_parse js line of
              None \<Rightarrow> None
            | Some entry \<Rightarrow> if je_cache_key entry = cache_key then Some entry else None))"

definition file_entries :: "JournalCodec \<Rightarrow> string \<Rightarrow> JournalEntry list" where
  "file_entries js content =
     List.map_filter (\<lambda>line. if trim line = [] then None else js_parse js line) (str_lines content)"

definition get_pending_entries ::
    "JournalCodec \<Rightarrow> string option \<Rightarrow> string \<Rightarrow> string \<Rightarrow> journal_dir \<Rightarrow> ProxyError + JournalEntry list" where
  "get_pending_entries js read instance_id cache_key dir =
     (case map_of dir (primary_journal instance_id) of
        None \<Rightarrow> Inr []
      | Some content \<Rightarrow>
          (case read of
             Some e \<Rightarrow> Inl (CacheError (''Failed to read journal file: '' @ e))
           | None \<Rightarrow> Inr (List.map_filter (line_entry js cache_key) (str_lines content))))"

text \<open>
  A directory listing is absent, a failure, or its entries in the order the file system gives
  them, each of which can fail. The contents of a file that cannot be read are \<open>None\<close>.
\<close>

fun collect_journal_files :: "(string + JournalFile) list \<Rightarrow> ProxyError + JournalFile list" where
  "collect_journal_files [] = Inr []"
| "collect_journal_files (Inl e # entries) =
     Inl (CacheError (''Failed to read directory entry: '' @ e))"
| "collect_journal_files (Inr f # entries) =
     (case collect_journal_files entries of
        Inl e \<Rightarrow> Inl e
      | Inr journal_files \<Rightarrow>
          Inr (if jf_is_file f \<and> ends_with ''.journal'' (jf_name f) then f # journal_files
               else journal_files))"

type_synonym journal_listing = "(string + (string + JournalFile) list) option"

definition find_all_journal_files :: "journal_listing \<Rightarrow> ProxyError + JournalFile list" where
  "find_all_journal_files listing =
     (case listing of
        None \<Rightarrow> Inr []
      | Some (Inl e) \<Rightarrow> Inl (CacheError (''Failed to read journal directory: '' @ e))
      | Some (Inr entries) \<Rightarrow> collect_journal_files entries)"

definition get_entries_from_files ::
    "JournalCodec \<Rightarrow> string \<Rightarrow> JournalFile list \<Rightarrow> JournalEntry list" where
  "get_entries_from_files js cache_key journal_files =
     sort_key je_timestamp
       (concat (map (\<lambda>f. case jf_content f of
                           Some content \<Rightarrow> List.map_filter (line_entry js cache_key) (str_lines content)
                         | None \<Rightarrow> []) journal_files))"

definition get_all_entries_for_cache_key ::
    "JournalCodec \<Rightarrow> string \<Rightarrow> journal_listing \<Rightarrow>
     ProxyError + JournalEntry list" where
  "get_all_entries_for_cache_key js cache_key listing =
     (case find_all_journal_files listing of
        Inl e \<Rightarrow> Inl e
      | Inr journal_files \<Rightarrow> Inr (get_entries_from_files js cache_key journal_files))"

text \<open>The listing of a directory all of whose files can be read.\<close>

definition list_journals :: "journal_dir \<Rightarrow> journal_listing" where
  "list_journals dir =
     Some (Inr (map (\<lambda>(name, content).
       Inr \<lparr> jf_name = name, jf_is_file = True, jf_content = Some content \<rparr>) dir))"

definition has_pending_range_file ::
    "JournalCodec \<Rightarrow> string \<Rightarrow> string \<Rightarrow> journal_listing \<Rightarrow> ProxyError + bool" where
  "has_pending_range_file js cache_key relative_path listing =
     (case get_all_entries_for_cache_key js cache_key listing of
        Inl e \<Rightarrow> Inl e
      | Inr entries \<Rightarrow>
          Inr (list_ex (\<lambda>entry. carries_bytes (je_operation entry) \<and>
                 cr_file_path (je_range_spec entry) = relative_path) entries))"

section \<open>Removing entries\<close>

text \<open>
  Entries that serialize are written back in order; a file left without entries is removed.
  \<open>rm\<close> is the error of removing the file and \<open>wr\<close> that of writing it.
\<close>

definition show_lines :: "JournalCodec \<Rightarrow> JournalEntry list \<Rightarrow> string" where
  "show_lines js entries =
     concat (map (\<lambda>entry. case js_show js entry of Inr json \<Rightarrow> json @ [newline] | Inl _ \<Rightarrow> []) entries)"

definition remove_entries ::
    "JournalCodec \<Rightarrow> string option \<Rightarrow> string option \<Rightarrow> (string \<times> nat) option \<Rightarrow> string \<Rightarrow>
     JournalEntry list \<Rightarrow> journal_dir \<Rightarrow> (ProxyError + unit) \<times> journal_dir" where
  "remove_entries js read rm wr instance_id entries_to_remove dir =
     (let journal_path = primary_journal instance_id
      in case map_of dir journal_path of
           None \<Rightarrow> (Inr (), dir)
         | Some content \<Rightarrow>
             (case read of
                Some e \<Rightarrow> (Inl (CacheError (''Failed to read journal file: '' @ e)), dir)
              | None \<Rightarrow>
                  let existing_entries = file_entries js content;
                      filtered_entries =
                        filter (\<lambda>entry. entry \<notin> set entries_to_remove) existing_entries;
                      removed_count = length existing_entries - length filtered_entries
                  in if removed_count = 0 then (Inr (), dir)
                     else if filtered_entries = [] then
                       (case rm of
                          Some e \<Rightarrow> (Inl (CacheError (''Failed to remove empty journal file: '' @ e)), dir)
                        | None \<Rightarrow> (Inr (), AList.delete journal_path dir))
                     else
                       (case wr of
                          Some (e, n) \<Rightarrow>
                            (Inl (CacheError (''Failed to write filtered journal file: '' @ e)),
                             AList.update journal_path (take n (show_lines js filtered_entries)) dir)
                        | None \<Rightarrow>
                            (Inr (), AList.update journal_path (show_lines js filtered_entries) dir))))"

text \<open>What the file system answers for one journal file of a multipart cleanup.\<close>

record CleanupIo =
  ci_read :: "string \<Rightarrow> string option"
  ci_remove :: "string \<Rightarrow> string option"
  ci_write :: "string \<Rightarrow> (string \<times> nat) option"

definition remove_entries_from_journal_file ::
    "JournalCodec \<Rightarrow> CleanupIo \<Rightarrow> string \<Rightarrow> string \<Rightarrow> journal_dir \<Rightarrow> u64 \<times> journal_dir" where
  "remove_entries_from_journal_file js io cache_key journal_path dir =
     (case map_of dir journal_path of
        None \<Rightarrow> (0, dir)
      | Some content \<Rightarrow>
          (case ci_read io journal_path of
             Some e \<Rightarrow> (0, dir)
           | None \<Rightarrow>
               let existing_entries = file_entries js content;
                   filtered_entries = filter (\<lambda>entry. je_cache_key entry \<noteq> cache_key) existing_entries;
                   removed_count = length existing_entries - length filtered_entries
               in (removed_count,
                   if removed_count = 0 then dir
                   else if filtered_entries = [] then
                     (if ci_remove io journal_path = None then AList.delete journal_path dir else dir)
                   else
                     (case ci_write io journal_path of
                        Some (e, n) \<Rightarrow>
                          AList.update journal_path (take n (show_lines js filtered_entries)) dir
                      | None \<Rightarrow> AList.update journal_path (show_lines js filtered_entries) dir))))"

definition cleanup_journal_entries_for_cache_key ::
    "JournalCodec \<Rightarrow> CleanupIo \<Rightarrow> string \<Rightarrow> string list \<Rightarrow> journal_dir \<Rightarrow> u64 \<times> journal_dir" where
  "cleanup_journal_entries_for_cache_key js io cache_key listing dir =
     fold (\<lambda>name (removed_count, dir).
             let (count, dir) = remove_entries_from_journal_file js io cache_key name dir
             in (u64_add removed_count count, dir))
       (filter (ends_with ''.journal'') listing) (0, dir)"

section \<open>What is read after an append\<close>

text \<open>
  What the code relies on of \<open>serde_json\<close>: an entry is written on one line that parses back to
  it and contains its key as \<open>js_key\<close> encodes it; a line cut short does not parse.
\<close>

definition journal_codec_ok :: "JournalCodec \<Rightarrow> bool" where
  "journal_codec_ok js \<longleftrightarrow>
     (\<forall>entry line. js_show js entry = Inr line \<longrightarrow>
        js_parse js line = Some entry \<and> newline \<notin> set line \<and> CHR 0x0D \<notin> set line \<and>
        trim line \<noteq> [] \<and> contains_str (js_key js (je_cache_key entry)) line \<and>
        (\<forall>n < length line. js_parse js (take n line) = None))"

definition terminated :: "string \<Rightarrow> bool" where
  "terminated content \<longleftrightarrow> content = [] \<or> last content = newline"

lemma split_char_append: "split_char d (a @ d # b) = split_char d a @ split_char d b"
  by (induction d a rule: split_char.induct) (auto split: list.split simp: Let_def)

lemma str_lines_append:
  assumes "terminated a"
  shows "str_lines (a @ b) = str_lines a @ str_lines b"
proof (cases "a = []")
  case False
  then obtain a' where "a = a' @ [newline]" using assms by (metis append_butlast_last_id terminated_def)
  then show ?thesis by (simp add: str_lines_def split_char_append butlast_append Let_def)
qed (simp add: str_lines_def)

lemma str_lines_line:
  assumes "newline \<notin> set line" "CHR 0x0D \<notin> set line"
  shows "str_lines (line @ [newline]) = [line]" "str_lines line = (if line = [] then [] else [line])"
proof -
  have "strip_suffix [CHR 0x0D] line = None"
    using assms(2) by (cases "strip_suffix [CHR 0x0D] line") (auto simp: strip_suffix_Some)
  then show "str_lines (line @ [newline]) = [line]" "str_lines line = (if line = [] then [] else [line])"
    using assms(1) by (simp_all add: str_lines_def split_char_append split_char_no_sep)
qed

abbreviation line_entries :: "JournalCodec \<Rightarrow> string \<Rightarrow> string \<Rightarrow> JournalEntry list" where
  "line_entries js key content \<equiv> List.map_filter (line_entry js key) (str_lines content)"

abbreviation of_key :: "string \<Rightarrow> JournalEntry list \<Rightarrow> JournalEntry list" where
  "of_key key \<equiv> filter (\<lambda>entry. je_cache_key entry = key)"

abbreviation unlines :: "string list \<Rightarrow> string" where
  "unlines ls \<equiv> concat (map (\<lambda>line. line @ [newline]) ls)"

definition shown :: "JournalCodec \<Rightarrow> JournalEntry list \<Rightarrow> string list \<Rightarrow> bool" where
  "shown js entries ls \<longleftrightarrow> list_all2 (\<lambda>entry line. js_show js entry = Inr line) entries ls"

lemma serialize_entries_shown:
  "serialize_entries js entries = Inr s \<Longrightarrow> \<exists>ls. shown js entries ls \<and> s = unlines ls"
proof (induction entries arbitrary: s)
  case (Cons e es)
  then obtain line rest where parts: "js_show js e = Inr line" "serialize_entries js es = Inr rest"
    "s = line @ [newline] @ rest" by (auto split: sum.splits)
  from Cons.IH [OF parts(2)] obtain ls where "shown js es ls" "rest = unlines ls" by blast
  with parts show ?case by (intro exI [of _ "line # ls"]) (simp add: shown_def)
qed (simp add: shown_def)

lemma line_entry_shown:
  assumes "journal_codec_ok js" "js_show js e = Inr line"
  shows "line_entry js key line = (if je_cache_key e = key then Some e else None)"
  using assms by (auto simp: journal_codec_ok_def line_entry_def)

lemma line_entry_cut:
  assumes "journal_codec_ok js" "js_show js e = Inr line" "n < length line"
  shows "line_entry js key (take n line) = None"
  using assms by (auto simp: journal_codec_ok_def line_entry_def)

lemma written_entries:
  assumes "journal_codec_ok js" "shown js entries ls"
  shows "\<exists>m \<le> length entries. (length (unlines ls) \<le> n \<longrightarrow> m = length entries) \<and>
    (\<forall>key. line_entries js key (take n (unlines ls)) = of_key key (take m entries))"
  using assms(2)
proof (induction entries arbitrary: ls n)
  case Nil
  then show ?case by (simp add: shown_def str_lines_def map_filter_def)
next
  case (Cons e es)
  then obtain line rest where ls: "ls = line # rest" "js_show js e = Inr line" "shown js es rest"
    by (auto simp: shown_def list_all2_Cons1)
  have "trim [] = []" by code_simp
  then have line: "newline \<notin> set line" "CHR 0x0D \<notin> set line" "line \<noteq> []"
    using assms(1) ls(2) unfolding journal_codec_ok_def by fastforce+
  note one = str_lines_line [OF line(1,2)] line_entry_shown [OF assms(1) ls(2)]
  consider "length line < n" | "n = length line" | "n < length line" by linarith
  then show ?case
  proof cases
    case 1
    let ?k = "n - Suc (length line)"
    obtain m where m: "m \<le> length es" "length (unlines rest) \<le> ?k \<longrightarrow> m = length es"
      "\<forall>key. line_entries js key (take ?k (unlines rest)) = of_key key (take m es)"
      using Cons.IH [OF ls(3)] by blast
    have "take n (unlines ls) = (line @ [newline]) @ take ?k (unlines rest)"
      using 1 ls(1) by (cases n) (simp_all add: Suc_diff_le)
    then have "str_lines (take n (unlines ls)) = line # str_lines (take ?k (unlines rest))"
      using str_lines_append [of "line @ [newline]" "take ?k (unlines rest)"]
      by (simp add: terminated_def one(1))
    then show ?thesis
      using m one(3) 1 ls(1) by (intro exI [of _ "Suc m"]) (auto simp: map_filter_simps)
  next
    case 2
    then have "take n (unlines ls) = line" using ls(1) by simp
    then show ?thesis
      using one(2,3) line(3) 2 ls(1)
      by (intro exI [of _ 1]) (auto simp: map_filter_simps)
  next
    case 3
    then have t: "take n (unlines ls) = take n line" using ls(1) by simp
    have "newline \<notin> set (take n line)" "CHR 0x0D \<notin> set (take n line)"
      using line(1,2) by (auto dest: in_set_takeD)
    from str_lines_line(2) [OF this] show ?thesis
      using line_entry_cut [OF assms(1) ls(2) 3] t 3 ls(1)
      by (intro exI [of _ 0]) (auto simp: map_filter_simps)
  qed
qed

text \<open>The entries of a key in a directory, without their order.\<close>

definition journal_entries :: "JournalCodec \<Rightarrow> string \<Rightarrow> string \<times> string \<Rightarrow> JournalEntry multiset" where
  "journal_entries js key = (\<lambda>(name, content).
     if ends_with ''.journal'' name then mset (line_entries js key content) else {#})"

definition dir_entries :: "JournalCodec \<Rightarrow> string \<Rightarrow> journal_dir \<Rightarrow> JournalEntry multiset" where
  "dir_entries js key dir = sum_list (map (journal_entries js key) dir)"

lemma list_journals_entries:
  "\<exists>xs. get_all_entries_for_cache_key js key (list_journals dir) = Inr xs \<and>
     mset xs = dir_entries js key dir \<and> sorted (map je_timestamp xs)"
proof -
  let ?file = "\<lambda>(name, content).
    \<lparr> jf_name = name, jf_is_file = True, jf_content = Some content \<rparr>"
  let ?js = "map ?file (filter (\<lambda>(name, _). ends_with ''.journal'' name) dir)"
  have files: "collect_journal_files (map (\<lambda>(name, content).
       Inr \<lparr> jf_name = name, jf_is_file = True, jf_content = Some content \<rparr>) dir) = Inr ?js"
    by (induction dir) auto
  have "mset (concat (map (\<lambda>f. case jf_content f of Some c \<Rightarrow> line_entries js key c | None \<Rightarrow> []) ?js)) =
      dir_entries js key dir"
    by (induction dir) (auto simp: dir_entries_def journal_entries_def)
  then have "mset (get_entries_from_files js key ?js) = dir_entries js key dir"
    by (simp add: get_entries_from_files_def)
  moreover have "sorted (map je_timestamp (get_entries_from_files js key ?js))"
    by (simp add: get_entries_from_files_def)
  ultimately show ?thesis
    by (simp add: get_all_entries_for_cache_key_def find_all_journal_files_def list_journals_def files)
qed

lemma dir_entries_new:
  "map_of dir name = None \<Longrightarrow>
   dir_entries js key (AList.update name content dir) =
     dir_entries js key dir + journal_entries js key (name, content)"
  by (induction dir) (auto simp: dir_entries_def ac_simps split: if_splits)

lemma dir_entries_replace:
  "map_of dir name = Some old \<Longrightarrow>
   dir_entries js key (AList.update name content dir) + journal_entries js key (name, old) =
     dir_entries js key dir + journal_entries js key (name, content)"
  by (induction dir) (auto simp: dir_entries_def ac_simps split: if_splits)

lemma journal_names:
  "ends_with ''.journal'' (primary_journal i)" "ends_with ''.journal'' (fresh_journal i n)"
  by (simp_all add: primary_journal_def fresh_journal_def ends_with_def strip_suffix_Some)

lemma append_lines_entries:
  assumes "journal_codec_ok js" "shown js entries ls" "ji_read io = None"
    and "\<And>c. map_of dir (primary_journal i) = Some c \<Longrightarrow> terminated c"
    and "map_of dir (fresh_journal i (ji_nanos io)) = None"
    and "append_lines io i (unlines ls) dir = (res, dir')"
  shows "\<exists>n \<le> length entries. (res = Inr () \<longrightarrow> n = length entries) \<and>
    (res \<noteq> Inr () \<and> ji_got_lock io \<longrightarrow> n = 0) \<and>
    (\<forall>key. dir_entries js key dir' = dir_entries js key dir + mset (of_key key (take n entries)))"
proof -
  have all: "line_entries js key (unlines ls) = of_key key entries" for key
    using written_entries [OF assms(1,2), of "length (unlines ls)"] by fastforce
  consider (same) "dir' = dir" "res \<noteq> Inr ()"
    | (primary) "res = Inr ()" "dir' = AList.update (primary_journal i)
        ((case map_of dir (primary_journal i) of None \<Rightarrow> [] | Some c \<Rightarrow> c) @ unlines ls) dir"
    | (fresh) n where "\<not> ji_got_lock io" "res = Inr () \<longrightarrow> n = length (unlines ls)"
        "dir' = AList.update (fresh_journal i (ji_nanos io)) (take n (unlines ls)) dir"
    using assms(3,6) by (auto simp: append_lines_def Let_def split: option.splits if_splits prod.splits)
  then show ?thesis
  proof cases
    case same
    then show ?thesis by (intro exI [of _ 0]) simp
  next
    case primary
    have "dir_entries js key dir' = dir_entries js key dir + mset (of_key key entries)" for key
    proof (cases "map_of dir (primary_journal i)")
      case None
      then show ?thesis
        using dir_entries_new [OF None] primary(2) all by (simp add: journal_entries_def journal_names)
    next
      case (Some c)
      have "line_entries js key (c @ unlines ls) = line_entries js key c @ of_key key entries"
        by (simp add: str_lines_append [OF assms(4) [OF Some]] map_filter_def flip: all)
      then show ?thesis
        using dir_entries_replace [OF Some, of js key "c @ unlines ls"] primary(2) Some
        by (simp add: journal_entries_def journal_names)
    qed
    then show ?thesis using primary(1) by (intro exI [of _ "length entries"]) simp
  next
    case fresh
    obtain m where m: "m \<le> length entries" "length (unlines ls) \<le> n \<longrightarrow> m = length entries"
      "\<forall>key. line_entries js key (take n (unlines ls)) = of_key key (take m entries)"
      using written_entries [OF assms(1,2)] by blast
    have "dir_entries js key dir' = dir_entries js key dir + mset (of_key key (take m entries))" for key
      using dir_entries_new [OF assms(5)] fresh(3) m(3) by (simp add: journal_entries_def journal_names)
    then show ?thesis using m fresh by (intro exI [of _ m]) auto
  qed
qed

lemma append_batch_entries:
  assumes "journal_codec_ok js" "ji_read io = None"
    and "\<And>c. map_of dir (primary_journal i) = Some c \<Longrightarrow> terminated c"
    and "map_of dir (fresh_journal i (ji_nanos io)) = None"
    and "append_range_entries_batch js io i entries dir = (res, dir')"
  shows "\<exists>n \<le> length entries. (res = Inr () \<longrightarrow> n = length entries) \<and>
    (res \<noteq> Inr () \<and> ji_got_lock io \<longrightarrow> n = 0) \<and>
    (\<forall>key. dir_entries js key dir' = dir_entries js key dir + mset (of_key key (take n entries)))"
proof (cases "\<exists>ls. shown js entries ls \<and> append_lines io i (unlines ls) dir = (res, dir')")
  case True
  then show ?thesis using append_lines_entries [OF assms(1) _ assms(2-4)] by blast
next
  case False
  then have "dir' = dir \<and> (res = Inr () \<longrightarrow> entries = [])"
    using assms(5) serialize_entries_shown
    by (auto simp: append_range_entries_batch_def split: if_splits option.splits sum.splits)
  then show ?thesis by (intro exI [of _ 0]) auto
qed


text \<open>A codec for the sample entry, and a directory that already has a line of it.\<close>

definition sample_journal_codec :: JournalCodec where
  "sample_journal_codec =
     \<lparr> js_show = (\<lambda>entry. if entry = sample_entry Add then Inr ''{b/k}'' else Inl ''unsupported''),
       js_parse = (\<lambda>line. if line = ''{b/k}'' then Some (sample_entry Add) else None),
       js_key = (\<lambda>key. key) \<rparr>"

lemma sample_journal_codec_ok: "journal_codec_ok sample_journal_codec"
proof -
  have trim: "trim ''{b/k}'' = ''{b/k}''" by code_simp
  have con: "contains_str ''b/k'' ''{b/k}''" by code_simp
  have "je_cache_key (sample_entry Add) = ''b/k''" by (simp add: sample_entry_def)
  moreover have "take n ''{b/k}'' \<noteq> ''{b/k}''" if "n < length ''{b/k}''" for n
  proof
    assume "take n ''{b/k}'' = ''{b/k}''"
    then have "length (take n ''{b/k}'') = length ''{b/k}''" by (rule arg_cong)
    then show False using that by simp
  qed
  ultimately show ?thesis
    using trim con by (auto simp: journal_codec_ok_def sample_journal_codec_def split: if_splits)
qed


text \<open>
  A read error of the primary file is not reported: the append succeeds and the file then holds
  the new entry alone, so all pending entries of the instance are lost.
\<close>

lemma append_after_read_error_drops_entries:
  assumes "ji_create_dir io = None" "ji_open_lock io = None" "ji_got_lock io" "ji_write io = None"
    and "ji_rename io = None" "ji_read io = Some err" "js_show js entry = Inr line"
  shows "append_range_entry js io i entry dir =
    (Inr (), AList.update (primary_journal i) (line @ [newline]) dir)"
  using assms by (simp add: append_range_entry_def append_lines_def Let_def split: option.split)

end
