(* ===== verification/Metadata_Writer.thy ===== *)
theory Metadata_Writer
  imports Journal_Files
begin

text \<open>
  The writer of \<open>src/src/hybrid_metadata_writer.rs\<close>: an update goes to the metadata file at once,
  to the journal, or to both, and never mixes two versions of an object.

  The state is the metadata files, by the path below \<open>metadata\<close>, and the journal directory. Whether
  the lock was obtained and which system call failed are arguments. Temporary files are renamed or
  removed before an operation returns and are not part of the state.
\<close>

section \<open>State and environment\<close>

datatype WriteMode = Immediate | JournalOnly | Hybrid

record ConsolidationTrigger =
  tg_size_threshold :: u64
  tg_entry_count_threshold :: usize

definition should_trigger :: "ConsolidationTrigger \<Rightarrow> u64 \<Rightarrow> usize \<Rightarrow> bool" where
  "should_trigger t journal_size entry_count =
     (journal_size \<ge> tg_size_threshold t \<or> entry_count \<ge> tg_entry_count_threshold t)"

record MetadataStore =
  ms_metadata :: "string list \<Rightarrow> NewCacheMetadata option"
  ms_journals :: journal_dir

record WriterIo =
  wi_now :: SystemTime
  wi_lock :: "ProxyError option"
  wi_read :: "string option"
  wi_parse :: "string option"
  wi_create_dir :: "string option"
  wi_serialize :: "string option"
  wi_write :: "string option"
  wi_rename :: "string option"
  wi_journal :: JournalIo

definition writer_io_ok :: "SystemTime \<Rightarrow> WriterIo" where
  "writer_io_ok now = \<lparr> wi_now = now, wi_lock = None, wi_read = None, wi_parse = None,
     wi_create_dir = None, wi_serialize = None, wi_write = None, wi_rename = None,
     wi_journal = journal_io_ok \<rparr>"

text \<open>The crates the writer calls, and the identity of the instance.\<close>

record WriterEnv =
  we_blake3 :: "string \<Rightarrow> string"
  we_pct :: "(char \<Rightarrow> bool) \<Rightarrow> string \<Rightarrow> string"
  we_journal :: JournalCodec
  we_instance :: string

abbreviation writer_metadata_path :: "'a WriterEnv_scheme \<Rightarrow> string \<Rightarrow> ProxyError + string list" where
  "writer_metadata_path we cache_key \<equiv> get_sharded_path (we_blake3 we) (we_pct we) cache_key ''.meta''"

section \<open>The metadata file\<close>

definition load_or_create_metadata ::
    "'a WriterEnv_scheme \<Rightarrow> WriterIo \<Rightarrow> string \<Rightarrow> Duration \<Rightarrow> 'b MetadataStore_scheme \<Rightarrow>
     (ProxyError + NewCacheMetadata) option" where
  "load_or_create_metadata we io cache_key ttl st =
     (case writer_metadata_path we cache_key of
        Inl e \<Rightarrow> Some (Inl e)
      | Inr metadata_path \<Rightarrow>
          (case ms_metadata st metadata_path of
             Some metadata \<Rightarrow>
               (case wi_read io of
                  Some e \<Rightarrow> Some (Inl (CacheError (''Failed to read metadata file: '' @ e)))
                | None \<Rightarrow>
                    (case wi_parse io of
                       Some e \<Rightarrow> Some (Inl (CacheError (''Failed to parse metadata file: '' @ e)))
                     | None \<Rightarrow> Some (Inr metadata)))
           | None \<Rightarrow>
               map_option
                 (\<lambda>expires_at.
                    Inr ((NewCacheMetadata_default (wi_now io))
                           \<lparr> nm_cache_key := cache_key, nm_object_metadata := ObjectMetadata_default,
                             nm_ranges := [], nm_created_at := wi_now io, nm_expires_at := expires_at \<rparr>))
                 (time_checked_add (wi_now io) ttl)))"

definition add_or_update_range :: "CacheRangeSpec \<Rightarrow> NewCacheMetadata \<Rightarrow> NewCacheMetadata" where
  "add_or_update_range range_spec metadata =
     (let same = (\<lambda>r. cr_start r = cr_start range_spec \<and> cr_end r = cr_end range_spec)
      in fill_content_length
           (metadata \<lparr> nm_ranges :=
              (if list_ex same (nm_ranges metadata)
               then update_first same (\<lambda>_. range_spec) (nm_ranges metadata)
               else nm_ranges metadata @ [range_spec]) \<rparr>))"

definition write_metadata_to_disk ::
    "'a WriterEnv_scheme \<Rightarrow> WriterIo \<Rightarrow> NewCacheMetadata \<Rightarrow> 'b MetadataStore_scheme \<Rightarrow>
     (ProxyError + unit) \<times> 'b MetadataStore_scheme" where
  "write_metadata_to_disk we io metadata st =
     (case writer_metadata_path we (nm_cache_key metadata) of
        Inl e \<Rightarrow> (Inl e, st)
      | Inr metadata_path \<Rightarrow>
          (case wi_create_dir io of
             Some e \<Rightarrow> (Inl (CacheError (''Failed to create metadata directory: '' @ e)), st)
           | None \<Rightarrow>
               (case wi_serialize io of
                  Some e \<Rightarrow> (Inl (CacheError (''Failed to serialize metadata: '' @ e)), st)
                | None \<Rightarrow>
                    (case wi_write io of
                       Some e \<Rightarrow> (Inl (CacheError (''Failed to write metadata temp file: '' @ e)), st)
                     | None \<Rightarrow>
                         (case wi_rename io of
                            Some e \<Rightarrow> (Inl (CacheError (''Failed to rename metadata file: '' @ e)), st)
                          | None \<Rightarrow>
                              (Inr (), st \<lparr> ms_metadata :=
                                 (ms_metadata st)(metadata_path := Some metadata) \<rparr>))))))"

text \<open>Cleaning up temporary files fails only for a malformed key.\<close>

definition cleanup_temp_files_for_cache_key :: "'a WriterEnv_scheme \<Rightarrow> string \<Rightarrow> ProxyError + unit" where
  "cleanup_temp_files_for_cache_key we cache_key =
     (case writer_metadata_path we cache_key of Inl e \<Rightarrow> Inl e | Inr _ \<Rightarrow> Inr ())"

definition after_cleanup :: "'a WriterEnv_scheme \<Rightarrow> string \<Rightarrow> ProxyError \<Rightarrow> ProxyError" where
  "after_cleanup we cache_key e =
     (case cleanup_temp_files_for_cache_key we cache_key of Inl e' \<Rightarrow> e' | Inr _ \<Rightarrow> e)"

definition write_empty_object_metadata ::
    "'a WriterEnv_scheme \<Rightarrow> WriterIo \<Rightarrow> string \<Rightarrow> ObjectMetadata \<Rightarrow> Duration \<Rightarrow> 'b MetadataStore_scheme \<Rightarrow>
     ((ProxyError + unit) \<times> 'b MetadataStore_scheme) option" where
  "write_empty_object_metadata we io cache_key object_metadata ttl st =
     (case wi_lock io of
        Some e \<Rightarrow> Some (Inl e, st)
      | None \<Rightarrow>
          map_option
            (\<lambda>expires_at.
               write_metadata_to_disk we io
                 ((NewCacheMetadata_default (wi_now io))
                    \<lparr> nm_cache_key := cache_key, nm_object_metadata := object_metadata,
                      nm_ranges := [], nm_created_at := wi_now io, nm_expires_at := expires_at,
                      nm_compression_info := CompressionInfo_default \<rparr>) st)
            (time_checked_add (wi_now io) ttl))"

section \<open>The write modes\<close>

definition identity_for_range ::
    "ObjectMetadata option \<Rightarrow> string \<Rightarrow> NewCacheMetadata \<Rightarrow> ProxyError + NewCacheMetadata" where
  "identity_for_range object_metadata cache_key metadata =
     (let response_etag = (case object_metadata of Some object \<Rightarrow> om_etag object | None \<Rightarrow> []);
          cached_etag = om_etag (nm_object_metadata metadata)
      in if cached_etag \<noteq> [] \<and> cached_etag \<noteq> response_etag then
           Inl (CacheVersionMismatch cache_key cached_etag response_etag)
         else
           Inr (case object_metadata of
                  Some object \<Rightarrow>
                    if cached_etag = [] \<and> om_etag object \<noteq> []
                    then metadata \<lparr> nm_ranges := [], nm_object_metadata := object \<rparr> else metadata
                | None \<Rightarrow> metadata))"

definition write_immediate_only ::
    "'a WriterEnv_scheme \<Rightarrow> WriterIo \<Rightarrow> string \<Rightarrow> CacheRangeSpec \<Rightarrow> ObjectMetadata option \<Rightarrow> Duration \<Rightarrow>
     'b MetadataStore_scheme \<Rightarrow> ((ProxyError + unit) \<times> 'b MetadataStore_scheme) option" where
  "write_immediate_only we io cache_key range_spec object_metadata ttl st =
     (case wi_lock io of
        Some e \<Rightarrow> Some (Inl (after_cleanup we cache_key e), st)
      | None \<Rightarrow>
          (case load_or_create_metadata we io cache_key ttl st of
             None \<Rightarrow> None
           | Some (Inl e) \<Rightarrow> Some (Inl (after_cleanup we cache_key e), st)
           | Some (Inr metadata) \<Rightarrow>
               (case identity_for_range object_metadata cache_key metadata of
                  Inl e \<Rightarrow> Some (Inl e, st)
                | Inr metadata \<Rightarrow>
                    (case write_metadata_to_disk we io (add_or_update_range range_spec metadata) st of
                       (Inr _, st) \<Rightarrow> Some (Inr (), st)
                     | (Inl e, st) \<Rightarrow> Some (Inl (after_cleanup we cache_key e), st)))))"

definition add_entry ::
    "'a WriterEnv_scheme \<Rightarrow> WriterIo \<Rightarrow> string \<Rightarrow> CacheRangeSpec \<Rightarrow> ObjectMetadata option \<Rightarrow> Duration \<Rightarrow>
     JournalEntry" where
  "add_entry we io cache_key range_spec object_metadata ttl =
     \<lparr> je_timestamp = wi_now io, je_instance_id = we_instance we, je_cache_key = cache_key,
       je_range_spec = range_spec, je_operation = Add, je_range_file_path = [],
       je_metadata_version = 1, je_new_ttl_secs = None, je_object_ttl_secs = Some (as_secs ttl),
       je_access_increment = None, je_object_metadata = object_metadata \<rparr>"

definition append_to_journals ::
    "'a WriterEnv_scheme \<Rightarrow> WriterIo \<Rightarrow> JournalEntry \<Rightarrow> 'b MetadataStore_scheme \<Rightarrow>
     (ProxyError + unit) \<times> 'b MetadataStore_scheme" where
  "append_to_journals we io entry st =
     (let (res, dir) = append_range_entry (we_journal we) (wi_journal io) (we_instance we) entry
            (ms_journals st)
      in (res, st \<lparr> ms_journals := dir \<rparr>))"

definition write_journal_only ::
    "'a WriterEnv_scheme \<Rightarrow> WriterIo \<Rightarrow> string \<Rightarrow> CacheRangeSpec \<Rightarrow> ObjectMetadata option \<Rightarrow> Duration \<Rightarrow>
     'b MetadataStore_scheme \<Rightarrow> (ProxyError + unit) \<times> 'b MetadataStore_scheme" where
  "write_journal_only we io cache_key range_spec object_metadata ttl st =
     (case append_to_journals we io (add_entry we io cache_key range_spec object_metadata ttl) st of
        (Inr _, st) \<Rightarrow> (Inr (), st)
      | (Inl e, st) \<Rightarrow>
          (Inl (CacheError (''Journal write failed in journal-only mode: '' @ show_error e)), st))"

definition write_hybrid ::
    "'a WriterEnv_scheme \<Rightarrow> WriterIo \<Rightarrow> string \<Rightarrow> CacheRangeSpec \<Rightarrow> ObjectMetadata option \<Rightarrow> Duration \<Rightarrow>
     'b MetadataStore_scheme \<Rightarrow> ((ProxyError + unit) \<times> 'b MetadataStore_scheme) option" where
  "write_hybrid we io cache_key range_spec object_metadata ttl st =
     (case write_immediate_only we io cache_key range_spec object_metadata ttl st of
        None \<Rightarrow> None
      | Some (Inr _, st) \<Rightarrow>
          Some (Inr (), snd (append_to_journals we io
                               (add_entry we io cache_key range_spec object_metadata ttl) st))
      | Some (Inl (CacheVersionMismatch k c r), st) \<Rightarrow> Some (Inl (CacheVersionMismatch k c r), st)
      | Some (Inl e, st) \<Rightarrow>
          (case write_journal_only we io cache_key range_spec object_metadata ttl st of
             (Inr _, st) \<Rightarrow> Some (Inr (), st)
           | (Inl journal_err, st) \<Rightarrow>
               Some (Inl (after_cleanup we cache_key
                 (CacheError (''Hybrid write failed: immediate='' @ show_error e @ '', journal='' @
                    show_error journal_err))), st)))"

definition write_range_metadata ::
    "'a WriterEnv_scheme \<Rightarrow> WriterIo \<Rightarrow> string \<Rightarrow> CacheRangeSpec \<Rightarrow> WriteMode \<Rightarrow> ObjectMetadata option \<Rightarrow>
     Duration \<Rightarrow> 'b MetadataStore_scheme \<Rightarrow> ((ProxyError + unit) \<times> 'b MetadataStore_scheme) option" where
  "write_range_metadata we io cache_key range_spec write_mode object_metadata ttl st =
     (case write_mode of
        Immediate \<Rightarrow> write_immediate_only we io cache_key range_spec object_metadata ttl st
      | JournalOnly \<Rightarrow> Some (write_journal_only we io cache_key range_spec object_metadata ttl st)
      | Hybrid \<Rightarrow> write_hybrid we io cache_key range_spec object_metadata ttl st)"

definition is_high_contention :: "string \<Rightarrow> bool" where
  "is_high_contention cache_key = False"

definition write_full_object_metadata ::
    "'a WriterEnv_scheme \<Rightarrow> WriterIo \<Rightarrow> string \<Rightarrow> ObjectMetadata \<Rightarrow> Duration \<Rightarrow> 'b MetadataStore_scheme \<Rightarrow>
     ((ProxyError + unit) \<times> 'b MetadataStore_scheme) option" where
  "write_full_object_metadata we io cache_key object_metadata ttl st =
     (let write_mode = (if is_high_contention cache_key then Hybrid else Immediate);
          content_length = om_content_length object_metadata;
          file_path = sanitize_cache_key_new (we_blake3 we) (we_pct we) cache_key @ ''_'' @ show_nat 0 @
            ''-'' @ show_nat (content_length - 1) @ ''.'' @
            object_version_id (we_blake3 we) (om_etag object_metadata) @ ''.bin'';
          counts_as_staged = classify_new_range_as_staged file_path (om_is_write_cached object_metadata)
      in if content_length = 0 then write_empty_object_metadata we io cache_key object_metadata ttl st
         else
           write_range_metadata we io cache_key
             (CacheRangeSpec_new_staged (wi_now io) 0 (content_length - 1) file_path Lz4
                content_length content_length counts_as_staged)
             write_mode (Some object_metadata) ttl st)"

section \<open>One version per metadata file\<close>

abbreviation meta_etag :: "NewCacheMetadata \<Rightarrow> string" where
  "meta_etag m \<equiv> om_etag (nm_object_metadata m)"

abbreviation object_etag :: "ObjectMetadata option \<Rightarrow> string" where
  "object_etag obj \<equiv> (case obj of Some ob \<Rightarrow> om_etag ob | None \<Rightarrow> [])"

lemma fill_content_length_key [simp]: "nm_cache_key (fill_content_length m) = nm_cache_key m"
  by (simp add: fill_content_length_def split: list.split)

lemma update_first_mem: "list_ex p xs \<Longrightarrow> y \<in> set (update_first p (\<lambda>_. y) xs)"
  by (induction xs) auto

lemma add_or_update_range_spec:
  "spec \<in> set (nm_ranges (add_or_update_range spec m))"
  "set (nm_ranges (add_or_update_range spec m)) \<subseteq> insert spec (set (nm_ranges m))"
  "meta_etag (add_or_update_range spec m) = meta_etag m"
  "nm_cache_key (add_or_update_range spec m) = nm_cache_key m"
  by (auto simp: add_or_update_range_def Let_def intro: update_first_mem dest: update_first_set)

lemma add_or_update_range_distinct:
  assumes "distinct (map range_key (nm_ranges m))"
  shows "distinct (map range_key (nm_ranges (add_or_update_range spec m)))"
proof -
  let ?same = "\<lambda>r. cr_start r = cr_start spec \<and> cr_end r = cr_end spec"
  have "map range_key (update_first ?same (\<lambda>_. spec) (nm_ranges m)) = map range_key (nm_ranges m)"
    by (rule update_first_keys) (simp add: range_key_def)
  moreover have "range_key spec \<notin> set (map range_key (nm_ranges m))" if "\<not> list_ex ?same (nm_ranges m)"
    using that by (auto simp: list_ex_iff range_key_def)
  ultimately show ?thesis using assms by (auto simp: add_or_update_range_def Let_def)
qed

lemma identity_for_range_Inr:
  assumes "identity_for_range obj key m = Inr m'"
  shows "meta_etag m' = object_etag obj" "nm_cache_key m' = nm_cache_key m"
    "nm_ranges m' = [] \<or> m' = m"
  using assms by (auto simp: identity_for_range_def Let_def split: if_splits option.splits)

lemma write_metadata_to_disk_cases:
  assumes "write_metadata_to_disk we io m st = (res, st')"
  shows "(\<exists>e. res = Inl e) \<and> st' = st \<or>
    (\<exists>p. res = Inr () \<and> writer_metadata_path we (nm_cache_key m) = Inr p \<and>
         st' = st \<lparr> ms_metadata := (ms_metadata st)(p := Some m) \<rparr>)"
  using assms by (auto simp: write_metadata_to_disk_def split: sum.splits option.splits)

text \<open>What a successful immediate write leaves at its path.\<close>

definition written_at ::
    "string list \<Rightarrow> CacheRangeSpec \<Rightarrow> ObjectMetadata option \<Rightarrow> 'b MetadataStore_scheme \<Rightarrow>
     'b MetadataStore_scheme \<Rightarrow> bool" where
  "written_at p spec obj st st' \<longleftrightarrow>
     (\<exists>m'. st' = st \<lparr> ms_metadata := (ms_metadata st)(p := Some m') \<rparr> \<and>
        spec \<in> set (nm_ranges m') \<and> meta_etag m' = object_etag obj \<and>
        (\<forall>r \<in> set (nm_ranges m'). r \<noteq> spec \<longrightarrow>
           (\<exists>m. ms_metadata st p = Some m \<and> r \<in> set (nm_ranges m) \<and> meta_etag m = meta_etag m')) \<and>
        ((\<forall>m. ms_metadata st p = Some m \<longrightarrow> distinct (map range_key (nm_ranges m))) \<longrightarrow>
           distinct (map range_key (nm_ranges m'))))"

lemma load_or_create_Inr:
  assumes "load_or_create_metadata we io key ttl st = Some (Inr m)" "writer_metadata_path we key = Inr p"
  shows "ms_metadata st p = Some m \<or> (nm_ranges m = [] \<and> nm_cache_key m = key)"
  using assms by (auto simp: load_or_create_metadata_def split: option.splits)

lemma write_immediate_only_cases:
  assumes "write_immediate_only we io key spec obj ttl st = Some (res, st')"
    and "writer_metadata_path we key = Inr p"
    and "\<And>m. ms_metadata st p = Some m \<Longrightarrow> nm_cache_key m = key"
  shows "(\<exists>e. res = Inl e) \<and> st' = st \<or> res = Inr () \<and> written_at p spec obj st st'"
proof (cases "res = Inr ()")
  case False
  then show ?thesis
    using assms(1) write_metadata_to_disk_cases
    by (fastforce simp: write_immediate_only_def split: option.splits sum.splits prod.splits)
next
  case True
  then obtain m m1 where load: "load_or_create_metadata we io key ttl st = Some (Inr m)"
    and ident: "identity_for_range obj key m = Inr m1"
    and wr: "write_metadata_to_disk we io (add_or_update_range spec m1) st = (Inr (), st')"
    using assms(1) by (auto simp: write_immediate_only_def split: option.splits sum.splits prod.splits)
  note i = identity_for_range_Inr [OF ident]
  note l = load_or_create_Inr [OF load assms(2)]
  let ?m = "add_or_update_range spec m1"
  have "nm_cache_key ?m = key" using l assms(3) i(2) by (auto simp: add_or_update_range_spec(4))
  then have st': "st' = st \<lparr> ms_metadata := (ms_metadata st)(p := Some ?m) \<rparr>"
    using write_metadata_to_disk_cases [OF wr] assms(2) by auto
  have old: "\<exists>m. ms_metadata st p = Some m \<and> r \<in> set (nm_ranges m) \<and> meta_etag m = meta_etag ?m"
    if "r \<in> set (nm_ranges ?m)" "r \<noteq> spec" for r
  proof -
    have "r \<in> set (nm_ranges m1)" using that add_or_update_range_spec(2) by blast
    then show ?thesis using i(3) l by (auto simp: add_or_update_range_spec(3))
  qed
  have dist: "distinct (map range_key (nm_ranges ?m))"
    if "\<forall>m. ms_metadata st p = Some m \<longrightarrow> distinct (map range_key (nm_ranges m))"
    using that i(3) l by (intro add_or_update_range_distinct) auto
  show ?thesis
    using True st' add_or_update_range_spec(1,3) i(1) old dist unfolding written_at_def
    by (intro disjI2 conjI exI [of _ ?m]) auto
qed

section \<open>A recorded range can be found again\<close>

definition journal_ready :: "'a WriterEnv_scheme \<Rightarrow> WriterIo \<Rightarrow> 'b MetadataStore_scheme \<Rightarrow> bool" where
  "journal_ready we io st \<longleftrightarrow>
     ji_read (wi_journal io) = None \<and>
     (\<forall>c. map_of (ms_journals st) (primary_journal (we_instance we)) = Some c \<longrightarrow> terminated c) \<and>
     map_of (ms_journals st) (fresh_journal (we_instance we) (ji_nanos (wi_journal io))) = None"

lemma append_range_entry_batch:
  "append_range_entry js io i e dir = append_range_entries_batch js io i [e] dir"
  by (simp add: append_range_entry_def append_range_entries_batch_def split: option.split sum.split)

lemma append_to_journals_ok:
  assumes "journal_codec_ok (we_journal we)" "journal_ready we io st"
    and "append_to_journals we io e st = (Inr u, st')"
  shows "e \<in># dir_entries (we_journal we) (je_cache_key e) (ms_journals st')"
    "ms_metadata st' = ms_metadata st"
proof -
  obtain dir where dir: "append_range_entries_batch (we_journal we) (wi_journal io) (we_instance we) [e]
      (ms_journals st) = (Inr (), dir)" "st' = st \<lparr> ms_journals := dir \<rparr>"
    using assms(3) by (auto simp: append_to_journals_def append_range_entry_batch split: prod.splits)
  have ready: "ji_read (wi_journal io) = None"
    "\<And>c. map_of (ms_journals st) (primary_journal (we_instance we)) = Some c \<Longrightarrow> terminated c"
    "map_of (ms_journals st) (fresh_journal (we_instance we) (ji_nanos (wi_journal io))) = None"
    using assms(2) by (simp_all add: journal_ready_def)
  from append_batch_entries [OF assms(1) ready dir(1)]
  have "dir_entries (we_journal we) (je_cache_key e) dir =
      dir_entries (we_journal we) (je_cache_key e) (ms_journals st) + {#e#}" by auto
  then show "e \<in># dir_entries (we_journal we) (je_cache_key e) (ms_journals st')"
    "ms_metadata st' = ms_metadata st" using dir(2) by simp_all
qed

lemma write_journal_only_ok:
  assumes "journal_codec_ok (we_journal we)" "journal_ready we io st"
    and "write_journal_only we io key spec obj ttl st = (Inr u, st')"
  shows "add_entry we io key spec obj ttl \<in># dir_entries (we_journal we) key (ms_journals st')"
    "ms_metadata st' = ms_metadata st"
proof -
  have "append_to_journals we io (add_entry we io key spec obj ttl) st = (Inr (), st')"
    using assms(3) by (auto simp: write_journal_only_def split: prod.splits sum.splits)
  from append_to_journals_ok [OF assms(1,2) this]
  show "add_entry we io key spec obj ttl \<in># dir_entries (we_journal we) key (ms_journals st')"
    "ms_metadata st' = ms_metadata st" by (simp_all add: add_entry_def)
qed

lemma append_to_journals_metadata: "ms_metadata (snd (append_to_journals we io e st)) = ms_metadata st"
  by (simp add: append_to_journals_def split: prod.split)

lemma write_hybrid_ok:
  assumes "journal_codec_ok (we_journal we)" "journal_ready we io st"
    and "writer_metadata_path we key = Inr p" "\<And>m. ms_metadata st p = Some m \<Longrightarrow> nm_cache_key m = key"
    and "write_hybrid we io key spec obj ttl st = Some (Inr u, st')"
  shows "(\<exists>st1. written_at p spec obj st st1 \<and> ms_metadata st' = ms_metadata st1) \<or>
    ms_metadata st' = ms_metadata st \<and>
    add_entry we io key spec obj ttl \<in># dir_entries (we_journal we) key (ms_journals st')"
proof -
  obtain r st1 where imm: "write_immediate_only we io key spec obj ttl st = Some (r, st1)"
    using assms(5) by (auto simp: write_hybrid_def split: option.splits)
  note c = write_immediate_only_cases [OF imm assms(3,4)]
  show ?thesis
  proof (cases r)
    case (Inr a)
    then have "st' = snd (append_to_journals we io (add_entry we io key spec obj ttl) st1)"
      using assms(5) imm by (simp add: write_hybrid_def)
    then show ?thesis using c Inr append_to_journals_metadata by blast
  next
    case (Inl e)
    have "\<not> (\<exists>k c r. e = CacheVersionMismatch k c r)" using assms(5) imm Inl by (auto simp: write_hybrid_def)
    then have "write_journal_only we io key spec obj ttl st1 = (Inr (), st')"
      using assms(5) imm Inl
      by (cases e) (auto simp: write_hybrid_def split: prod.splits sum.splits)
    moreover have "st1 = st" using c Inl by simp
    ultimately show ?thesis using write_journal_only_ok [OF assms(1,2)] by blast
  qed
qed


definition sample_writer :: WriterEnv where
  "sample_writer = \<lparr> we_blake3 = zero_digest, we_pct = percent_encode_bytes,
     we_journal = sample_journal_codec, we_instance = ''h:1'' \<rparr>"

definition sample_store_empty :: MetadataStore where
  "sample_store_empty = \<lparr> ms_metadata = (\<lambda>_. None), ms_journals = [] \<rparr>"

lemma sample_writer_path: "writer_metadata_path sample_writer ''b/k'' = Inr [''b'', ''00'', ''000'', ''k.meta'']"
proof -
  have "get_sharded_path zero_digest percent_encode_bytes ''b/k'' ''.meta'' =
    Inr [''b'', ''00'', ''000'', ''k.meta'']" by code_simp
  then show ?thesis by (simp add: sample_writer_def)
qed


end
