(* ===== verification/Object_Version.thy ===== *)
theory Object_Version
  imports Metadata_Writer
begin

text \<open>
  How an object version takes over a cache key and how a range is committed under it,
  \<open>src/src/disk_cache.rs\<close>: the versions this process has confirmed, retiring the files of a
  superseded version, claiming a version, and \<open>commit_incremental_range\<close>. The removal entries that
  retiring appends are those of \<open>write_eviction_journal_entries\<close> in
  \<open>src/src/journal_consolidator.rs\<close>.

  The per-key lock is held from the claim to the end of the commit, so each operation is one step
  on \<open>CacheStore\<close>. The date parser is a parameter.
\<close>

section \<open>Confirmed versions\<close>

record ConfirmedVersions =
  cv_versions :: "(string \<times> string) list"
  cv_gates :: "string list"

definition CONFIRMED_CAPACITY :: usize where
  "CONFIRMED_CAPACITY = 65536"

definition cv_contains :: "string \<Rightarrow> string \<Rightarrow> ConfirmedVersions \<Rightarrow> bool" where
  "cv_contains cache_key etag cv = (map_of (cv_versions cv) cache_key = Some etag)"

definition cv_confirm :: "string \<Rightarrow> string \<Rightarrow> ConfirmedVersions \<Rightarrow> ConfirmedVersions" where
  "cv_confirm cache_key etag cv =
     (let versions = cv_versions cv;
          versions = (if length versions \<ge> CONFIRMED_CAPACITY \<and> map_of versions cache_key = None
                      then [] else versions)
      in cv \<lparr> cv_versions := AList.update cache_key etag versions \<rparr>)"

definition cv_gate :: "string \<Rightarrow> ConfirmedVersions \<Rightarrow> ConfirmedVersions" where
  "cv_gate cache_key cv =
     (let gates = cv_gates cv;
          gates = (if length gates \<ge> CONFIRMED_CAPACITY \<and> cache_key \<notin> set gates then [] else gates)
      in cv \<lparr> cv_gates := List.insert cache_key gates \<rparr>)"

section \<open>State and environment\<close>

record CacheStore = MetadataStore +
  cs_disk :: Disk
  cs_acc :: SizeAccumulator
  cs_confirmed :: ConfirmedVersions
  cs_metadata_cache :: "string \<Rightarrow> NewCacheMetadata option"

text \<open>
  The configuration of the disk cache and the crates it calls. \<open>ve_http_date\<close> is
  \<open>httpdate::parse_http_date\<close> and \<open>ve_dbg\<close> the \<open>{:?}\<close> rendering of a path below the cache directory.
\<close>

record VersionEnv = WriterEnv +
  ve_xxh32 :: "string \<Rightarrow> 32 word"
  ve_enc :: encoder
  ve_json :: JsonCodec
  ve_http_date :: "string \<Rightarrow> SystemTime option"
  ve_dbg :: "string list \<Rightarrow> string"
  ve_cache_dir :: string
  ve_hybrid :: bool
  ve_consolidator :: bool
  ve_cap :: u64
  ve_partial_range_commit_ratio :: rat

record VersionIo = WriterIo +
  vi_metadata :: MetadataIo
  vi_unlink :: "string list \<Rightarrow> string option"
  vi_evict :: "string \<Rightarrow> JournalIo"
  vi_file :: Io

section \<open>Removal entries\<close>

text \<open>\<open>Path::join\<close> with a relative path.\<close>

definition path_join :: "string \<Rightarrow> string \<Rightarrow> string" where
  "path_join base rel = (if base = [] \<or> last base = slash then base @ rel else base @ [slash] @ rel)"

type_synonym evicted_range = "string \<times> u64 \<times> u64 \<times> u64 \<times> string"

definition eviction_entry :: "SystemTime \<Rightarrow> string \<Rightarrow> evicted_range \<Rightarrow> JournalEntry" where
  "eviction_entry now instance_id = (\<lambda>(cache_key, range_start, range_end, sz, bin_file_path).
     \<lparr> je_timestamp = now, je_instance_id = instance_id, je_cache_key = cache_key,
       je_range_spec =
         \<lparr> cr_start = range_start, cr_end = range_end, cr_file_path = bin_file_path,
           cr_compression_algorithm = Lz4, cr_compressed_size = sz, cr_uncompressed_size = sz,
           cr_created_at = now, cr_last_accessed = now, cr_access_count = 0, cr_staged = None \<rparr>,
       je_operation = Remove, je_range_file_path = bin_file_path, je_metadata_version = 0,
       je_new_ttl_secs = None, je_object_ttl_secs = None, je_access_increment = None,
       je_object_metadata = None \<rparr>)"

text \<open>The map of the source, grouped by key, is visited in the order the keys first occur.\<close>

definition group_entries :: "JournalEntry list \<Rightarrow> (string \<times> JournalEntry list) list" where
  "group_entries entries =
     fold (\<lambda>entry grouped.
             AList.update (je_cache_key entry)
               ((case map_of grouped (je_cache_key entry) of Some es \<Rightarrow> es | None \<Rightarrow> []) @ [entry]) grouped)
       entries []"

definition write_eviction_journal_entries ::
    "'a WriterEnv_scheme \<Rightarrow> (string \<Rightarrow> JournalIo) \<Rightarrow> SystemTime \<Rightarrow> evicted_range list \<Rightarrow> journal_dir \<Rightarrow>
     journal_dir" where
  "write_eviction_journal_entries we ios now evicted_ranges dir =
     fold (\<lambda>(cache_key, entries) dir.
             snd (append_range_entries_batch (we_journal we) (ios cache_key) (we_instance we) entries dir))
       (group_entries (map (eviction_entry now (we_instance we)) evicted_ranges)) dir"

section \<open>Retiring a version\<close>

text \<open>The ranges whose files were removed, and the failure that ended the loop.\<close>

fun retire_ranges ::
    "(string list \<Rightarrow> string) \<Rightarrow> (string list \<Rightarrow> string option) \<Rightarrow> string \<Rightarrow> CacheRangeSpec list \<Rightarrow> fs \<Rightarrow>
     CacheRangeSpec list \<times> ProxyError option \<times> fs" where
  "retire_ranges dbg rm cache_key [] fs = ([], None, fs)"
| "retire_ranges dbg rm cache_key (r # rs) fs =
     (if \<not> is_safe_relative_file_path (cr_file_path r) then retire_ranges dbg rm cache_key rs fs
      else
        (case unlink rm (spec_path r) fs of
           (Removed, fs) \<Rightarrow>
             (let (removed, failure, fs) = retire_ranges dbg rm cache_key rs fs
              in (r # removed, failure, fs))
         | (NotFound, fs) \<Rightarrow> retire_ranges dbg rm cache_key rs fs
         | (RemoveFailed e, fs) \<Rightarrow>
             ([], Some (CacheError (''Could not remove superseded range file '' @ dbg (spec_path r) @
                          '' for '' @ cache_key @ '': '' @ e)), fs)))"

definition retire_object_version ::
    "'a VersionEnv_scheme \<Rightarrow> 'i VersionIo_scheme \<Rightarrow> string \<Rightarrow> NewCacheMetadata \<Rightarrow> CacheStore \<Rightarrow>
     (ProxyError + unit) \<times> CacheStore" where
  "retire_object_version ve io cache_key cached st =
     (let (removed, failure, fs) =
            retire_ranges (ve_dbg ve) (vi_unlink io) cache_key (nm_ranges cached) (dk_fs (cs_disk st));
          st = st \<lparr> cs_disk := (cs_disk st) \<lparr> dk_fs := fs \<rparr> \<rparr>;
          st = (if \<not> ve_consolidator ve then st
                else
                  st \<lparr> cs_acc :=
                         fold (\<lambda>r. debit_removed (we_blake3 ve) cache_key r
                                     (om_is_write_cached (nm_object_metadata cached)))
                           removed (cs_acc st),
                       ms_journals :=
                         write_eviction_journal_entries ve (vi_evict io) (wi_now io)
                           (map (\<lambda>r. (cache_key, cr_start r, cr_end r, cr_compressed_size r,
                                   path_join (path_join (ve_cache_dir ve) ''ranges'') (cr_file_path r)))
                              removed)
                           (ms_journals st) \<rparr>)
      in (case failure of Some e \<Rightarrow> Inl e | None \<Rightarrow> Inr (), st))"

section \<open>Claiming a version\<close>

definition strip_response_scoped_headers :: "headers \<Rightarrow> headers" where
  "strip_response_scoped_headers headers =
     filter (\<lambda>(k, _). map ascii_lower k \<notin>
               {''content-length'', ''content-range'', ''x-amz-mp-parts-count''}) headers"

definition newer_version :: "(string \<Rightarrow> SystemTime option) \<Rightarrow> ObjectMetadata \<Rightarrow> ObjectMetadata \<Rightarrow> bool" where
  "newer_version http_date cached_object object =
     (case (http_date (om_last_modified cached_object), http_date (om_last_modified object)) of
        (Some cached_at, Some response_at) \<Rightarrow> response_at > cached_at
      | _ \<Rightarrow> False)"

text \<open>Writing the identity of the new version, once the old one is out of the way.\<close>

definition write_identity ::
    "'a VersionEnv_scheme \<Rightarrow> 'i VersionIo_scheme \<Rightarrow> string \<Rightarrow> ObjectMetadata \<Rightarrow> Duration \<Rightarrow> CacheStore \<Rightarrow>
     ((ProxyError + unit) \<times> CacheStore) option" where
  "write_identity ve io cache_key object ttl st =
     map_option
       (\<lambda>expires_at.
          (case write_metadata_to_disk ve (WriterIo.truncate io)
                  ((NewCacheMetadata_default (wi_now io))
                     \<lparr> nm_cache_key := cache_key,
                       nm_object_metadata := object
                         \<lparr> om_response_headers :=
                             strip_response_scoped_headers (om_response_headers object) \<rparr>,
                       nm_created_at := wi_now io, nm_expires_at := expires_at \<rparr>) st of
             (Inl e, st) \<Rightarrow> (Inl e, st)
           | (Inr _, st) \<Rightarrow>
               (Inr (), st \<lparr> cs_metadata_cache := (cs_metadata_cache st)(cache_key := None) \<rparr>)))
       (time_checked_add (wi_now io) ttl)"

definition prepare_object_version ::
    "'a VersionEnv_scheme \<Rightarrow> 'i VersionIo_scheme \<Rightarrow> string \<Rightarrow> ObjectMetadata \<Rightarrow> Duration \<Rightarrow> CacheStore \<Rightarrow>
     ((ProxyError + unit) \<times> CacheStore) option" where
  "prepare_object_version ve io cache_key object ttl st =
     (let refuse = (\<lambda>cached_etag. CacheVersionMismatch cache_key cached_etag (om_etag object))
      in if om_etag object = [] then Some (Inl (refuse []), st)
         else
           (case read_disk_metadata (ve_json ve) (ve_cap ve) (vi_metadata io) of
              Inl e \<Rightarrow> Some (Inl e, st)
            | Inr None \<Rightarrow> write_identity ve io cache_key object ttl st
            | Inr (Some cached) \<Rightarrow>
                let cached_object = nm_object_metadata cached
                in if om_etag cached_object = om_etag object then Some (Inr (), st)
                   else if om_etag cached_object \<noteq> [] \<and>
                           \<not> newer_version (ve_http_date ve) cached_object object
                   then Some (Inl (refuse (om_etag cached_object)), st)
                   else
                     (case retire_object_version ve io cache_key cached st of
                        (Inl e, st) \<Rightarrow> Some (Inl e, st)
                      | (Inr _, st) \<Rightarrow> write_identity ve io cache_key object ttl st)))"

definition claim_object_version ::
    "'a VersionEnv_scheme \<Rightarrow> 'i VersionIo_scheme \<Rightarrow> string \<Rightarrow> ObjectMetadata \<Rightarrow> Duration \<Rightarrow> CacheStore \<Rightarrow>
     ((ProxyError + bool) \<times> CacheStore) option" where
  "claim_object_version ve io cache_key object ttl st =
     (if cv_contains cache_key (om_etag object) (cs_confirmed st) then Some (Inr False, st)
      else
        let st = st \<lparr> cs_confirmed := cv_gate cache_key (cs_confirmed st) \<rparr>
        in if cv_contains cache_key (om_etag object) (cs_confirmed st) then Some (Inr False, st)
           else case wi_lock io of
             Some e \<Rightarrow> Some (Inl e, st)
           | None \<Rightarrow>
               (case prepare_object_version ve io cache_key object ttl st of
                  None \<Rightarrow> None
                | Some (Inl e, st) \<Rightarrow> Some (Inl e, st)
                | Some (Inr _, st) \<Rightarrow>
                    Some (Inr True,
                          st \<lparr> cs_confirmed := cv_confirm cache_key (om_etag object) (cs_confirmed st) \<rparr>)))"

section \<open>Committing a range\<close>

definition credit_range ::
    "'a VersionEnv_scheme \<Rightarrow> string \<Rightarrow> CacheRangeSpec \<Rightarrow> bool \<Rightarrow> bool \<Rightarrow> SizeAccumulator \<Rightarrow> SizeAccumulator" where
  "credit_range ve cache_key range_spec range_already_existed counts_as_staged acc =
     (if ve_consolidator ve \<and> \<not> range_already_existed then
        (let acc = snd (add_range_file (we_blake3 ve) cache_key range_spec acc)
         in if counts_as_staged then add_write_cache (cr_compressed_size range_spec) acc else acc)
      else acc)"

definition commit_incremental_range ::
    "'a VersionEnv_scheme \<Rightarrow> 'i VersionIo_scheme \<Rightarrow> IncrementalRangeWriter \<Rightarrow> ObjectMetadata \<Rightarrow> Duration \<Rightarrow>
     CacheStore \<Rightarrow> ((ProxyError + unit) \<times> CacheStore) option" where
  "commit_incremental_range ve io writer object_metadata ttl st =
     (let cache_key = iw_cache_key writer
      in case (if ve_hybrid ve then claim_object_version ve io cache_key object_metadata ttl st
               else Some (Inr False, st)) of
           None \<Rightarrow> None
         | Some (Inl e, st) \<Rightarrow>
             Some (Inl e, st \<lparr> cs_disk := abort_incremental_range (vi_file io) writer (cs_disk st) \<rparr>)
         | Some (Inr _, st) \<Rightarrow>
             (case finalize_incremental_range (we_blake3 ve) (we_pct ve) (ve_xxh32 ve) (ve_enc ve)
                     (vi_file io) (wi_now io) writer (cs_disk st)
                     (Some (ve_partial_range_commit_ratio ve)) (om_etag object_metadata) of
                (Inl e, disk) \<Rightarrow> Some (Inl e, st \<lparr> cs_disk := disk \<rparr>)
              | (Inr (range_spec, range_already_existed), disk) \<Rightarrow>
                  let st = st \<lparr> cs_disk := disk \<rparr>;
                      counts_as_staged =
                        classify_new_range_as_staged (cr_file_path range_spec)
                          (om_is_write_cached object_metadata);
                      range_spec = range_spec \<lparr> cr_staged := Some counts_as_staged \<rparr>
                  in if \<not> ve_hybrid ve then Some (Inr (), st)
                     else
                       (case write_range_metadata ve (WriterIo.truncate io) cache_key range_spec JournalOnly
                               (Some object_metadata) ttl st of
                          None \<Rightarrow> None
                        | Some (Inl e, st) \<Rightarrow> Some (Inl e, st)
                        | Some (Inr _, st) \<Rightarrow>
                            Some (Inr (),
                                  st \<lparr> cs_acc := credit_range ve cache_key range_spec
                                         range_already_existed counts_as_staged (cs_acc st) \<rparr>))))"

section \<open>What retiring removes\<close>

text \<open>Files may only have gone.\<close>

definition fs_removed :: "fs \<Rightarrow> fs \<Rightarrow> bool" where
  "fs_removed fs fs' \<longleftrightarrow> (\<forall>p. fs' p = fs p \<or> fs' p = FileMissing)"

lemma fs_removed_refl [simp]: "fs_removed fs fs"
  by (simp add: fs_removed_def)

lemma fs_removed_trans: "fs_removed a b \<Longrightarrow> fs_removed b c \<Longrightarrow> fs_removed a c"
  unfolding fs_removed_def by metis

lemma fs_removed_missing: "fs_removed a b \<Longrightarrow> a p = FileMissing \<Longrightarrow> b p = FileMissing"
  unfolding fs_removed_def by metis

lemma unlink_cases:
  assumes "unlink rm path fs = (x, fs')"
  shows "fs_removed fs fs'" "(\<exists>e. x = RemoveFailed e) \<or> fs' path = FileMissing"
  using assms by (auto simp: unlink_def fs_removed_def split: FileState.splits option.splits)

definition retired :: "fs \<Rightarrow> CacheRangeSpec list \<Rightarrow> ProxyError option \<Rightarrow> fs \<Rightarrow> bool" where
  "retired fs rs failure fs' \<longleftrightarrow>
     fs_removed fs fs' \<and>
     (\<forall>p. (\<forall>r \<in> set rs. spec_path r \<noteq> p) \<longrightarrow> fs' p = fs p) \<and>
     (failure = None \<longrightarrow>
        (\<forall>r \<in> set rs. is_safe_relative_file_path (cr_file_path r) \<longrightarrow> fs' (spec_path r) = FileMissing))"

lemma retired_step:
  assumes "unlink rm (spec_path r) fs = (x, fs1)" "\<nexists>e. x = RemoveFailed e" "retired fs1 rs failure fs'"
  shows "retired fs (r # rs) failure fs'"
proof -
  note gone = unlink_cases [OF assms(1)]
  have "fs_removed fs fs'" using gone(1) assms(3) fs_removed_trans unfolding retired_def by blast
  moreover have "fs' (spec_path r) = FileMissing"
    using gone(2) assms(2,3) fs_removed_missing unfolding retired_def by blast
  moreover have "fs' p = fs p" if "\<forall>r' \<in> set (r # rs). spec_path r' \<noteq> p" for p
    using that assms(3) unlink_other [OF assms(1), of p] unfolding retired_def by auto
  ultimately show ?thesis using assms(3) unfolding retired_def by simp
qed

lemma retire_ranges_effect:
  "retire_ranges dbg rm key rs fs = (removed, failure, fs') \<Longrightarrow> retired fs rs failure fs'"
proof (induction rs arbitrary: fs removed)
  case (Cons r rs)
  show ?case
  proof (cases "is_safe_relative_file_path (cr_file_path r)")
    case False
    then have "retired fs rs failure fs'" using Cons.IH [of fs removed] Cons.prems by simp
    then show ?thesis using False by (simp add: retired_def)
  next
    case safe: True
    obtain x fs1 where u: "unlink rm (spec_path r) fs = (x, fs1)" by fastforce
    show ?thesis
    proof (cases x)
      case (RemoveFailed e)
      then have "fs' = fs1" "failure \<noteq> None" using Cons.prems safe u by auto
      then show ?thesis using unlink_cases(1) [OF u] unlink_other [OF u] by (auto simp: retired_def)
    next
      case Removed
      obtain rem f fs2 where rest: "retire_ranges dbg rm key rs fs1 = (rem, f, fs2)"
        by (metis prod_cases3)
      then have "f = failure" "fs2 = fs'" using Cons.prems safe u Removed by (auto simp: Let_def)
      then have "retired fs1 rs failure fs'" using Cons.IH [OF rest [unfolded \<open>f = failure\<close> \<open>fs2 = fs'\<close>]] by simp
      from retired_step [OF u _ this] Removed show ?thesis by simp
    next
      case NotFound
      then have "retire_ranges dbg rm key rs fs1 = (removed, failure, fs')" using Cons.prems safe u by simp
      from retired_step [OF u _ Cons.IH [OF this]] NotFound show ?thesis by simp
    qed
  qed
qed (simp add: retired_def)

lemma retire_object_version_effect:
  assumes "retire_object_version ve io key cached st = (res, st')"
  shows "fs_removed (dk_fs (cs_disk st)) (dk_fs (cs_disk st'))"
    "(\<forall>r \<in> set (nm_ranges cached). spec_path r \<noteq> p) \<Longrightarrow> dk_fs (cs_disk st') p = dk_fs (cs_disk st) p"
    "res = Inr () \<Longrightarrow> \<forall>r \<in> set (nm_ranges cached). is_safe_relative_file_path (cr_file_path r) \<longrightarrow>
       dk_fs (cs_disk st') (spec_path r) = FileMissing"
    "ms_metadata st' = ms_metadata st" "cs_confirmed st' = cs_confirmed st"
    "dk_stats (cs_disk st') = dk_stats (cs_disk st)"
proof -
  obtain removed failure fs where r: "retire_ranges (ve_dbg ve) (vi_unlink io) key (nm_ranges cached)
      (dk_fs (cs_disk st)) = (removed, failure, fs)" by (metis prod_cases3)
  have st': "dk_fs (cs_disk st') = fs" "res = (case failure of Some e \<Rightarrow> Inl e | None \<Rightarrow> Inr ())"
    "ms_metadata st' = ms_metadata st" "cs_confirmed st' = cs_confirmed st"
    "dk_stats (cs_disk st') = dk_stats (cs_disk st)"
    using assms by (auto simp: retire_object_version_def r Let_def)
  then have "res = Inr () \<Longrightarrow> failure = None" by (cases failure) simp_all
  with retire_ranges_effect [OF r, unfolded retired_def] st'
  show "fs_removed (dk_fs (cs_disk st)) (dk_fs (cs_disk st'))"
    "(\<forall>r \<in> set (nm_ranges cached). spec_path r \<noteq> p) \<Longrightarrow> dk_fs (cs_disk st') p = dk_fs (cs_disk st) p"
    "res = Inr () \<Longrightarrow> \<forall>r \<in> set (nm_ranges cached). is_safe_relative_file_path (cr_file_path r) \<longrightarrow>
       dk_fs (cs_disk st') (spec_path r) = FileMissing"
    "ms_metadata st' = ms_metadata st" "cs_confirmed st' = cs_confirmed st"
    "dk_stats (cs_disk st') = dk_stats (cs_disk st)" by simp_all
qed

lemma write_identity_effect:
  assumes "write_identity ve io key ob ttl st = Some (res, st')"
  shows "cs_disk st' = cs_disk st" "ms_journals st' = ms_journals st" "cs_confirmed st' = cs_confirmed st"
    "cs_acc st' = cs_acc st"
    "(\<exists>e. res = Inl e) \<and> ms_metadata st' = ms_metadata st \<or>
     res = Inr () \<and> (\<exists>p m. writer_metadata_path ve key = Inr p \<and> nm_ranges m = [] \<and>
       meta_etag m = om_etag ob \<and> nm_cache_key m = key \<and>
       ms_metadata st' = (ms_metadata st)(p := Some m))"
proof -
  obtain t where t: "time_checked_add (wi_now io) ttl = Some t"
    using assms by (cases "time_checked_add (wi_now io) ttl") (simp_all add: write_identity_def)
  define m where "m = (NewCacheMetadata_default (wi_now io)) \<lparr> nm_cache_key := key, nm_object_metadata := ob
         \<lparr> om_response_headers := strip_response_scoped_headers (om_response_headers ob) \<rparr>,
         nm_created_at := wi_now io, nm_expires_at := t \<rparr>"
  obtain r st1 where w: "write_metadata_to_disk ve (WriterIo.truncate io) m st = (r, st1)" by fastforce
  have run: "(case (r, st1) of (Inl e, st) \<Rightarrow> (Inl e, st)
      | (Inr _, st) \<Rightarrow> (Inr (), st \<lparr> cs_metadata_cache := (cs_metadata_cache st)(key := None) \<rparr>)) = (res, st')"
    using assms unfolding write_identity_def t option.map m_def [symmetric] w by simp
  have m: "nm_ranges m = []" "meta_etag m = om_etag ob" "nm_cache_key m = key"
    by (simp_all add: m_def NewCacheMetadata_default_def)
  from write_metadata_to_disk_cases [OF w, unfolded m(3)]
  consider (err) e where "r = Inl e" "st1 = st"
    | (ok) p where "r = Inr ()" "writer_metadata_path ve key = Inr p"
        "st1 = st \<lparr> ms_metadata := (ms_metadata st)(p := Some m) \<rparr>"
    by blast
  then have "cs_disk st' = cs_disk st \<and> ms_journals st' = ms_journals st \<and>
    cs_confirmed st' = cs_confirmed st \<and> cs_acc st' = cs_acc st \<and>
    ((\<exists>e. res = Inl e) \<and> ms_metadata st' = ms_metadata st \<or>
     res = Inr () \<and> (\<exists>p m. writer_metadata_path ve key = Inr p \<and> nm_ranges m = [] \<and>
       meta_etag m = om_etag ob \<and> nm_cache_key m = key \<and>
       ms_metadata st' = (ms_metadata st)(p := Some m)))"
  proof cases
    case err
    then show ?thesis using run by auto
  next
    case ok
    then have "res = Inr ()" "st' = st1 \<lparr> cs_metadata_cache := (cs_metadata_cache st1)(key := None) \<rparr>"
      using run by auto
    then show ?thesis using ok m by auto
  qed
  then show "cs_disk st' = cs_disk st" "ms_journals st' = ms_journals st" "cs_confirmed st' = cs_confirmed st"
    "cs_acc st' = cs_acc st"
    "(\<exists>e. res = Inl e) \<and> ms_metadata st' = ms_metadata st \<or>
     res = Inr () \<and> (\<exists>p m. writer_metadata_path ve key = Inr p \<and> nm_ranges m = [] \<and>
       meta_etag m = om_etag ob \<and> nm_cache_key m = key \<and>
       ms_metadata st' = (ms_metadata st)(p := Some m))" by blast+
qed

section \<open>A version takes over a key\<close>

lemma cv_gate_contains [simp]: "cv_contains key etag (cv_gate k cv) = cv_contains key etag cv"
  by (simp add: cv_gate_def cv_contains_def Let_def)


text \<open>The cached version that a claim read from the disk.\<close>

abbreviation read_version :: "'a VersionEnv_scheme \<Rightarrow> 'i VersionIo_scheme \<Rightarrow> ProxyError + NewCacheMetadata option" where
  "read_version ve io \<equiv> read_disk_metadata (ve_json ve) (ve_cap ve) (vi_metadata io)"

definition replaceable :: "'a VersionEnv_scheme \<Rightarrow> ObjectMetadata \<Rightarrow> NewCacheMetadata \<Rightarrow> bool" where
  "replaceable ve ob cached \<longleftrightarrow> meta_etag cached \<noteq> om_etag ob \<and>
     (meta_etag cached = [] \<or> newer_version (ve_http_date ve) (nm_object_metadata cached) ob)"

definition files_gone :: "NewCacheMetadata \<Rightarrow> fs \<Rightarrow> bool" where
  "files_gone cached fs \<longleftrightarrow>
     (\<forall>r \<in> set (nm_ranges cached). is_safe_relative_file_path (cr_file_path r) \<longrightarrow>
        fs (spec_path r) = FileMissing)"

lemma prepare_cases:
  assumes "prepare_object_version ve io key ob ttl st = Some (res, st')"
  obtains (same) "st' = st" "res = Inr () \<Longrightarrow> om_etag ob \<noteq> [] \<and>
      (\<exists>cached. read_version ve io = Inr (Some cached) \<and> meta_etag cached = om_etag ob)"
    | (new) "om_etag ob \<noteq> []" "read_version ve io = Inr None" "write_identity ve io key ob ttl st = Some (res, st')"
    | (stuck) cached e where "om_etag ob \<noteq> []" "read_version ve io = Inr (Some cached)" "replaceable ve ob cached"
        "retire_object_version ve io key cached st = (Inl e, st')" "res = Inl e"
    | (replaced) cached st1 where "om_etag ob \<noteq> []" "read_version ve io = Inr (Some cached)"
        "replaceable ve ob cached" "retire_object_version ve io key cached st = (Inr (), st1)"
        "write_identity ve io key ob ttl st1 = Some (res, st')"
proof (cases "om_etag ob = []")
  case True
  then show thesis using assms by (intro same) (auto simp: prepare_object_version_def Let_def)
next
  case etag: False
  show thesis
  proof (cases "read_version ve io")
    case (Inl e)
    then show thesis using assms etag by (intro same) (auto simp: prepare_object_version_def Let_def)
  next
    case (Inr existing)
    show thesis
    proof (cases existing)
      case None
      then show thesis using assms new etag Inr by (simp add: prepare_object_version_def Let_def)
    next
      case (Some cached)
      obtain r st1 where ret: "retire_object_version ve io key cached st = (r, st1)" by fastforce
      consider "meta_etag cached = om_etag ob"
        | "meta_etag cached \<noteq> om_etag ob" "\<not> replaceable ve ob cached"
        | "replaceable ve ob cached" by blast
      then show thesis
      proof cases
        case 1
        then show thesis using assms etag Inr Some by (intro same) (auto simp: prepare_object_version_def Let_def)
      next
        case 2
        then show thesis using assms etag Inr Some
          by (intro same) (auto simp: prepare_object_version_def Let_def replaceable_def)
      next
        case 3
        then show thesis using assms stuck replaced etag Inr Some ret
          by (cases r) (auto simp: prepare_object_version_def Let_def replaceable_def)
      qed
    qed
  qed
qed

lemma prepare_files:
  assumes "prepare_object_version ve io key ob ttl st = Some (res, st')"
  shows "fs_removed (dk_fs (cs_disk st)) (dk_fs (cs_disk st'))"
    "\<forall>cached r. read_version ve io = Inr (Some cached) \<longrightarrow> r \<in> set (nm_ranges cached) \<longrightarrow> spec_path r \<noteq> p \<Longrightarrow>
       dk_fs (cs_disk st') p = dk_fs (cs_disk st) p"
    "cs_confirmed st' = cs_confirmed st" "dk_stats (cs_disk st') = dk_stats (cs_disk st)"
  using assms by (cases rule: prepare_cases; simp add: retire_object_version_effect write_identity_effect)+


section \<open>A committed range can be loaded and is pending\<close>

definition journals_ready :: "string \<Rightarrow> nat \<Rightarrow> journal_dir \<Rightarrow> bool" where
  "journals_ready i n dir \<longleftrightarrow>
     (\<forall>c. map_of dir (primary_journal i) = Some c \<longrightarrow> terminated c) \<and> map_of dir (fresh_journal i n) = None"

lemma primary_not_fresh: "primary_journal i \<noteq> fresh_journal i n"
  by (simp add: primary_journal_def fresh_journal_def)

lemma fresh_journal_inject: "fresh_journal i n = fresh_journal i m \<Longrightarrow> n = m"
  using parse_show_nat_inj by (simp add: fresh_journal_def)

lemma terminated_unlines: "terminated (unlines ls)"
  by (induction ls) (auto simp: terminated_def)

lemma terminated_append: "terminated a \<Longrightarrow> terminated b \<Longrightarrow> terminated (a @ b)"
  by (cases "b = []") (auto simp: terminated_def)

lemma append_lines_ready:
  assumes "journals_ready i n dir" "ji_nanos io \<noteq> n" "terminated s" "append_lines io i s dir = (res, dir')"
  shows "journals_ready i n dir'"
proof -
  have "fresh_journal i (ji_nanos io) \<noteq> fresh_journal i n" using assms(2) fresh_journal_inject by blast
  moreover have "terminated []" by (simp add: terminated_def)
  ultimately show ?thesis
    using assms(1,3,4) primary_not_fresh [of i] primary_not_fresh [of i, symmetric] terminated_append
    by (auto simp: append_lines_def journals_ready_def update_conv Let_def
        split: option.splits if_splits prod.splits)
qed

lemma append_batch_ready:
  assumes "journals_ready i n dir" "ji_nanos io \<noteq> n" "append_range_entries_batch js io i es dir = (res, dir')"
  shows "journals_ready i n dir'"
  using assms append_lines_ready [OF assms(1,2)] serialize_entries_shown [of js es] terminated_unlines
  by (auto simp: append_range_entries_batch_def split: if_splits option.splits sum.splits)

lemma write_eviction_ready:
  assumes "\<And>k. ji_nanos (ios k) \<noteq> n" "journals_ready (we_instance we) n dir"
  shows "journals_ready (we_instance we) n (write_eviction_journal_entries we ios now rs dir)"
proof -
  have "journals_ready (we_instance we) n (fold (\<lambda>(k, es) dir. snd (append_range_entries_batch
      (we_journal we) (ios k) (we_instance we) es dir)) groups dir)" for groups
    using assms(2)
  proof (induction groups arbitrary: dir)
    case (Cons g gs)
    obtain k es where g: "g = (k, es)" by fastforce
    have "journals_ready (we_instance we) n
        (snd (append_range_entries_batch (we_journal we) (ios k) (we_instance we) es dir))"
      using append_batch_ready [OF Cons.prems assms(1) surjective_pairing] .
    then show ?case using Cons.IH g by simp
  qed simp
  then show ?thesis by (simp add: write_eviction_journal_entries_def)
qed

lemma retire_ready:
  assumes "\<And>k. ji_nanos (vi_evict io k) \<noteq> n" "journals_ready (we_instance ve) n (ms_journals st)"
    and "retire_object_version ve io key cached st = (res, st')"
  shows "journals_ready (we_instance ve) n (ms_journals st')"
proof -
  obtain removed failure fs where r: "retire_ranges (ve_dbg ve) (vi_unlink io) key (nm_ranges cached)
      (dk_fs (cs_disk st)) = (removed, failure, fs)" by (metis prod_cases3)
  show ?thesis
    using assms(2,3) write_eviction_ready [OF assms(1,2)] by (auto simp: retire_object_version_def r Let_def)
qed

lemma claim_effect:
  assumes "claim_object_version ve io key ob ttl st = Some (res, st')"
  shows "fs_removed (dk_fs (cs_disk st)) (dk_fs (cs_disk st'))"
    "\<forall>cached r. read_version ve io = Inr (Some cached) \<longrightarrow> r \<in> set (nm_ranges cached) \<longrightarrow> spec_path r \<noteq> p \<Longrightarrow>
       dk_fs (cs_disk st') p = dk_fs (cs_disk st) p"
    "\<lbrakk>\<And>k. ji_nanos (vi_evict io k) \<noteq> n; journals_ready (we_instance ve) n (ms_journals st)\<rbrakk> \<Longrightarrow>
       journals_ready (we_instance ve) n (ms_journals st')"
proof -
  define st0 where "st0 = st \<lparr> cs_confirmed := cv_gate key (cs_confirmed st) \<rparr>"
  have st0: "ms_journals st0 = ms_journals st" "cs_disk st0 = cs_disk st" by (simp_all add: st0_def)
  have cases: "cs_disk st' = cs_disk st0 \<and> ms_journals st' = ms_journals st0 \<or>
    (\<exists>r st1. prepare_object_version ve io key ob ttl st0 = Some (r, st1) \<and> cs_disk st' = cs_disk st1 \<and>
       ms_journals st' = ms_journals st1)"
  proof (cases "cv_contains key (om_etag ob) (cs_confirmed st)")
    case True
    then show ?thesis using assms st0 by (simp add: claim_object_version_def)
  next
    case False
    then show ?thesis
      using assms
      by (auto simp: claim_object_version_def Let_def st0_def split: option.splits sum.splits prod.splits)
  qed
  then show "fs_removed (dk_fs (cs_disk st)) (dk_fs (cs_disk st'))"
    using prepare_files(1) st0 by fastforce
  from cases show "\<forall>cached r. read_version ve io = Inr (Some cached) \<longrightarrow> r \<in> set (nm_ranges cached) \<longrightarrow> spec_path r \<noteq> p \<Longrightarrow>
       dk_fs (cs_disk st') p = dk_fs (cs_disk st) p"
    using prepare_files(2) st0 by metis
  assume evict: "\<And>k. ji_nanos (vi_evict io k) \<noteq> n" and ready: "journals_ready (we_instance ve) n (ms_journals st)"
  have "journals_ready (we_instance ve) n (ms_journals st1)"
    if "prepare_object_version ve io key ob ttl st0 = Some (r, st1)" for r st1
    using that
  proof (cases rule: prepare_cases)
    case (replaced cached st2)
    then show ?thesis
      using retire_ready [OF evict _ replaced(4)] ready st0 write_identity_effect(2) [OF replaced(5)] by simp
  next
    case (stuck cached e)
    then show ?thesis using retire_ready [OF evict _ stuck(4)] ready st0 by simp
  next
    case new
    then show ?thesis using write_identity_effect(2) [OF new(3)] ready st0 by simp
  next
    case same
    then show ?thesis using ready st0 by simp
  qed
  then show "journals_ready (we_instance ve) n (ms_journals st')" using cases ready st0 by metis
qed

lemma writer_inv_tmp: "writer_inv dec w d body \<Longrightarrow> dk_fs d' (iw_tmp_path w) = dk_fs d (iw_tmp_path w) \<Longrightarrow>
   writer_inv dec w d' body"
  by (simp add: writer_inv_def)

lemma read_file_same_file:
  assumes "same_file r r'"
  shows "read_file blake3 disk r v = read_file blake3 disk r' v"
proof -
  have path: "cr_file_path r = cr_file_path r'" using assms by (simp add: same_file_def)
  show ?thesis
    unfolding read_file_def servable_range_path_def range_file_not_found_def range_file_failed_def path
      same_file_belongs [OF assms] by (rule refl)
qed

lemma holds_body_same_file:
  "same_file r r' \<Longrightarrow> holds_body blake3 dec disk r' v body \<Longrightarrow> holds_body blake3 dec disk r v body"
  using read_file_same_file [of r r'] by (simp add: holds_body_def same_file_def)

lemma load_belongs:
  assumes "load_range_data_for_version blake3 dec disk spec key etag = (Inr body, disk')"
  shows "range_file_belongs_to spec (object_version_id blake3 etag)"
proof (rule ccontr)
  assume "\<not> range_file_belongs_to spec (object_version_id blake3 etag)"
  then have "\<exists>e. servable_range_path blake3 spec (Some (key, etag)) = Inl e"
    by (simp add: servable_range_path_def)
  then have "\<exists>e. read_file blake3 disk spec (Some (key, etag)) = Inl e" by (auto simp: read_file_def)
  then show False using assms by (auto simp: load_range_data_for_version_def read_range_data_def)
qed

lemma write_journal_only_disk:
  "write_journal_only we io key spec obj ttl (st :: CacheStore) = (r, st') \<Longrightarrow> cs_disk st' = cs_disk st"
  by (auto simp: write_journal_only_def append_to_journals_def split: prod.splits sum.splits)

lemma commit_steps:
  assumes "ve_hybrid ve" "commit_incremental_range ve io w ob ttl st = Some (Inr u, st')"
  obtains b st1 spec existed disk st2 where
    "claim_object_version ve io (iw_cache_key w) ob ttl st = Some (Inr b, st1)"
    "finalize_incremental_range (we_blake3 ve) (we_pct ve) (ve_xxh32 ve) (ve_enc ve) (vi_file io)
       (wi_now io) w (cs_disk st1) (Some (ve_partial_range_commit_ratio ve)) (om_etag ob) =
       (Inr (spec, existed), disk)"
    "write_journal_only ve (WriterIo.truncate io) (iw_cache_key w)
       (spec \<lparr> cr_staged := Some (classify_new_range_as_staged (cr_file_path spec) (om_is_write_cached ob)) \<rparr>)
       (Some ob) ttl (st1 \<lparr> cs_disk := disk \<rparr>) = (Inr (), st2)"
    "ms_journals st' = ms_journals st2" "cs_disk st' = cs_disk st2"
proof (cases "claim_object_version ve io (iw_cache_key w) ob ttl st")
  case None
  then show thesis using assms by (simp add: commit_incremental_range_def Let_def)
next
  case (Some c)
  obtain r1 st1 where c: "c = (r1, st1)" by fastforce
  obtain r2 disk where fin: "finalize_incremental_range (we_blake3 ve) (we_pct ve) (ve_xxh32 ve) (ve_enc ve)
      (vi_file io) (wi_now io) w (cs_disk st1) (Some (ve_partial_range_commit_ratio ve)) (om_etag ob) =
      (r2, disk)" by fastforce
  show thesis
  proof (cases r1)
    case (Inl e)
    then show thesis using assms Some c by (simp add: commit_incremental_range_def Let_def)
  next
    case r1: (Inr b)
    show thesis
    proof (cases r2)
      case (Inl e)
      then show thesis using assms Some c r1 fin by (simp add: commit_incremental_range_def Let_def)
    next
      case (Inr se)
      obtain spec existed where se: "se = (spec, existed)" by fastforce
      let ?spec = "spec \<lparr> cr_staged := Some (classify_new_range_as_staged (cr_file_path spec) (om_is_write_cached ob)) \<rparr>"
      obtain r3 st2 where wr: "write_journal_only ve (WriterIo.truncate io) (iw_cache_key w) ?spec
          (Some ob) ttl (st1 \<lparr> cs_disk := disk \<rparr>) = (r3, st2)" by fastforce
      show thesis
      proof (cases r3)
        case (Inl e)
        then show thesis using assms Some c r1 fin Inr se wr
          by (simp add: commit_incremental_range_def write_range_metadata_def Let_def)
      next
        case r3: (Inr v)
        then have "ms_journals st' = ms_journals st2" "cs_disk st' = cs_disk st2"
          using assms Some c r1 fin Inr se wr
          by (auto simp: commit_incremental_range_def write_range_metadata_def Let_def)
        then show thesis
          using that [OF Some [unfolded c r1] fin [unfolded Inr se]] wr r3 by simp
      qed
    qed
  qed
qed

text \<open>
  C3: A commit that succeeds has published the bytes and recorded them. The range file holds
  exactly the accepted bytes, starting where the writer started, and loads for the version it
  was committed under; and an \<open>Add\<close> entry that describes that file and carries the version is
  among the pending entries of the key. This holds for every way the claim of the version can
  go, including one that first removes the files of an older version.
\<close>

theorem commit_publishes:
  assumes "codec_ok (ve_xxh32 ve) (ve_enc ve) dec" "blake3_ok (we_blake3 ve)" "pct_ok (we_pct ve)"
    and "journal_codec_ok (we_journal ve)" "ve_hybrid ve"
    and "writer_inv dec w (cs_disk st) body" "ends_with ''.tmp'' (last (iw_tmp_path w))"
    and "length body < u64_mod" "iw_start w \<le> iw_end w" "iw_end w < u64_max"
    and "\<forall>cached r. read_version ve io = Inr (Some cached) \<longrightarrow> r \<in> set (nm_ranges cached) \<longrightarrow>
           spec_path r \<noteq> iw_tmp_path w"
    and "journals_ready (we_instance ve) (ji_nanos (wi_journal io)) (ms_journals st)"
    and "\<And>k. ji_nanos (vi_evict io k) \<noteq> ji_nanos (wi_journal io)" "ji_read (wi_journal io) = None"
    and "commit_incremental_range ve io w ob ttl st = Some (Inr (), st')"
  shows "\<exists>e. e \<in># dir_entries (we_journal ve) (iw_cache_key w) (ms_journals st') \<and>
    je_operation e = Add \<and> je_object_metadata e = Some ob \<and>
    matches_object_version (we_blake3 ve) e (om_etag ob) \<and>
    cr_start (je_range_spec e) = iw_start w \<and>
    iw_start w + length body = cr_end (je_range_spec e) + 1 \<and>
    load_range_data_for_version (we_blake3 ve) dec (cs_disk st') (je_range_spec e) (iw_cache_key w)
      (om_etag ob) = (Inr body, cs_disk st')"
proof -
  let ?key = "iw_cache_key w"
  obtain b st1 spec existed disk st2 where
    claim: "claim_object_version ve io ?key ob ttl st = Some (Inr b, st1)"
    and fin: "finalize_incremental_range (we_blake3 ve) (we_pct ve) (ve_xxh32 ve) (ve_enc ve) (vi_file io)
       (wi_now io) w (cs_disk st1) (Some (ve_partial_range_commit_ratio ve)) (om_etag ob) =
       (Inr (spec, existed), disk)"
    and wr: "write_journal_only ve (WriterIo.truncate io) ?key
       (spec \<lparr> cr_staged := Some (classify_new_range_as_staged (cr_file_path spec) (om_is_write_cached ob)) \<rparr>)
       (Some ob) ttl (st1 \<lparr> cs_disk := disk \<rparr>) = (Inr (), st2)"
    and st': "ms_journals st' = ms_journals st2" "cs_disk st' = cs_disk st2"
    using commit_steps [OF assms(5,15)] .
  note c = claim_effect [OF claim]
  let ?spec = "spec \<lparr> cr_staged := Some (classify_new_range_as_staged (cr_file_path spec) (om_is_write_cached ob)) \<rparr>"
  let ?io = "WriterIo.truncate io"
  let ?e = "add_entry ve ?io ?key ?spec (Some ob) ttl"
  have winv: "writer_inv dec w (cs_disk st1) body" by (rule writer_inv_tmp [OF assms(6) c(2) [OF assms(11)]])
  have ready: "journal_ready ve ?io (st1 \<lparr> cs_disk := disk \<rparr>)"
    using c(3) [OF assms(13,12)] assms(14) by (simp add: journal_ready_def journals_ready_def WriterIo.truncate_def)
  note f = finalize_ok [OF assms(1-3) winv assms(7-10) fin]
  have extent: "cr_start spec = iw_start w" "iw_start w + length body = cr_end spec + 1"
    and body: "holds_body (we_blake3 ve) dec disk spec (Some (?key, om_etag ob)) body"
    using f by - (elim conjE, assumption)+
  have "same_file ?spec spec" by (simp add: same_file_def)
  from holds_body_load [OF holds_body_same_file [OF this body]]
  have load: "load_range_data_for_version (we_blake3 ve) dec disk ?spec ?key (om_etag ob) = (Inr body, disk)"
    by (simp add: load_range_data_for_version_def)
  have "?e \<in># dir_entries (we_journal ve) ?key (ms_journals st')"
    using write_journal_only_ok(1) [OF assms(4) ready wr] st'(1) by simp
  moreover have "cs_disk st' = disk" using write_journal_only_disk [OF wr] st'(2) by simp
  moreover have "matches_object_version (we_blake3 ve) ?e (om_etag ob)"
    using load_belongs [OF load]
    by (simp add: add_entry_def matches_object_version_def entry_matches_object_version_def)
  moreover have "je_operation ?e = Add" "je_object_metadata ?e = Some ob" "je_range_spec ?e = ?spec"
    by (simp_all add: add_entry_def)
  ultimately show ?thesis using extent load by (intro exI [of _ ?e] conjI) simp_all
qed

section \<open>A sample run\<close>

text \<open>A codec that can write one entry, and an environment without a metadata file.\<close>

definition one_entry_codec :: "JournalEntry \<Rightarrow> JournalCodec" where
  "one_entry_codec e =
     \<lparr> js_show = (\<lambda>entry. if entry = e then Inr ''{e}'' else Inl ''unsupported''),
       js_parse = (\<lambda>line. if line = ''{e}'' then Some e else None), js_key = (\<lambda>_. []) \<rparr>"

lemma one_entry_codec_ok: "journal_codec_ok (one_entry_codec e)"
proof -
  have trim: "trim ''{e}'' = ''{e}''" by code_simp
  have con: "contains_str [] ''{e}''" by code_simp
  have "take n ''{e}'' \<noteq> ''{e}''" if "n < length ''{e}''" for n
  proof
    assume "take n ''{e}'' = ''{e}''"
    then have "length (take n ''{e}'') = length ''{e}''" by (rule arg_cong)
    then show False using that by simp
  qed
  then show ?thesis
    using trim con by (auto simp: journal_codec_ok_def one_entry_codec_def split: if_splits)
qed

definition sample_version_env :: "JournalEntry \<Rightarrow> VersionEnv" where
  "sample_version_env e =
     \<lparr> we_blake3 = zero_digest, we_pct = percent_encode_bytes, we_journal = one_entry_codec e,
       we_instance = ''h:1'', ve_xxh32 = (\<lambda>_. 0), ve_enc = store_encoder (\<lambda>_. 0),
       ve_json = sample_codec \<lparr> jc_metadata := (\<lambda>c. if c = ''{m}'' then Some (sample_metadata
           \<lparr> nm_ranges := [sample_spec],
             nm_object_metadata := ObjectMetadata_default \<lparr> om_etag := ''v'', om_last_modified := ''1'' \<rparr> \<rparr>)
         else None) \<rparr>,
       ve_http_date = (\<lambda>s. if s = ''1'' then Some 1 else if s = ''2'' then Some 2 else None),
       ve_dbg = concat, ve_cache_dir = ''/c'', ve_hybrid = True, ve_consolidator = False,
       ve_cap = 100, ve_partial_range_commit_ratio = 1 \<rparr>"

definition sample_version_io :: "StatResult \<Rightarrow> VersionIo" where
  "sample_version_io stat =
     \<lparr> wi_now = 0, wi_lock = None, wi_read = None, wi_parse = None, wi_create_dir = None,
       wi_serialize = None, wi_write = None, wi_rename = None, wi_journal = journal_io_ok,
       vi_metadata = \<lparr> mi_exists = True, mi_permit = True, mi_joined = True,
         mi_obs = \<lparr> mo_stat = stat, mo_reads = (\<lambda>_. ReadOk ''{m}''), mo_restat = stat \<rparr> \<rparr>,
       vi_unlink = (\<lambda>_. None), vi_evict = (\<lambda>_. journal_io_ok \<lparr> ji_nanos := 1 \<rparr>), vi_file = io_ok \<rparr>"

definition sample_cache_store :: "Disk \<Rightarrow> CacheStore" where
  "sample_cache_store disk =
     \<lparr> ms_metadata = (\<lambda>_. None), ms_journals = [], cs_disk = disk, cs_acc = sa_new,
       cs_confirmed = \<lparr> cv_versions = [], cv_gates = [] \<rparr>, cs_metadata_cache = (\<lambda>_. None) \<rparr>"

abbreviation sample_cached :: NewCacheMetadata where
  "sample_cached \<equiv> sample_metadata \<lparr> nm_ranges := [sample_spec],
     nm_object_metadata := ObjectMetadata_default \<lparr> om_etag := ''v'', om_last_modified := ''1'' \<rparr> \<rparr>"

lemma sample_read_version:
  "read_version (sample_version_env e) (sample_version_io StatNotFound) = Inr None"
  "read_version (sample_version_env e) (sample_version_io (StatOk 3)) = Inr (Some sample_cached)"
proof -
  have "read_metadata_loop (\<lambda>_. ReadOk ''{m}'') 0 = (Inr ''{m}'', 1)"
    by (subst read_metadata_loop.simps) (simp add: Let_def)
  moreover have "parse_metadata_loop (ve_json (sample_version_env e)) (\<lambda>_. ReadOk ''{m}'') 0 1 ''{m}'' =
      Inr sample_cached"
    by (subst parse_metadata_loop.simps) (simp add: sample_version_env_def)
  ultimately show
    "read_version (sample_version_env e) (sample_version_io StatNotFound) = Inr None"
    "read_version (sample_version_env e) (sample_version_io (StatOk 3)) = Inr (Some sample_cached)"
    by (simp_all add: read_disk_metadata_def read_and_parse_metadata_blocking_def sample_version_io_def)
      (simp add: sample_version_env_def)
qed

lemma sample_env_path:
  "writer_metadata_path (sample_version_env e) ''b/k'' = Inr [''b'', ''00'', ''000'', ''k.meta'']"
  using sample_writer_path by (simp add: sample_writer_def sample_version_env_def)

lemma sample_write_identity:
  "\<exists>st'. write_identity (sample_version_env e) (sample_version_io stat) ''b/k'' ob 60 st = Some (Inr (), st') \<and>
     cs_disk st' = cs_disk st \<and> ms_journals st' = ms_journals st"
proof -
  have "time_checked_add 0 60 \<noteq> None" by (simp add: time_checked_add_def)
  then show ?thesis
    using sample_env_path
    by (auto simp: write_identity_def write_metadata_to_disk_def sample_version_io_def WriterIo.truncate_def)
qed


lemma finalize_any_ratio:
  assumes "finalize_incremental_range b p x enc io now w d None etag = (Inr r, d')"
  shows "finalize_incremental_range b p x enc io now w d ratio etag = (Inr r, d')"
proof -
  obtain f w1 d1 where fl: "(if iw_batch_buf w \<noteq> [] then flush_batch x enc io w d else (Inr (), w, d)) = (f, w1, d1)"
    by (metis prod_cases3)
  show ?thesis
    using assms unfolding finalize_incremental_range_def fl
    by (cases f) (auto simp: Let_def salvage_prefix_def split: if_splits)
qed

lemma sample_commit:
  obtains e w0 disk1 w disk spec st' where
    "begin_incremental_range_write zero_digest percent_encode_bytes concat 100 io_ok empty_disk ''u''
       ''b/k'' 0 4 False = (Inr w0, disk1)"
    "write_chunks (\<lambda>_. 0) (store_encoder (\<lambda>_. 0)) w0 disk1 [(io_ok, ''he''), (io_ok, ''llo'')] =
       (Inr (), w, disk)"
    "commit_incremental_range (sample_version_env e) (sample_version_io StatNotFound) w
       (ObjectMetadata_default \<lparr> om_etag := ''v'' \<rparr>) 60 (sample_cache_store disk) = Some (Inr (), st')"
    "finalize_incremental_range zero_digest percent_encode_bytes (\<lambda>_. 0) (store_encoder (\<lambda>_. 0)) io_ok
       0 w disk None ''v'' = (Inr (spec, False), cs_disk st')"
    "je_cache_key e = ''b/k''" "je_operation e = Add" "same_file (je_range_spec e) spec"
    "je_object_metadata e = Some (ObjectMetadata_default \<lparr> om_etag := ''v'' \<rparr>)"
    "ms_journals st' = [(''h:1.journal'', ''{e}'' @ [CHR 0x0A])]"
proof -
  obtain w0 disk1 w disk spec disk3 where run:
    "begin_incremental_range_write zero_digest percent_encode_bytes concat 100 io_ok empty_disk ''u''
       ''b/k'' 0 4 False = (Inr w0, disk1)"
    "write_chunks (\<lambda>_. 0) (store_encoder (\<lambda>_. 0)) w0 disk1 [(io_ok, ''he''), (io_ok, ''llo'')] =
       (Inr (), w, disk)"
    "finalize_incremental_range zero_digest percent_encode_bytes (\<lambda>_. 0) (store_encoder (\<lambda>_. 0)) io_ok
       0 w disk None ''v'' = (Inr (spec, False), disk3)"
    using sample_write by blast
  let ?ob = "ObjectMetadata_default \<lparr> om_etag := ''v'' \<rparr>"
  let ?spec = "spec \<lparr> cr_staged := Some (classify_new_range_as_staged (cr_file_path spec) (om_is_write_cached ?ob)) \<rparr>"
  define e where "e = add_entry (sample_version_env (sample_entry Add)) (WriterIo.truncate (sample_version_io StatNotFound))
      ''b/k'' ?spec (Some ?ob) 60"
  let ?ve = "sample_version_env e" and ?io = "sample_version_io StatNotFound"
  let ?st = "sample_cache_store disk"
  have key: "iw_cache_key w = ''b/k''" using write_chunks_frame [OF run(2)] begin_inv [OF run(1)] by simp
  obtain st1 where id: "write_identity ?ve ?io ''b/k'' ?ob 60
      (?st \<lparr> cs_confirmed := cv_gate ''b/k'' (cs_confirmed ?st) \<rparr>) = Some (Inr (), st1)"
    "cs_disk st1 = disk" "ms_journals st1 = []"
    using sample_write_identity [of e StatNotFound ?ob] by (fastforce simp: sample_cache_store_def)
  have "\<not> cv_contains ''b/k'' ''v'' (cs_confirmed ?st)" "wi_lock ?io = None"
    by (simp_all add: cv_contains_def sample_cache_store_def sample_version_io_def)
  then have claim: "claim_object_version ?ve ?io ''b/k'' ?ob 60 ?st = Some (Inr True,
      st1 \<lparr> cs_confirmed := cv_confirm ''b/k'' ''v'' (cs_confirmed st1) \<rparr>)"
    using id(1) sample_read_version(1)
    by (simp add: claim_object_version_def prepare_object_version_def Let_def)
  have fin: "finalize_incremental_range (we_blake3 ?ve) (we_pct ?ve) (ve_xxh32 ?ve) (ve_enc ?ve)
      (vi_file ?io) (wi_now ?io) w disk (Some (ve_partial_range_commit_ratio ?ve)) ''v'' =
      (Inr (spec, False), disk3)"
    using finalize_any_ratio [OF run(3)] by (simp add: sample_version_env_def sample_version_io_def)
  have e: "add_entry ?ve (WriterIo.truncate ?io) ''b/k'' ?spec (Some ?ob) 60 = e"
    by (simp add: e_def add_entry_def sample_version_env_def)
  have append: "append_range_entry (we_journal ?ve) (wi_journal (WriterIo.truncate ?io)) (we_instance ?ve)
      e [] = (Inr (), [(''h:1.journal'', ''{e}'' @ [CHR 0x0A])])"
    by (simp add: append_range_entry_def append_lines_def sample_version_env_def sample_version_io_def
        one_entry_codec_def journal_io_ok_def WriterIo.truncate_def Let_def primary_journal_def)
  let ?st2 = "st1 \<lparr> cs_confirmed := cv_confirm ''b/k'' ''v'' (cs_confirmed st1), cs_disk := disk3 \<rparr>"
  have wr: "write_journal_only ?ve (WriterIo.truncate ?io) ''b/k'' ?spec (Some ?ob) 60 ?st2 =
      (Inr (), ?st2 \<lparr> ms_journals := [(''h:1.journal'', ''{e}'' @ [CHR 0x0A])] \<rparr>)"
    using append id(3) unfolding write_journal_only_def append_to_journals_def e by simp
  have hybrid: "ve_hybrid ?ve" by (simp add: sample_version_env_def)
  then obtain st' where "commit_incremental_range ?ve ?io w ?ob 60 ?st = Some (Inr (), st')"
    "cs_disk st' = disk3" "ms_journals st' = [(''h:1.journal'', ''{e}'' @ [CHR 0x0A])]"
    using claim fin id(2) key wr
    by (simp add: commit_incremental_range_def write_range_metadata_def Let_def credit_range_def)
  moreover have "same_file (je_range_spec e) spec" "je_cache_key e = ''b/k''" "je_operation e = Add" "je_object_metadata e = Some ?ob"
    by (simp_all add: e_def add_entry_def same_file_def)
  ultimately show thesis using that run by blast
qed

theorem commit_publishes_witness:
  "\<exists>e w disk st' spec.
     commit_incremental_range (sample_version_env e) (sample_version_io StatNotFound) w
       (ObjectMetadata_default \<lparr> om_etag := ''v'' \<rparr>) 60 (sample_cache_store disk) = Some (Inr (), st') \<and>
     load_range_data_for_version zero_digest (read_stored_frame (\<lambda>_. 0)) (cs_disk st') spec ''b/k'' ''v'' =
       (Inr ''hello'', cs_disk st')"
proof -
  obtain e w0 disk1 w disk st' where run:
    "begin_incremental_range_write zero_digest percent_encode_bytes concat 100 io_ok empty_disk ''u''
       ''b/k'' 0 4 False = (Inr w0, disk1)"
    "write_chunks (\<lambda>_. 0) (store_encoder (\<lambda>_. 0)) w0 disk1 [(io_ok, ''he''), (io_ok, ''llo'')] =
       (Inr (), w, disk)"
    and commit: "commit_incremental_range (sample_version_env e) (sample_version_io StatNotFound) w
       (ObjectMetadata_default \<lparr> om_etag := ''v'' \<rparr>) 60 (sample_cache_store disk) = Some (Inr (), st')"
    by (rule sample_commit)
  let ?ob = "ObjectMetadata_default \<lparr> om_etag := ''v'' \<rparr>"
  let ?ve = "sample_version_env e" and ?io = "sample_version_io StatNotFound"
  let ?st = "sample_cache_store disk"
  note frame = write_chunks_frame [OF run(2)] begin_inv [OF run(1)]
  have key: "iw_cache_key w = ''b/k''" "iw_start w = 0" "iw_end w = 4" "iw_tmp_path w = iw_tmp_path w0"
    using frame by simp_all
  have winv: "writer_inv (read_stored_frame (\<lambda>_. 0)) w disk ''hello''"
    using write_chunks_inv [OF store_codec_ok frame(2) run(2)] by simp
  have ve: "codec_ok (ve_xxh32 ?ve) (ve_enc ?ve) (read_stored_frame (\<lambda>_. 0))" "blake3_ok (we_blake3 ?ve)"
    "pct_ok (we_pct ?ve)" "journal_codec_ok (we_journal ?ve)" "ve_hybrid ?ve"
    using store_codec_ok zero_digest_ok percent_encode_bytes_ok one_entry_codec_ok
    by (simp_all add: sample_version_env_def)
  have io: "\<forall>cached r. read_version ?ve ?io = Inr (Some cached) \<longrightarrow> r \<in> set (nm_ranges cached) \<longrightarrow>
      spec_path r \<noteq> iw_tmp_path w"
    "journals_ready (we_instance ?ve) (ji_nanos (wi_journal ?io)) (ms_journals ?st)"
    "\<And>k. ji_nanos (vi_evict ?io k) \<noteq> ji_nanos (wi_journal ?io)" "ji_read (wi_journal ?io) = None"
    using sample_read_version(1)
    by (simp_all add: journals_ready_def sample_cache_store_def sample_version_io_def journal_io_ok_def)
  have w: "writer_inv (read_stored_frame (\<lambda>_. 0)) w (cs_disk ?st) ''hello''"
    "ends_with ''.tmp'' (last (iw_tmp_path w))" "length ''hello'' < u64_mod" "iw_start w \<le> iw_end w"
    "iw_end w < u64_max"
    using winv frame key by (simp_all add: sample_cache_store_def)
  have env: "we_blake3 ?ve = zero_digest" "om_etag ?ob = ''v''" by (simp_all add: sample_version_env_def)
  obtain entry :: JournalEntry where "load_range_data_for_version zero_digest (read_stored_frame (\<lambda>_. 0)) (cs_disk st')
      (je_range_spec entry) ''b/k'' ''v'' = (Inr ''hello'', cs_disk st')"
    using commit_publishes [OF ve w io commit] unfolding env key(1) by blast
  with commit show ?thesis by blast
qed

end
