(* ===== verification/Ram_Cache.thy ===== *)
theory Ram_Cache
  imports Size_Accumulator "HOL-Library.AList"
begin

text \<open>
  The first cache tier, \<open>ram_cache.rs\<close>: shards of entries with least-recently-used or
  frequency based eviction, routed by the digest of the key.

  A hash map is an association list; its order stands for the iteration order of the map,
  which only decides between equally good TinyLFU victims. The atomics of an entry are fields
  that \<open>get\<close> updates. Each operation takes the clock as \<open>now_ms\<close>; the readings one \<open>put\<close>
  takes are one value. \<open>lay\<close> holds the sizes of the two structures, which the language leaves
  to the compiler. Lengths of buffers are at most half the address space, so the size of an
  entry does not wrap.
\<close>

section \<open>Data\<close>

datatype CacheEvictionAlgorithm = LRU | TinyLFU

record CacheMetadata =
  cm_etag :: string
  cm_last_modified :: string
  cm_content_length :: u64
  cm_part_number :: "u32 option"
  cm_cache_control :: "string option"
  cm_access_count :: u64
  cm_last_accessed :: SystemTime

record RamCacheEntry =
  re_cache_key :: string
  re_data :: string
  re_metadata :: CacheMetadata
  re_created_at :: SystemTime
  re_last_accessed :: u64
  re_access_count :: u64
  re_compressed :: bool
  re_compression_algorithm :: CompressionAlgorithm

record RamCacheRead =
  rd_data :: string
  rd_metadata :: CacheMetadata
  rd_compressed :: bool
  rd_compression_algorithm :: CompressionAlgorithm

record EvictionState =
  ev_algorithm :: CacheEvictionAlgorithm
  ev_lru_order :: "string list"

record RamCacheShard =
  sh_data :: "(string \<times> RamCacheEntry) list"
  sh_eviction :: EvictionState
  sh_current_size :: usize
  sh_capacity :: usize
  sh_pending_accesses :: "string list"
  sh_eviction_count :: u64
  sh_last_eviction_ms :: u64

record ShardedRamCache =
  rc_shards :: "RamCacheShard list"
  rc_shard_count :: usize
  rc_hit_count :: u64
  rc_miss_count :: u64

definition RAM_CACHE_ADMISSION_CEILING :: usize where
  "RAM_CACHE_ADMISSION_CEILING = 64 * 1024 * 1024"

definition shard_index :: "(string \<Rightarrow> string) \<Rightarrow> string \<Rightarrow> usize \<Rightarrow> usize" where
  "shard_index blake3 cache_key shard_count = digest_u64 (blake3 cache_key) mod shard_count"

definition eviction_new :: "CacheEvictionAlgorithm \<Rightarrow> EvictionState" where
  "eviction_new eviction_algorithm =
     \<lparr> ev_algorithm = eviction_algorithm, ev_lru_order = [] \<rparr>"

definition shard_new :: "usize \<Rightarrow> CacheEvictionAlgorithm \<Rightarrow> RamCacheShard" where
  "shard_new capacity eviction_algorithm =
     \<lparr> sh_data = [], sh_eviction = eviction_new eviction_algorithm, sh_current_size = 0,
       sh_capacity = capacity, sh_pending_accesses = [], sh_eviction_count = 0,
       sh_last_eviction_ms = 0 \<rparr>"

definition effective_shards :: "usize \<Rightarrow> usize \<Rightarrow> usize" where
  "effective_shards total_capacity shard_count =
     min (max shard_count 1) (max (total_capacity div RAM_CACHE_ADMISSION_CEILING) 1)"

definition ram_new :: "usize \<Rightarrow> usize \<Rightarrow> CacheEvictionAlgorithm \<Rightarrow> ShardedRamCache" where
  "ram_new total_capacity shard_count eviction_algorithm =
     (let effective_shard_count = effective_shards total_capacity shard_count;
          per_shard_capacity = max (total_capacity div effective_shard_count) 1
      in \<lparr> rc_shards = replicate effective_shard_count (shard_new per_shard_capacity eviction_algorithm),
           rc_shard_count = effective_shard_count, rc_hit_count = 0, rc_miss_count = 0 \<rparr>)"

text \<open>\<open>unlocked\<close> says whether no writer holds the first shard.\<close>

definition max_size :: "bool \<Rightarrow> ShardedRamCache \<Rightarrow> usize" where
  "max_size unlocked c =
     (if rc_shard_count c = 0 then 0
      else u64_mul (if unlocked then sh_capacity (rc_shards c ! 0) else 0) (rc_shard_count c))"

section \<open>One shard\<close>

type_synonym layout = "nat \<times> nat"

definition shard_calculate_entry_size :: "layout \<Rightarrow> RamCacheEntry \<Rightarrow> usize" where
  "shard_calculate_entry_size lay entry =
     fst lay + length (re_cache_key entry) + length (re_data entry) + snd lay"

abbreviation lru_of :: "RamCacheShard \<Rightarrow> string list" where
  "lru_of shard \<equiv> ev_lru_order (sh_eviction shard)"

abbreviation alg_of :: "RamCacheShard \<Rightarrow> CacheEvictionAlgorithm" where
  "alg_of shard \<equiv> ev_algorithm (sh_eviction shard)"

definition set_order :: "string list \<Rightarrow> RamCacheShard \<Rightarrow> RamCacheShard" where
  "set_order order shard =
     shard \<lparr> sh_eviction := (sh_eviction shard) \<lparr> ev_lru_order := order \<rparr> \<rparr>"

definition shard_add_to_tracking :: "string \<Rightarrow> RamCacheShard \<Rightarrow> RamCacheShard" where
  "shard_add_to_tracking key shard =
     (case alg_of shard of
        LRU \<Rightarrow> set_order (lru_of shard @ [key]) shard
      | TinyLFU \<Rightarrow> shard)"

definition shard_remove_from_tracking :: "string \<Rightarrow> RamCacheShard \<Rightarrow> RamCacheShard" where
  "shard_remove_from_tracking key shard =
     (case alg_of shard of
        LRU \<Rightarrow> set_order (remove1 key (lru_of shard)) shard
      | TinyLFU \<Rightarrow> shard)"

definition shard_update_access_tracking :: "string \<Rightarrow> RamCacheShard \<Rightarrow> RamCacheShard" where
  "shard_update_access_tracking key shard =
     (case alg_of shard of
        LRU \<Rightarrow> set_order (remove1 key (lru_of shard) @ [key]) shard
      | TinyLFU \<Rightarrow> shard)"

definition shard_find_lru_victim :: "RamCacheShard \<Rightarrow> string option" where
  "shard_find_lru_victim shard =
     (case lru_of shard of [] \<Rightarrow> None | key # _ \<Rightarrow> Some key)"

text \<open>The order of the score pairs, and \<open>Iterator::min_by_key\<close>: the first of several minima.\<close>

definition score_less :: "nat \<times> nat \<Rightarrow> nat \<times> nat \<Rightarrow> bool" where
  "score_less x y = (fst x < fst y \<or> fst x = fst y \<and> snd x < snd y)"

fun min_by_key :: "('a \<Rightarrow> nat \<times> nat) \<Rightarrow> 'a list \<Rightarrow> 'a option" where
  "min_by_key f [] = None"
| "min_by_key f (x # xs) =
     (case min_by_key f xs of
        None \<Rightarrow> Some x
      | Some y \<Rightarrow> Some (if score_less (f y) (f x) then y else x))"

definition victim_score :: "u64 \<Rightarrow> RamCacheEntry \<Rightarrow> nat \<times> nat" where
  "victim_score now_ms entry =
     (let idle_secs = (now_ms - re_last_accessed entry) div 1000
      in (decayed_frequency (re_access_count entry) idle_secs, re_last_accessed entry))"

definition shard_find_tinylfu_victim :: "u64 \<Rightarrow> RamCacheShard \<Rightarrow> string option" where
  "shard_find_tinylfu_victim now_ms shard =
     map_option fst (min_by_key (\<lambda>(_, entry). victim_score now_ms entry) (sh_data shard))"

definition find_victim :: "u64 \<Rightarrow> RamCacheShard \<Rightarrow> string option" where
  "find_victim now_ms shard =
     (case alg_of shard of
        LRU \<Rightarrow> shard_find_lru_victim shard
      | TinyLFU \<Rightarrow> shard_find_tinylfu_victim now_ms shard)"

text \<open>Taking an entry out, with its size and its place in the order.\<close>

definition drop_entry :: "layout \<Rightarrow> string \<Rightarrow> RamCacheEntry \<Rightarrow> RamCacheShard \<Rightarrow> RamCacheShard" where
  "drop_entry lay key entry shard =
     shard_remove_from_tracking key
       (shard \<lparr> sh_data := AList.delete key (sh_data shard),
                sh_current_size := sh_current_size shard - shard_calculate_entry_size lay entry \<rparr>)"

definition evict_entry :: "layout \<Rightarrow> u64 \<Rightarrow> string \<Rightarrow> RamCacheEntry \<Rightarrow> RamCacheShard \<Rightarrow> RamCacheShard" where
  "evict_entry lay now_ms key entry shard =
     (drop_entry lay key entry shard)
       \<lparr> sh_eviction_count := u64_add (sh_eviction_count shard) 1, sh_last_eviction_ms := now_ms \<rparr>"

lemma sh_data_tracking [simp]:
  "sh_data (shard_remove_from_tracking key shard) = sh_data shard"
  "sh_data (shard_add_to_tracking key shard) = sh_data shard"
  "sh_data (shard_update_access_tracking key shard) = sh_data shard"
  by (simp_all add: shard_remove_from_tracking_def shard_add_to_tracking_def
      shard_update_access_tracking_def set_order_def split: CacheEvictionAlgorithm.split)

lemma sh_data_evict [simp]: "sh_data (evict_entry lay now key entry shard) = AList.delete key (sh_data shard)"
  by (simp add: evict_entry_def drop_entry_def)

function (sequential) evict_until :: "layout \<Rightarrow> u64 \<Rightarrow> usize \<Rightarrow> RamCacheShard \<Rightarrow> RamCacheShard" where
  "evict_until lay now_ms entry_size shard =
     (if u64_add (sh_current_size shard) entry_size > sh_capacity shard \<and> sh_data shard \<noteq> [] then
        (case find_victim now_ms shard of
           Some victim_key \<Rightarrow>
             (case map_of (sh_data shard) victim_key of
                Some evicted \<Rightarrow>
                  evict_until lay now_ms entry_size (evict_entry lay now_ms victim_key evicted shard)
              | None \<Rightarrow> shard_remove_from_tracking victim_key shard)
         | None \<Rightarrow> shard)
      else shard)"
  by pat_completeness auto

lemma length_delete_less: "map_of xs k = Some v \<Longrightarrow> length (AList.delete k xs) < length xs"
  by (induction xs) (auto simp: le_imp_less_Suc length_delete_le)

termination evict_until
  by (relation "measure (\<lambda>(_, _, _, shard). length (sh_data shard))") (auto simp: length_delete_less)

declare evict_until.simps [simp del]

definition drain_pending :: "RamCacheShard \<Rightarrow> RamCacheShard" where
  "drain_pending shard =
     fold (\<lambda>key shard. if map_of (sh_data shard) key \<noteq> None
                       then shard_update_access_tracking key shard else shard)
       (sh_pending_accesses shard) (shard \<lparr> sh_pending_accesses := [] \<rparr>)"

definition remove_entry :: "layout \<Rightarrow> string \<Rightarrow> RamCacheShard \<Rightarrow> RamCacheShard" where
  "remove_entry lay key shard =
     (case map_of (sh_data shard) key of
        Some existing \<Rightarrow> drop_entry lay key existing shard
      | None \<Rightarrow> shard)"

definition insert_entry :: "layout \<Rightarrow> RamCacheEntry \<Rightarrow> RamCacheShard \<Rightarrow> RamCacheShard" where
  "insert_entry lay entry shard =
     shard_add_to_tracking (re_cache_key entry)
       (shard \<lparr> sh_current_size := u64_add (sh_current_size shard) (shard_calculate_entry_size lay entry),
                sh_data := AList.update (re_cache_key entry) entry (sh_data shard) \<rparr>)"

definition shard_put :: "layout \<Rightarrow> u64 \<Rightarrow> RamCacheEntry \<Rightarrow> RamCacheShard \<Rightarrow> RamCacheShard" where
  "shard_put lay now_ms entry shard =
     (let shard = drain_pending shard;
          entry_size = shard_calculate_entry_size lay entry
      in if entry_size > sh_capacity shard then shard
         else insert_entry lay entry
                (remove_entry lay (re_cache_key entry) (evict_until lay now_ms entry_size shard)))"

definition shard_invalidate_prefix :: "layout \<Rightarrow> string \<Rightarrow> RamCacheShard \<Rightarrow> nat \<times> RamCacheShard" where
  "shard_invalidate_prefix lay prefix shard =
     (let keys_to_remove = filter (starts_with prefix) (map fst (sh_data shard))
      in (length keys_to_remove, fold (remove_entry lay) keys_to_remove shard))"

section \<open>The sharded cache\<close>

definition shard_for :: "(string \<Rightarrow> string) \<Rightarrow> string \<Rightarrow> ShardedRamCache \<Rightarrow> RamCacheShard" where
  "shard_for blake3 key c = rc_shards c ! shard_index blake3 key (rc_shard_count c)"

definition set_shard ::
    "(string \<Rightarrow> string) \<Rightarrow> string \<Rightarrow> RamCacheShard \<Rightarrow> ShardedRamCache \<Rightarrow> ShardedRamCache" where
  "set_shard blake3 key shard c =
     c \<lparr> rc_shards := (rc_shards c)[shard_index blake3 key (rc_shard_count c) := shard] \<rparr>"

text \<open>\<open>unlocked\<close> says whether \<open>try_write\<close> gets the lock.\<close>

definition touch_entry :: "u64 \<Rightarrow> bool \<Rightarrow> string \<Rightarrow> RamCacheEntry \<Rightarrow> RamCacheShard \<Rightarrow> RamCacheShard" where
  "touch_entry now_ms unlocked key entry shard =
     (let new_count = u64_add (re_access_count entry) 1;
          shard = shard \<lparr> sh_data := AList.update key
                    (entry \<lparr> re_last_accessed := now_ms, re_access_count := new_count \<rparr>)
                    (sh_data shard) \<rparr>
      in if new_count mod 8 = 0 \<and> alg_of shard = LRU \<and> unlocked
         then shard \<lparr> sh_pending_accesses := sh_pending_accesses shard @ [key] \<rparr>
         else shard)"

definition read_of :: "RamCacheEntry \<Rightarrow> RamCacheRead" where
  "read_of entry =
     \<lparr> rd_data = re_data entry, rd_metadata = re_metadata entry, rd_compressed = re_compressed entry,
       rd_compression_algorithm = re_compression_algorithm entry \<rparr>"

definition ram_get ::
    "(string \<Rightarrow> string) \<Rightarrow> u64 \<Rightarrow> bool \<Rightarrow> string \<Rightarrow> ShardedRamCache \<Rightarrow>
     RamCacheRead option \<times> ShardedRamCache" where
  "ram_get blake3 now_ms unlocked key c =
     (let shard = shard_for blake3 key c
      in case map_of (sh_data shard) key of
           None \<Rightarrow> (None, c \<lparr> rc_miss_count := u64_add (rc_miss_count c) 1 \<rparr>)
         | Some entry \<Rightarrow>
             (Some (read_of entry),
              set_shard blake3 key (touch_entry now_ms unlocked key entry shard)
                (c \<lparr> rc_hit_count := u64_add (rc_hit_count c) 1 \<rparr>)))"

definition ram_put ::
    "(string \<Rightarrow> string) \<Rightarrow> layout \<Rightarrow> u64 \<Rightarrow> RamCacheEntry \<Rightarrow> ShardedRamCache \<Rightarrow> ShardedRamCache" where
  "ram_put blake3 lay now_ms entry c =
     set_shard blake3 (re_cache_key entry)
       (shard_put lay now_ms entry (shard_for blake3 (re_cache_key entry) c)) c"

definition ram_invalidate ::
    "(string \<Rightarrow> string) \<Rightarrow> layout \<Rightarrow> string \<Rightarrow> ShardedRamCache \<Rightarrow> ShardedRamCache" where
  "ram_invalidate blake3 lay key c =
     set_shard blake3 key (remove_entry lay key (shard_for blake3 key c)) c"

definition ram_invalidate_by_prefix ::
    "layout \<Rightarrow> string \<Rightarrow> ShardedRamCache \<Rightarrow> usize \<times> ShardedRamCache" where
  "ram_invalidate_by_prefix lay prefix c =
     (let results = map (shard_invalidate_prefix lay prefix) (rc_shards c)
      in (sum_list (map fst results), c \<lparr> rc_shards := map snd results \<rparr>))"


text \<open>\<open>hit_rate\<close> is an exact fraction here.\<close>

record RamCacheStats =
  rst_current_size :: u64
  rst_max_size :: u64
  rst_entries_count :: u64
  rst_hit_count :: u64
  rst_miss_count :: u64
  rst_hit_rate :: rat
  rst_eviction_count :: u64
  rst_last_eviction :: "SystemTime option"
  rst_eviction_algorithm :: CacheEvictionAlgorithm

definition ram_stats :: "bool \<Rightarrow> ShardedRamCache \<Rightarrow> RamCacheStats" where
  "ram_stats unlocked c =
     (let total_requests = u64_add (rc_hit_count c) (rc_miss_count c);
          last_eviction_ms = fold max (map sh_last_eviction_ms (rc_shards c)) 0
      in \<lparr> rst_current_size = fold (\<lambda>n acc. u64_add acc n) (map sh_current_size (rc_shards c)) 0,
           rst_max_size = max_size unlocked c,
           rst_entries_count = fold (\<lambda>n acc. u64_add acc n) (map (length \<circ> sh_data) (rc_shards c)) 0,
           rst_hit_count = rc_hit_count c, rst_miss_count = rc_miss_count c,
           rst_hit_rate = (if total_requests > 0 then of_nat (rc_hit_count c) / of_nat total_requests else 0),
           rst_eviction_count = fold (\<lambda>n acc. u64_add acc n) (map sh_eviction_count (rc_shards c)) 0,
           rst_last_eviction =
             (if last_eviction_ms = 0 then None else Some (int last_eviction_ms * 1000000)),
           rst_eviction_algorithm = (case rc_shards c of [] \<Rightarrow> LRU | sh # _ \<Rightarrow> alg_of sh) \<rparr>)"

section \<open>The invariant of a shard\<close>

definition shard_bytes :: "layout \<Rightarrow> RamCacheShard \<Rightarrow> nat" where
  "shard_bytes lay sh = sum_list (map (shard_calculate_entry_size lay \<circ> snd) (sh_data sh))"

definition shard_ok :: "layout \<Rightarrow> RamCacheShard \<Rightarrow> bool" where
  "shard_ok lay sh \<longleftrightarrow>
     distinct (map fst (sh_data sh)) \<and> (\<forall>(k, e) \<in> set (sh_data sh). re_cache_key e = k) \<and>
     sh_current_size sh = shard_bytes lay sh \<and> sh_current_size sh \<le> sh_capacity sh \<and>
     2 * sh_capacity sh < u64_mod \<and>
     (alg_of sh = LRU \<longrightarrow> distinct (lru_of sh) \<and> set (lru_of sh) = fst ` set (sh_data sh))"

lemma shard_okD:
  assumes "shard_ok lay sh"
  shows "distinct (map fst (sh_data sh))" "sh_current_size sh = shard_bytes lay sh"
    "sh_current_size sh \<le> sh_capacity sh" "2 * sh_capacity sh < u64_mod"
    "alg_of sh = LRU \<Longrightarrow> distinct (lru_of sh)" "alg_of sh = LRU \<Longrightarrow> set (lru_of sh) = fst ` set (sh_data sh)"
    "map_of (sh_data sh) k = Some e \<Longrightarrow> re_cache_key e = k"
  using assms unfolding shard_ok_def by (blast, blast, blast, blast, blast, blast, blast dest: map_of_SomeD)

lemmas tracking_defs = shard_remove_from_tracking_def shard_add_to_tracking_def
  shard_update_access_tracking_def set_order_def

lemma tracking_frame [simp]:
  "sh_current_size (shard_remove_from_tracking key sh) = sh_current_size sh"
  "sh_current_size (shard_add_to_tracking key sh) = sh_current_size sh"
  "sh_current_size (shard_update_access_tracking key sh) = sh_current_size sh"
  "sh_capacity (shard_remove_from_tracking key sh) = sh_capacity sh"
  "sh_capacity (shard_add_to_tracking key sh) = sh_capacity sh"
  "sh_capacity (shard_update_access_tracking key sh) = sh_capacity sh"
  "alg_of (shard_remove_from_tracking key sh) = alg_of sh"
  "alg_of (shard_add_to_tracking key sh) = alg_of sh"
  "alg_of (shard_update_access_tracking key sh) = alg_of sh"
  by (simp_all add: tracking_defs split: CacheEvictionAlgorithm.split)

lemma sum_list_delete:
  assumes "distinct (map fst xs)" "map_of xs k = Some v"
  shows "sum_list (map (f \<circ> snd) xs) = f v + (sum_list (map (f \<circ> snd) (AList.delete k xs)) :: nat)"
  using assms
proof (induction xs)
  case (Cons x xs)
  then show ?case
    by (cases "fst x = k") (auto simp: delete_id map_of_eq_None_iff split: if_splits)
qed simp

lemma drop_entry_frame [simp]:
  "sh_data (drop_entry lay k e sh) = AList.delete k (sh_data sh)"
  "sh_current_size (drop_entry lay k e sh) = sh_current_size sh - shard_calculate_entry_size lay e"
  "sh_capacity (drop_entry lay k e sh) = sh_capacity sh"
  "alg_of (drop_entry lay k e sh) = alg_of sh"
  "alg_of sh = LRU \<Longrightarrow> lru_of (drop_entry lay k e sh) = remove1 k (lru_of sh)"
  by (simp_all add: drop_entry_def) (simp add: tracking_defs)

lemma drop_entry_ok:
  assumes "shard_ok lay sh" "map_of (sh_data sh) k = Some e"
  shows "shard_ok lay (drop_entry lay k e sh)"
    and "sh_current_size sh = shard_calculate_entry_size lay e + sh_current_size (drop_entry lay k e sh)"
proof -
  note d = shard_okD [OF assms(1)]
  have bytes: "shard_bytes lay sh = shard_calculate_entry_size lay e + shard_bytes lay (drop_entry lay k e sh)"
    unfolding shard_bytes_def drop_entry_frame by (rule sum_list_delete [OF d(1) assms(2)])
  have keys: "\<forall>(k, e) \<in> set (sh_data (drop_entry lay k e sh)). re_cache_key e = k"
    using assms(1) by (auto simp: shard_ok_def AList.delete_eq)
  have dom: "fst ` set (AList.delete k (sh_data sh)) = fst ` set (sh_data sh) - {k}"
    by (auto simp: AList.delete_eq)
  have "distinct (map fst (AList.delete k (sh_data sh)))" using d(1) by (rule distinct_delete)
  moreover have "distinct (remove1 k (lru_of sh)) \<and> set (remove1 k (lru_of sh)) = fst ` set (sh_data sh) - {k}"
    if "alg_of sh = LRU"
    using d(5,6) [OF that] by simp
  ultimately show "shard_ok lay (drop_entry lay k e sh)"
    using d(2,3,4) bytes keys dom unfolding shard_ok_def by simp
  show "sh_current_size sh = shard_calculate_entry_size lay e + sh_current_size (drop_entry lay k e sh)"
    using d(2) bytes by simp
qed

lemma evict_entry_ok:
  assumes "shard_ok lay sh" "map_of (sh_data sh) k = Some e"
  shows "shard_ok lay (evict_entry lay now k e sh)"
  using drop_entry_ok(1) [OF assms] by (simp add: evict_entry_def shard_ok_def shard_bytes_def)

lemma min_by_key_mem: "xs \<noteq> [] \<Longrightarrow> \<exists>x \<in> set xs. min_by_key f xs = Some x"
proof (induction xs)
  case (Cons a xs)
  then show ?case by (cases xs) (auto split: option.split)
qed simp

lemma find_victim_present:
  assumes "shard_ok lay sh" "sh_data sh \<noteq> []"
  obtains k e where "find_victim now sh = Some k" "map_of (sh_data sh) k = Some e"
proof (cases "alg_of sh")
  case LRU
  with shard_okD(6) [OF assms(1)] assms(2) obtain k ks where ks: "lru_of sh = k # ks" "k \<in> fst ` set (sh_data sh)"
    by (cases "lru_of sh") auto
  then obtain e where "map_of (sh_data sh) k = Some e" by (metis map_of_eq_None_iff option.exhaust)
  with that ks LRU show thesis by (simp add: find_victim_def shard_find_lru_victim_def)
next
  case TinyLFU
  obtain x where x: "x \<in> set (sh_data sh)"
    "min_by_key (\<lambda>(_, entry). victim_score now entry) (sh_data sh) = Some x"
    using min_by_key_mem [OF assms(2)] by blast
  then have "map_of (sh_data sh) (fst x) = Some (snd x)" using shard_okD(1) [OF assms(1)] by simp
  with that x TinyLFU show thesis by (simp add: find_victim_def shard_find_tinylfu_victim_def)
qed

lemma evict_until_ok:
  assumes "shard_ok lay sh" "n \<le> sh_capacity sh"
  shows "shard_ok lay (evict_until lay now n sh) \<and>
    sh_capacity (evict_until lay now n sh) = sh_capacity sh \<and>
    alg_of (evict_until lay now n sh) = alg_of sh \<and>
    sh_current_size (evict_until lay now n sh) + n \<le> sh_capacity sh \<and>
    map_of (sh_data (evict_until lay now n sh)) \<subseteq>\<^sub>m map_of (sh_data sh)"
  using assms
proof (induction lay now n sh rule: evict_until.induct)
  case (1 lay now n sh)
  note d = shard_okD [OF 1(2)]
  have add: "u64_add (sh_current_size sh) n = sh_current_size sh + n"
    using d(3,4) 1(3) by (simp add: u64_add_exact)
  show ?case
  proof (cases "sh_current_size sh + n > sh_capacity sh \<and> sh_data sh \<noteq> []")
    case True
    then obtain k e where v: "find_victim now sh = Some k" "map_of (sh_data sh) k = Some e"
      using find_victim_present [OF 1(2)] by metis
    let ?sh = "evict_entry lay now k e sh"
    have cap: "sh_capacity ?sh = sh_capacity sh" "alg_of ?sh = alg_of sh" by (simp_all add: evict_entry_def)
    have "map_of (sh_data ?sh) \<subseteq>\<^sub>m map_of (sh_data sh)"
      by (simp add: delete_conv' map_le_def)
    moreover have "evict_until lay now n sh = evict_until lay now n ?sh"
      using True by (subst evict_until.simps) (simp add: add v)
    moreover have guard: "sh_capacity sh < u64_add (sh_current_size sh) n \<and> sh_data sh \<noteq> []"
      using True add by simp
    ultimately show ?thesis
      using 1(1) [OF guard v evict_entry_ok [OF 1(2) v(2)]] cap 1(3) map_le_trans by metis
  next
    case False
    have "sh_data sh = [] \<Longrightarrow> sh_current_size sh = 0" using d(2) by (simp add: shard_bytes_def)
    moreover have "evict_until lay now n sh = sh"
      using False by (subst evict_until.simps) (auto simp: add)
    ultimately show ?thesis using False 1(2,3) by auto
  qed
qed

section \<open>Operations on a shard\<close>

lemma access_tracking_ok:
  assumes "shard_ok lay sh" "map_of (sh_data sh) k \<noteq> None"
  shows "shard_ok lay (shard_update_access_tracking k sh)"
proof -
  have "k \<in> fst ` set (sh_data sh)" using assms(2) by (simp add: map_of_eq_None_iff)
  moreover have "lru_of (shard_update_access_tracking k sh) = remove1 k (lru_of sh) @ [k]" if "alg_of sh = LRU"
    using that by (simp add: tracking_defs)
  ultimately show ?thesis using assms(1) unfolding shard_ok_def shard_bytes_def by auto
qed

lemma drain_fold:
  assumes "shard_ok lay sh"
  shows "shard_ok lay (fold (\<lambda>k sh. if map_of (sh_data sh) k \<noteq> None
             then shard_update_access_tracking k sh else sh) ks sh) \<and>
     sh_data (fold (\<lambda>k sh. if map_of (sh_data sh) k \<noteq> None
             then shard_update_access_tracking k sh else sh) ks sh) = sh_data sh \<and>
     sh_capacity (fold (\<lambda>k sh. if map_of (sh_data sh) k \<noteq> None
             then shard_update_access_tracking k sh else sh) ks sh) = sh_capacity sh \<and>
     alg_of (fold (\<lambda>k sh. if map_of (sh_data sh) k \<noteq> None
             then shard_update_access_tracking k sh else sh) ks sh) = alg_of sh"
  using assms by (induction ks arbitrary: sh) (auto simp: access_tracking_ok)

lemma shard_ok_pending [simp]: "shard_ok lay (sh \<lparr> sh_pending_accesses := ks \<rparr>) = shard_ok lay sh"
  by (simp add: shard_ok_def shard_bytes_def)

lemma drain_ok:
  assumes "shard_ok lay sh"
  shows "shard_ok lay (drain_pending sh)" "sh_data (drain_pending sh) = sh_data sh"
    "sh_capacity (drain_pending sh) = sh_capacity sh" "alg_of (drain_pending sh) = alg_of sh"
  using drain_fold [of lay "sh \<lparr> sh_pending_accesses := [] \<rparr>" "sh_pending_accesses sh"] assms
  by (simp_all add: drain_pending_def)

lemma remove_entry_ok:
  assumes "shard_ok lay sh"
  shows "shard_ok lay (remove_entry lay k sh)" "sh_capacity (remove_entry lay k sh) = sh_capacity sh"
    "alg_of (remove_entry lay k sh) = alg_of sh"
    "map_of (sh_data (remove_entry lay k sh)) = (map_of (sh_data sh))(k := None)"
    "sh_current_size (remove_entry lay k sh) \<le> sh_current_size sh"
  using drop_entry_ok [OF assms, of k] assms
  by (auto simp: remove_entry_def delete_conv' map_upd_triv split: option.split)

lemma update_new: "k \<notin> fst ` set xs \<Longrightarrow> AList.update k v xs = xs @ [(k, v)]"
  by (induction xs) auto

lemma update_same_measure:
  "map_of xs k = Some e \<Longrightarrow> f v = f e \<Longrightarrow> map (f \<circ> snd) (AList.update k v xs) = map (f \<circ> snd) xs"
  by (induction xs) (auto split: if_splits)

lemma update_same_keys: "map_of xs k = Some e \<Longrightarrow> map fst (AList.update k v xs) = map fst xs"
  by (induction xs) (auto split: if_splits)

lemma set_update_subset: "set (AList.update k v xs) \<subseteq> insert (k, v) (set xs)"
  by (induction xs) auto

lemma insert_entry_ok:
  assumes "shard_ok lay sh" "map_of (sh_data sh) (re_cache_key e) = None"
    and "sh_current_size sh + shard_calculate_entry_size lay e \<le> sh_capacity sh"
  shows "shard_ok lay (insert_entry lay e sh)" "sh_capacity (insert_entry lay e sh) = sh_capacity sh"
    "map_of (sh_data (insert_entry lay e sh)) = (map_of (sh_data sh))(re_cache_key e \<mapsto> e)"
proof -
  note d = shard_okD [OF assms(1)]
  have new: "re_cache_key e \<notin> fst ` set (sh_data sh)" using assms(2) by (simp add: map_of_eq_None_iff)
  then have data: "AList.update (re_cache_key e) e (sh_data sh) = sh_data sh @ [(re_cache_key e, e)]"
    by (rule update_new)
  have add: "u64_add (sh_current_size sh) (shard_calculate_entry_size lay e) =
      sh_current_size sh + shard_calculate_entry_size lay e"
    using assms(3) d(4) by (simp add: u64_add_exact)
  have order: "lru_of (insert_entry lay e sh) = lru_of sh @ [re_cache_key e]" if "alg_of sh = LRU"
    using that by (simp add: insert_entry_def tracking_defs)
  show "sh_capacity (insert_entry lay e sh) = sh_capacity sh"
    "map_of (sh_data (insert_entry lay e sh)) = (map_of (sh_data sh))(re_cache_key e \<mapsto> e)"
    by (simp_all add: insert_entry_def update_conv')
  have "shard_bytes lay (insert_entry lay e sh) = shard_bytes lay sh + shard_calculate_entry_size lay e"
    "sh_data (insert_entry lay e sh) = sh_data sh @ [(re_cache_key e, e)]"
    "alg_of (insert_entry lay e sh) = alg_of sh"
    "sh_current_size (insert_entry lay e sh) = sh_current_size sh + shard_calculate_entry_size lay e"
    by (simp_all add: insert_entry_def shard_bytes_def data add)
  with d assms(3) order new \<open>sh_capacity (insert_entry lay e sh) = sh_capacity sh\<close> assms(1)
  show "shard_ok lay (insert_entry lay e sh)"
    unfolding shard_ok_def by auto
qed

lemma shard_put_ok:
  assumes "shard_ok lay sh"
  shows "shard_ok lay (shard_put lay now e sh)" "sh_capacity (shard_put lay now e sh) = sh_capacity sh"
    "shard_calculate_entry_size lay e \<le> sh_capacity sh \<Longrightarrow>
       map_of (sh_data (shard_put lay now e sh)) (re_cache_key e) = Some e"
    "shard_calculate_entry_size lay e > sh_capacity sh \<Longrightarrow> sh_data (shard_put lay now e sh) = sh_data sh"
    "map_of (sh_data (shard_put lay now e sh)) \<subseteq>\<^sub>m (map_of (sh_data sh))(re_cache_key e \<mapsto> e) \<or>
       sh_data (shard_put lay now e sh) = sh_data sh"
proof -
  note dr = drain_ok [OF assms]
  let ?n = "shard_calculate_entry_size lay e" and ?k = "re_cache_key e"
  let ?ev = "evict_until lay now ?n (drain_pending sh)"
  let ?rm = "remove_entry lay ?k ?ev"
  have fits: "shard_ok lay (shard_put lay now e sh) \<and> sh_capacity (shard_put lay now e sh) = sh_capacity sh \<and>
      map_of (sh_data (shard_put lay now e sh)) ?k = Some e \<and>
      map_of (sh_data (shard_put lay now e sh)) \<subseteq>\<^sub>m (map_of (sh_data sh))(?k \<mapsto> e)"
    if n: "?n \<le> sh_capacity sh"
  proof -
    have put: "shard_put lay now e sh = insert_entry lay e ?rm"
      using n dr(3) by (simp add: shard_put_def Let_def)
    have ev: "shard_ok lay ?ev" "sh_capacity ?ev = sh_capacity sh" "sh_current_size ?ev + ?n \<le> sh_capacity sh"
      "map_of (sh_data ?ev) \<subseteq>\<^sub>m map_of (sh_data sh)"
      using evict_until_ok [OF dr(1), of ?n now] n dr(2,3) by simp_all
    note rm = remove_entry_ok [OF ev(1), of ?k]
    have "map_of (sh_data ?rm) ?k = None" "sh_current_size ?rm + ?n \<le> sh_capacity ?rm"
      using rm(2,4,5) ev(2,3) by simp_all
    note ins = insert_entry_ok [OF rm(1) this]
    have "(map_of (sh_data ?ev))(?k := None, ?k \<mapsto> e) \<subseteq>\<^sub>m (map_of (sh_data sh))(?k \<mapsto> e)"
      using ev(4) by (auto simp: map_le_def dom_def split: if_splits)
    then show ?thesis using ins rm ev(2) put by simp
  qed
  have drops: "shard_put lay now e sh = drain_pending sh" if "\<not> ?n \<le> sh_capacity sh"
    using that dr(3) by (simp add: shard_put_def Let_def)
  show "shard_ok lay (shard_put lay now e sh)" "sh_capacity (shard_put lay now e sh) = sh_capacity sh"
    "?n \<le> sh_capacity sh \<Longrightarrow> map_of (sh_data (shard_put lay now e sh)) ?k = Some e"
    "?n > sh_capacity sh \<Longrightarrow> sh_data (shard_put lay now e sh) = sh_data sh"
    "map_of (sh_data (shard_put lay now e sh)) \<subseteq>\<^sub>m (map_of (sh_data sh))(?k \<mapsto> e) \<or>
       sh_data (shard_put lay now e sh) = sh_data sh"
    using fits drops dr by (cases "?n \<le> sh_capacity sh"; simp)+
qed

lemma touch_entry_ok:
  assumes "shard_ok lay sh" "map_of (sh_data sh) k = Some e"
  shows "shard_ok lay (touch_entry now u k e sh)" "sh_capacity (touch_entry now u k e sh) = sh_capacity sh"
    "map_of (sh_data (touch_entry now u k e sh)) = (map_of (sh_data sh))
       (k \<mapsto> e \<lparr> re_last_accessed := now, re_access_count := u64_add (re_access_count e) 1 \<rparr>)"
proof -
  let ?e = "e \<lparr> re_last_accessed := now, re_access_count := u64_add (re_access_count e) 1 \<rparr>"
  note d = shard_okD [OF assms(1)]
  have data: "sh_data (touch_entry now u k e sh) = AList.update k ?e (sh_data sh)"
    and frame: "sh_capacity (touch_entry now u k e sh) = sh_capacity sh"
      "sh_current_size (touch_entry now u k e sh) = sh_current_size sh"
      "sh_eviction (touch_entry now u k e sh) = sh_eviction sh"
    by (simp_all add: touch_entry_def Let_def)
  have keys: "map fst (AList.update k ?e (sh_data sh)) = map fst (sh_data sh)"
    using assms(2) by (rule update_same_keys)
  have sizes: "map (shard_calculate_entry_size lay \<circ> snd) (AList.update k ?e (sh_data sh)) =
      map (shard_calculate_entry_size lay \<circ> snd) (sh_data sh)"
    by (rule update_same_measure [OF assms(2)]) (simp add: shard_calculate_entry_size_def)
  show "sh_capacity (touch_entry now u k e sh) = sh_capacity sh" by (rule frame)
  show "map_of (sh_data (touch_entry now u k e sh)) = (map_of (sh_data sh))(k \<mapsto> ?e)"
    by (simp add: data update_conv')
  have "\<forall>(k', e') \<in> set (AList.update k ?e (sh_data sh)). re_cache_key e' = k'"
    using assms(1) d(7) [OF assms(2)] set_update_subset [of k ?e "sh_data sh"]
    unfolding shard_ok_def by fastforce
  then show "shard_ok lay (touch_entry now u k e sh)"
    using assms(1) keys sizes unfolding shard_ok_def shard_bytes_def data frame
    by (metis image_set)
qed

section \<open>The cache as a map\<close>

definition ram_lookup :: "(string \<Rightarrow> string) \<Rightarrow> ShardedRamCache \<Rightarrow> string \<Rightarrow> RamCacheEntry option" where
  "ram_lookup blake3 c key = map_of (sh_data (shard_for blake3 key c)) key"

definition ram_view :: "(string \<Rightarrow> string) \<Rightarrow> ShardedRamCache \<Rightarrow> string \<Rightarrow> RamCacheRead option" where
  "ram_view blake3 c key = map_option read_of (ram_lookup blake3 c key)"

text \<open>Every shard is consistent and holds only keys that are routed to it.\<close>

definition routed :: "(string \<Rightarrow> string) \<Rightarrow> usize \<Rightarrow> usize \<Rightarrow> RamCacheShard \<Rightarrow> bool" where
  "routed blake3 n i sh \<longleftrightarrow> (\<forall>k \<in> fst ` set (sh_data sh). shard_index blake3 k n = i)"

definition ram_ok :: "(string \<Rightarrow> string) \<Rightarrow> layout \<Rightarrow> ShardedRamCache \<Rightarrow> bool" where
  "ram_ok blake3 lay c \<longleftrightarrow>
     length (rc_shards c) = rc_shard_count c \<and> 0 < rc_shard_count c \<and>
     (\<forall>i < rc_shard_count c. shard_ok lay (rc_shards c ! i) \<and>
        routed blake3 (rc_shard_count c) i (rc_shards c ! i))"

lemma ram_okD:
  assumes "ram_ok blake3 lay c"
  shows "length (rc_shards c) = rc_shard_count c" "shard_index blake3 k (rc_shard_count c) < rc_shard_count c"
    "shard_ok lay (shard_for blake3 k c)"
    "k' \<in> fst ` set (sh_data (shard_for blake3 k c)) \<Longrightarrow>
       shard_index blake3 k' (rc_shard_count c) = shard_index blake3 k (rc_shard_count c)"
proof -
  show "length (rc_shards c) = rc_shard_count c" using assms by (simp add: ram_ok_def)
  show i: "shard_index blake3 k (rc_shard_count c) < rc_shard_count c"
    using assms by (simp add: ram_ok_def shard_index_def)
  show "shard_ok lay (shard_for blake3 k c)"
    using assms i by (simp add: ram_ok_def shard_for_def)
  show "shard_index blake3 k' (rc_shard_count c) = shard_index blake3 k (rc_shard_count c)"
    if "k' \<in> fst ` set (sh_data (shard_for blake3 k c))"
    using assms i that unfolding ram_ok_def shard_for_def routed_def by blast
qed

lemma set_shard_frame [simp]:
  "rc_shard_count (set_shard blake3 k sh c) = rc_shard_count c"
  "length (rc_shards (set_shard blake3 k sh c)) = length (rc_shards c)"
  by (simp_all add: set_shard_def)

lemma set_shard_ok:
  assumes "ram_ok blake3 lay c" "shard_ok lay sh"
    and "fst ` set (sh_data sh) \<subseteq> insert k (fst ` set (sh_data (shard_for blake3 k c)))"
  shows "ram_ok blake3 lay (set_shard blake3 k sh c)"
proof -
  let ?n = "rc_shard_count c" and ?i = "shard_index blake3 k (rc_shard_count c)"
  have "routed blake3 ?n ?i sh"
    using assms(3) ram_okD(4) [OF assms(1), of _ k] unfolding routed_def by blast
  then have "shard_ok lay ((rc_shards c)[?i := sh] ! i) \<and> routed blake3 ?n i ((rc_shards c)[?i := sh] ! i)"
    if "i < ?n" for i
    using assms(1,2) that by (cases "i = ?i") (simp_all add: ram_ok_def)
  then show ?thesis using assms(1) by (simp add: ram_ok_def set_shard_def)
qed

lemma lookup_set_shard:
  assumes "ram_ok blake3 lay c"
  shows "ram_lookup blake3 (set_shard blake3 k sh c) k' =
     (if shard_index blake3 k' (rc_shard_count c) = shard_index blake3 k (rc_shard_count c)
      then map_of (sh_data sh) k' else ram_lookup blake3 c k')"
  using ram_okD(1) [OF assms] ram_okD(2) [OF assms, of k]
  by (auto simp: ram_lookup_def shard_for_def set_shard_def)

lemma same_shard:
  "shard_index blake3 k' (rc_shard_count c) = shard_index blake3 k (rc_shard_count c) \<Longrightarrow>
     shard_for blake3 k' c = shard_for blake3 k c"
  by (simp add: shard_for_def)

lemma fst_set_eqI: "map_of xs \<subseteq>\<^sub>m m \<Longrightarrow> fst ` set xs \<subseteq> dom m"
  by (metis dom_map_of_conv_image_fst map_le_implies_dom_le)

lemma ram_put_ok:
  assumes "ram_ok blake3 lay c"
  shows "ram_ok blake3 lay (ram_put blake3 lay now e c)"
proof -
  let ?sh = "shard_for blake3 (re_cache_key e) c"
  note p = shard_put_ok [OF ram_okD(3) [OF assms, of "re_cache_key e"], where now = now and e = e]
  have "fst ` set (sh_data (shard_put lay now e ?sh)) \<subseteq> insert (re_cache_key e) (fst ` set (sh_data ?sh))"
    using p(5)
  proof
    assume "map_of (sh_data (shard_put lay now e ?sh)) \<subseteq>\<^sub>m (map_of (sh_data ?sh))(re_cache_key e \<mapsto> e)"
    from fst_set_eqI [OF this] show ?thesis by (simp add: dom_map_of_conv_image_fst)
  qed auto
  then show ?thesis unfolding ram_put_def by (rule set_shard_ok [OF assms p(1)])
qed

lemma ram_put_lookup:
  assumes "ram_ok blake3 lay c" "ram_lookup blake3 (ram_put blake3 lay now e c) k = Some e'"
  shows "ram_lookup blake3 c k = Some e' \<or> k = re_cache_key e \<and> e' = e"
proof (cases "shard_index blake3 k (rc_shard_count c) = shard_index blake3 (re_cache_key e) (rc_shard_count c)")
  case True
  let ?sh = "shard_for blake3 (re_cache_key e) c"
  have "map_of (sh_data (shard_put lay now e ?sh)) k = Some e'"
    using assms(2) True by (simp add: ram_put_def lookup_set_shard [OF assms(1)])
  then have "((map_of (sh_data ?sh))(re_cache_key e \<mapsto> e)) k = Some e' \<or> map_of (sh_data ?sh) k = Some e'"
    using shard_put_ok(5) [OF ram_okD(3) [OF assms(1), of "re_cache_key e"], where now = now and e = e]
    by (metis domI map_le_def)
  then show ?thesis
    using same_shard [OF True] by (auto simp: ram_lookup_def split: if_splits)
next
  case False
  then show ?thesis using assms(2) by (simp add: ram_put_def lookup_set_shard [OF assms(1)])
qed

lemma ram_get_frame:
  assumes "ram_ok blake3 lay c" "ram_get blake3 now u k c = (res, c')"
  shows "ram_ok blake3 lay c'" "res = ram_view blake3 c k" "ram_view blake3 c' = ram_view blake3 c"
proof -
  let ?sh = "shard_for blake3 k c"
  have "ram_ok blake3 lay c' \<and> res = ram_view blake3 c k \<and> ram_view blake3 c' = ram_view blake3 c"
  proof (cases "map_of (sh_data ?sh) k")
    case None
    with assms show ?thesis
      by (auto simp: ram_get_def Let_def ram_view_def ram_lookup_def shard_for_def ram_ok_def)
  next
    case (Some e)
    let ?c = "c \<lparr> rc_hit_count := u64_add (rc_hit_count c) 1 \<rparr>"
    let ?t = "touch_entry now u k e ?sh"
    have c': "c' = set_shard blake3 k ?t ?c" "res = Some (read_of e)"
      using assms(2) Some by (auto simp: ram_get_def Let_def)
    have ok: "ram_ok blake3 lay ?c" and sh: "shard_for blake3 k ?c = ?sh"
      using assms(1) by (simp_all add: ram_ok_def shard_for_def)
    note t = touch_entry_ok [OF ram_okD(3) [OF assms(1)] Some, of now u]
    have "fst ` set (sh_data ?t) \<subseteq> insert k (fst ` set (sh_data ?sh))"
      using fst_set_eqI [of "sh_data ?t" "map_of (sh_data ?t)"] unfolding t(3)
      by (simp add: dom_map_of_conv_image_fst)
    then have "ram_ok blake3 lay c'" using set_shard_ok [OF ok t(1), of k] c'(1) sh by simp
    moreover have "ram_view blake3 c' k' = ram_view blake3 c k'" for k'
    proof (cases "shard_index blake3 k' (rc_shard_count c) = shard_index blake3 k (rc_shard_count c)")
      case True
      then have "ram_lookup blake3 c' k' = map_of (sh_data ?t) k'" "ram_lookup blake3 c k' = map_of (sh_data ?sh) k'"
        using lookup_set_shard [OF ok, of k ?t k'] same_shard [OF True] by (simp_all add: c'(1) ram_lookup_def)
      then show ?thesis using Some by (simp add: ram_view_def t(3) read_of_def)
    next
      case False
      then have "ram_lookup blake3 c' k' = ram_lookup blake3 ?c k'"
        using lookup_set_shard [OF ok, of k ?t k'] by (simp add: c'(1))
      then show ?thesis by (simp add: ram_view_def ram_lookup_def shard_for_def)
    qed
    ultimately show ?thesis using c'(2) Some by (auto simp: ram_view_def ram_lookup_def)
  qed
  then show "ram_ok blake3 lay c'" "res = ram_view blake3 c k" "ram_view blake3 c' = ram_view blake3 c" by auto
qed

text \<open>
  What the readers of the RAM tier rely on: a lookup returns what the cache holds and changes
  nothing that a reader sees, and a store adds at most the entry stored. Entries may vanish at
  any store.
\<close>

locale lossy_cache =
  fixes inv :: "'s \<Rightarrow> bool"
    and view :: "'s \<Rightarrow> string \<Rightarrow> RamCacheRead option"
    and get :: "string \<Rightarrow> 's \<Rightarrow> RamCacheRead option \<times> 's"
    and put :: "RamCacheEntry \<Rightarrow> 's \<Rightarrow> 's"
  assumes get_inv: "inv s \<Longrightarrow> get k s = (res, s') \<Longrightarrow> inv s'"
    and get_result: "inv s \<Longrightarrow> get k s = (res, s') \<Longrightarrow> res = view s k"
    and get_view: "inv s \<Longrightarrow> get k s = (res, s') \<Longrightarrow> view s' = view s"
    and put_inv: "inv s \<Longrightarrow> inv (put e s)"
    and put_view: "inv s \<Longrightarrow> view (put e s) k = Some v \<Longrightarrow>
        view s k = Some v \<or> k = re_cache_key e \<and> v = read_of e"
begin

lemma get_good:
  assumes "inv s" "\<forall>k v. view s k = Some v \<longrightarrow> good k v" "get k s = (res, s')"
  shows "inv s'" "\<forall>k v. view s' k = Some v \<longrightarrow> good k v" "res = Some v \<Longrightarrow> good k v"
  using get_inv [OF assms(1,3)] get_result [OF assms(1,3)] get_view [OF assms(1,3)] assms(2) by auto

lemma put_good:
  assumes "inv s" "\<forall>k v. view s k = Some v \<longrightarrow> good k v" "good (re_cache_key e) (read_of e)"
  shows "inv (put e s)" "\<forall>k v. view (put e s) k = Some v \<longrightarrow> good k v"
  using put_inv [OF assms(1)] put_view [OF assms(1)] assms(2,3) by blast+

end

interpretation ram: lossy_cache "ram_ok blake3 lay" "ram_view blake3" "ram_get blake3 now u" "ram_put blake3 lay now'"
  for blake3 lay now u now'
proof
  fix c k v and e :: RamCacheEntry
  assume "ram_ok blake3 lay c" "ram_view blake3 (ram_put blake3 lay now' e c) k = Some v"
  then show "ram_view blake3 c k = Some v \<or> k = re_cache_key e \<and> v = read_of e"
    using ram_put_lookup by (fastforce simp: ram_view_def)
qed (rule ram_get_frame, assumption+, rule ram_get_frame, assumption+, rule ram_get_frame, assumption+,
    rule ram_put_ok)

section \<open>Invalidation\<close>

lemma remove_entries_ok:
  assumes "shard_ok lay sh"
  shows "shard_ok lay (fold (remove_entry lay) ks sh) \<and>
    sh_capacity (fold (remove_entry lay) ks sh) = sh_capacity sh \<and>
    map_of (sh_data (fold (remove_entry lay) ks sh)) = map_of (sh_data sh) |` (- set ks)"
  using assms
proof (induction ks arbitrary: sh)
  case (Cons k ks)
  note r = remove_entry_ok [OF Cons.prems, of k]
  from Cons.IH [OF r(1)] r(2,4) show ?case
    by (auto simp: restrict_map_def fun_eq_iff)
qed (simp add: restrict_map_def)

lemma ram_invalidate_ok:
  assumes "ram_ok blake3 lay c"
  shows "ram_ok blake3 lay (ram_invalidate blake3 lay k c)"
    and "ram_lookup blake3 (ram_invalidate blake3 lay k c) = (ram_lookup blake3 c)(k := None)"
proof -
  note r = remove_entry_ok [OF ram_okD(3) [OF assms, of k], of k]
  have "fst ` set (sh_data (remove_entry lay k (shard_for blake3 k c))) \<subseteq>
      insert k (fst ` set (sh_data (shard_for blake3 k c)))"
    using fst_set_eqI [of _ "map_of (sh_data (remove_entry lay k (shard_for blake3 k c)))", OF map_le_refl]
    unfolding r(4) by (auto simp: dom_map_of_conv_image_fst)
  then show "ram_ok blake3 lay (ram_invalidate blake3 lay k c)"
    unfolding ram_invalidate_def by (rule set_shard_ok [OF assms r(1)])
  show "ram_lookup blake3 (ram_invalidate blake3 lay k c) = (ram_lookup blake3 c)(k := None)"
  proof
    fix k'
    show "ram_lookup blake3 (ram_invalidate blake3 lay k c) k' = ((ram_lookup blake3 c)(k := None)) k'"
    proof (cases "shard_index blake3 k' (rc_shard_count c) = shard_index blake3 k (rc_shard_count c)")
      case True
      have "ram_lookup blake3 c k' = map_of (sh_data (shard_for blake3 k c)) k'"
        using same_shard [OF True] by (simp add: ram_lookup_def)
      with True show ?thesis by (simp add: ram_invalidate_def lookup_set_shard [OF assms] r(4))
    next
      case False
      then have "k' \<noteq> k" by blast
      with False show ?thesis by (simp add: ram_invalidate_def lookup_set_shard [OF assms])
    qed
  qed
qed

lemma shard_invalidate_prefix_ok:
  assumes "shard_ok lay sh"
  shows "shard_ok lay (snd (shard_invalidate_prefix lay prefix sh))"
    "sh_capacity (snd (shard_invalidate_prefix lay prefix sh)) = sh_capacity sh"
    "map_of (sh_data (snd (shard_invalidate_prefix lay prefix sh))) =
       map_of (sh_data sh) |` {k. \<not> starts_with prefix k}"
  using remove_entries_ok [OF assms, of "filter (starts_with prefix) (map fst (sh_data sh))"]
  by (auto simp: shard_invalidate_prefix_def Let_def restrict_map_def fun_eq_iff)
    (metis image_eqI map_of_SomeD fst_conv not_None_eq)

lemma ram_invalidate_by_prefix_ok:
  assumes "ram_ok blake3 lay c"
  shows "ram_ok blake3 lay (snd (ram_invalidate_by_prefix lay prefix c))"
    and "ram_lookup blake3 (snd (ram_invalidate_by_prefix lay prefix c)) =
      ram_lookup blake3 c |` {k. \<not> starts_with prefix k}"
proof -
  let ?c = "snd (ram_invalidate_by_prefix lay prefix c)"
  have sh: "rc_shards ?c ! i = snd (shard_invalidate_prefix lay prefix (rc_shards c ! i))"
    if "i < rc_shard_count c" for i
    using that assms by (simp add: ram_invalidate_by_prefix_def Let_def ram_ok_def)
  have n: "rc_shard_count ?c = rc_shard_count c" "length (rc_shards ?c) = length (rc_shards c)"
    by (simp_all add: ram_invalidate_by_prefix_def Let_def)
  have "routed blake3 (rc_shard_count c) i (rc_shards ?c ! i)" if i: "i < rc_shard_count c" for i
  proof -
    have ok: "shard_ok lay (rc_shards c ! i)" "routed blake3 (rc_shard_count c) i (rc_shards c ! i)"
      using assms i by (simp_all add: ram_ok_def)
    have "map_of (sh_data (rc_shards ?c ! i)) \<subseteq>\<^sub>m map_of (sh_data (rc_shards c ! i))"
      unfolding sh [OF i] shard_invalidate_prefix_ok(3) [OF ok(1)] by (auto simp: map_le_def)
    from fst_set_eqI [OF this] ok(2) show ?thesis
      unfolding routed_def dom_map_of_conv_image_fst by blast
  qed
  then show "ram_ok blake3 lay ?c"
    using assms shard_invalidate_prefix_ok(1) sh n unfolding ram_ok_def by simp
  show "ram_lookup blake3 ?c = ram_lookup blake3 c |` {k. \<not> starts_with prefix k}"
  proof
    fix k
    have i: "shard_index blake3 k (rc_shard_count c) < rc_shard_count c" by (rule ram_okD(2) [OF assms])
    have "ram_lookup blake3 ?c k =
        map_of (sh_data (snd (shard_invalidate_prefix lay prefix (shard_for blake3 k c)))) k"
      by (simp add: ram_lookup_def shard_for_def n sh [OF i])
    also have "\<dots> = (map_of (sh_data (shard_for blake3 k c)) |` {k. \<not> starts_with prefix k}) k"
      by (simp only: shard_invalidate_prefix_ok(3) [OF ram_okD(3) [OF assms]])
    finally show "ram_lookup blake3 ?c k = (ram_lookup blake3 c |` {k. \<not> starts_with prefix k}) k"
      by (simp add: ram_lookup_def restrict_map_def)
  qed
qed

section \<open>All operations together\<close>

inductive ram_step :: "(string \<Rightarrow> string) \<Rightarrow> layout \<Rightarrow> ShardedRamCache \<Rightarrow> ShardedRamCache \<Rightarrow> bool"
  for blake3 lay where
  step_get: "ram_step blake3 lay c (snd (ram_get blake3 now u k c))"
| step_put: "ram_step blake3 lay c (ram_put blake3 lay now e c)"
| step_invalidate: "ram_step blake3 lay c (ram_invalidate blake3 lay k c)"
| step_prefix: "ram_step blake3 lay c (snd (ram_invalidate_by_prefix lay prefix c))"

definition ram_init :: "usize \<Rightarrow> usize \<Rightarrow> CacheEvictionAlgorithm \<Rightarrow> ShardedRamCache \<Rightarrow> bool" where
  "ram_init total_capacity shard_count algorithm c \<longleftrightarrow>
     c = ram_new total_capacity shard_count algorithm \<and> 0 < total_capacity \<and> 2 * total_capacity < u64_mod"

definition ram_inv :: "(string \<Rightarrow> string) \<Rightarrow> layout \<Rightarrow> usize \<Rightarrow> usize \<Rightarrow> ShardedRamCache \<Rightarrow> bool" where
  "ram_inv blake3 lay tot n c \<longleftrightarrow>
     ram_ok blake3 lay c \<and> rc_shard_count c = effective_shards tot n \<and>
     (\<forall>sh \<in> set (rc_shards c). sh_capacity sh = tot div effective_shards tot n)"

lemma effective_shards_bounds:
  assumes "0 < tot"
  shows "0 < effective_shards tot n" "effective_shards tot n \<le> tot"
    "RAM_CACHE_ADMISSION_CEILING \<le> tot \<Longrightarrow> RAM_CACHE_ADMISSION_CEILING \<le> tot div effective_shards tot n"
proof -
  let ?C = RAM_CACHE_ADMISSION_CEILING
  have C: "0 < ?C" by (simp add: RAM_CACHE_ADMISSION_CEILING_def)
  show pos: "0 < effective_shards tot n" by (simp add: effective_shards_def max_def)
  have le: "effective_shards tot n \<le> max (tot div ?C) 1" by (simp add: effective_shards_def)
  also have "\<dots> \<le> tot" using assms by (auto simp: max_def)
  finally show "effective_shards tot n \<le> tot" .
  assume "?C \<le> tot"
  then have "1 \<le> tot div ?C" using C by (simp add: div_greater_zero_iff Suc_le_eq)
  then have "effective_shards tot n \<le> tot div ?C" using le by simp
  then have "effective_shards tot n * ?C \<le> tot"
    by (metis C div_times_less_eq_dividend le_trans mult_le_mono1)
  then show "?C \<le> tot div effective_shards tot n"
    using pos by (simp add: less_eq_div_iff_mult_less_eq mult.commute)
qed

lemma shard_new_ok: "2 * cap < u64_mod \<Longrightarrow> shard_ok lay (shard_new cap alg)"
  by (simp add: shard_ok_def shard_new_def shard_bytes_def eviction_new_def)

lemma ram_new_inv:
  assumes "ram_init tot n alg c"
  shows "ram_inv blake3 lay tot n c"
proof -
  note b = effective_shards_bounds [of tot n]
  have tot: "0 < tot" "2 * tot < u64_mod" using assms by (auto simp: ram_init_def)
  let ?cap = "tot div effective_shards tot n"
  have "?cap \<ge> 1" using b tot(1) by (simp add: div_greater_zero_iff Suc_le_eq)
  then have cap: "max ?cap 1 = ?cap" by simp
  have "2 * ?cap < u64_mod" using tot(2) div_le_dividend [of tot "effective_shards tot n"] by linarith
  then have "shard_ok lay (shard_new ?cap alg)" by (rule shard_new_ok)
  moreover have "routed blake3 m i (shard_new ?cap alg)" for m i by (simp add: routed_def shard_new_def)
  ultimately show ?thesis
    using assms b(1) tot(1) cap
    by (auto simp: ram_init_def ram_inv_def ram_ok_def ram_new_def Let_def shard_new_def)
qed

lemma set_shard_capacity:
  assumes "\<forall>sh \<in> set (rc_shards c). sh_capacity sh = cap" "sh_capacity sh = cap"
  shows "\<forall>sh \<in> set (rc_shards (set_shard blake3 k sh c)). sh_capacity sh = cap"
  using assms set_update_subset_insert [of "rc_shards c"] by (auto simp: set_shard_def)

lemma shard_for_mem: "ram_ok blake3 lay c \<Longrightarrow> shard_for blake3 k c \<in> set (rc_shards c)"
  using ram_okD(1,2) by (metis nth_mem shard_for_def)

lemma ram_get_count [simp]: "rc_shard_count (snd (ram_get blake3 now u k c)) = rc_shard_count c"
  by (simp add: ram_get_def Let_def split: option.split)

lemma ram_get_capacity:
  assumes "\<forall>sh \<in> set (rc_shards c). sh_capacity sh = cap" "\<And>k. sh_capacity (shard_for blake3 k c) = cap"
  shows "\<forall>sh \<in> set (rc_shards (snd (ram_get blake3 now u k c))). sh_capacity sh = cap"
proof (cases "map_of (sh_data (shard_for blake3 k c)) k")
  case (Some e)
  let ?c = "c \<lparr> rc_hit_count := u64_add (rc_hit_count c) 1 \<rparr>"
  have "sh_capacity (touch_entry now u k e (shard_for blake3 k c)) = cap"
    using assms(2) by (simp add: touch_entry_def Let_def)
  with set_shard_capacity [of ?c cap] assms(1) show ?thesis
    by (simp only: ram_get_def Let_def Some option.case snd_conv) simp
qed (use assms(1) in \<open>simp add: ram_get_def Let_def\<close>)

lemma ram_step_inv:
  assumes "ram_inv blake3 lay tot n c" "ram_step blake3 lay c c'"
  shows "ram_inv blake3 lay tot n c'"
proof -
  let ?cap = "tot div effective_shards tot n"
  have ok: "ram_ok blake3 lay c" and cnt: "rc_shard_count c = effective_shards tot n"
    and caps: "\<forall>sh \<in> set (rc_shards c). sh_capacity sh = ?cap"
    using assms(1) by (auto simp: ram_inv_def)
  note sh = ram_okD(3) [OF ok] and cap = caps [rule_format, OF shard_for_mem [OF ok]]
  show ?thesis using assms(2)
  proof cases
    case (step_get now u k)
    have "ram_ok blake3 lay c'"
      using ram_get_frame(1) [OF ok, of now u k "fst (ram_get blake3 now u k c)" c'] step_get by simp
    then show ?thesis
      using ram_get_capacity [OF caps cap, of now u k] cnt unfolding ram_inv_def step_get by simp
  next
    case (step_put now e)
    have "sh_capacity (shard_put lay now e (shard_for blake3 (re_cache_key e) c)) = ?cap"
      using shard_put_ok(2) [OF sh] cap by simp
    from set_shard_capacity [OF caps this] ram_put_ok [OF ok, of now e] cnt show ?thesis
      unfolding ram_inv_def step_put ram_put_def by simp
  next
    case (step_invalidate k)
    have "sh_capacity (remove_entry lay k (shard_for blake3 k c)) = ?cap"
      using remove_entry_ok(2) [OF sh] cap by simp
    from set_shard_capacity [OF caps this] ram_invalidate_ok(1) [OF ok, of k] cnt show ?thesis
      unfolding ram_inv_def step_invalidate ram_invalidate_def by simp
  next
    case (step_prefix prefix)
    have "\<forall>sh \<in> set (rc_shards c). sh_capacity (snd (shard_invalidate_prefix lay prefix sh)) = ?cap"
      using caps ok shard_invalidate_prefix_ok(2) unfolding ram_ok_def by (metis in_set_conv_nth)
    then have "\<forall>sh \<in> set (rc_shards c'). sh_capacity sh = ?cap"
      unfolding step_prefix by (simp add: ram_invalidate_by_prefix_def Let_def)
    moreover have "rc_shard_count c' = rc_shard_count c"
      unfolding step_prefix by (simp add: ram_invalidate_by_prefix_def Let_def)
    ultimately show ?thesis
      using ram_invalidate_by_prefix_ok(1) [OF ok, of prefix] cnt unfolding ram_inv_def step_prefix by simp
  qed
qed

interpretation rams: transition_invariant "ram_init tot n alg" "ram_step blake3 lay" "ram_inv blake3 lay tot n"
  for tot n alg blake3 lay
  by unfold_locales (rule ram_new_inv, assumption, rule ram_step_inv)

lemma ram_get_fst: "fst (ram_get blake3 now u k c) = ram_view blake3 c k"
  by (simp add: ram_get_def Let_def ram_view_def ram_lookup_def split: option.split)

lemma fold_u64_add:
  "acc + sum_list xs < u64_mod \<Longrightarrow> fold (\<lambda>n acc. u64_add acc n) xs acc = acc + sum_list xs"
  by (induction xs arbitrary: acc) (simp_all add: u64_add_exact)

lemma sum_list_le_length: "\<forall>x \<in> set xs. f x \<le> (b :: nat) \<Longrightarrow> sum_list (map f xs) \<le> length xs * b"
  by (induction xs) auto

text \<open>
  C26: However gets, stores and invalidations are interleaved, the entries of the RAM cache
  never take more than its configured capacity, the size it reports is the exact size of the
  entries it holds, and no key is held in two shards.
\<close>

theorem ram_capacity_respected:
  assumes "reach (ram_init tot n alg) (ram_step blake3 lay) c" "2 * tot < u64_mod" "0 < tot"
  shows "sum_list (map (shard_bytes lay) (rc_shards c)) \<le> tot \<and>
    rst_current_size (ram_stats u c) = sum_list (map (shard_bytes lay) (rc_shards c)) \<and>
    (\<forall>i < length (rc_shards c). \<forall>j < length (rc_shards c).
       fst ` set (sh_data (rc_shards c ! i)) \<inter> fst ` set (sh_data (rc_shards c ! j)) \<noteq> {} \<longrightarrow> i = j)"
proof -
  have ok: "ram_ok blake3 lay c" "rc_shard_count c = effective_shards tot n"
    "\<forall>sh \<in> set (rc_shards c). sh_capacity sh = tot div effective_shards tot n"
    using rams.reach_inv [OF assms(1)] by (auto simp: ram_inv_def)
  have len: "length (rc_shards c) = effective_shards tot n" using ram_okD(1) [OF ok(1)] ok(2) by simp
  have sh: "shard_ok lay sh" if "sh \<in> set (rc_shards c)" for sh
    using ok(1) that unfolding ram_ok_def by (metis in_set_conv_nth)
  have "sum_list (map (shard_bytes lay) (rc_shards c)) \<le> length (rc_shards c) * (tot div effective_shards tot n)"
    by (rule sum_list_le_length) (use sh ok(3) shard_okD(2,3) in fastforce)
  also have "\<dots> \<le> tot" by (simp add: len)
  finally have bound: "sum_list (map (shard_bytes lay) (rc_shards c)) \<le> tot" .
  have "map sh_current_size (rc_shards c) = map (shard_bytes lay) (rc_shards c)"
    using sh shard_okD(2) by simp
  moreover have "fold (\<lambda>n acc. u64_add acc n) (map (shard_bytes lay) (rc_shards c)) 0 =
      sum_list (map (shard_bytes lay) (rc_shards c))"
    using fold_u64_add [of 0 "map (shard_bytes lay) (rc_shards c)"] bound assms(2) by simp
  ultimately have "rst_current_size (ram_stats u c) = sum_list (map (shard_bytes lay) (rc_shards c))"
    by (simp only: ram_stats_def Let_def RamCacheStats.select_convs)
  moreover have "i = j"
    if "i < length (rc_shards c)" "j < length (rc_shards c)"
      "fst ` set (sh_data (rc_shards c ! i)) \<inter> fst ` set (sh_data (rc_shards c ! j)) \<noteq> {}" for i j
    using ok(1) that unfolding ram_ok_def routed_def by (metis disjoint_iff)
  ultimately show ?thesis using bound by blast
qed

text \<open>
  C27: Any entry of up to 64 MiB, its own bookkeeping included, is admitted by a cache
  configured with at least that much: the next get of its key returns it, whatever the cache
  held before and however many shards were asked for.
\<close>

theorem ram_admission:
  assumes "reach (ram_init tot n alg) (ram_step blake3 lay) c"
    and "RAM_CACHE_ADMISSION_CEILING \<le> tot" "shard_calculate_entry_size lay e \<le> RAM_CACHE_ADMISSION_CEILING"
  shows "fst (ram_get blake3 now' u (re_cache_key e) (ram_put blake3 lay now e c)) = Some (read_of e)"
proof -
  let ?k = "re_cache_key e"
  have ok: "ram_ok blake3 lay c" and caps: "\<forall>sh \<in> set (rc_shards c). sh_capacity sh = tot div effective_shards tot n"
    using rams.reach_inv [OF assms(1)] by (auto simp: ram_inv_def)
  have "0 < tot" using assms(2) by (simp add: RAM_CACHE_ADMISSION_CEILING_def)
  from effective_shards_bounds(3) [OF this assms(2)] assms(3) caps shard_for_mem [OF ok]
  have "shard_calculate_entry_size lay e \<le> sh_capacity (shard_for blake3 ?k c)" by (metis le_trans)
  from shard_put_ok(3) [OF ram_okD(3) [OF ok] this]
  have "ram_lookup blake3 (ram_put blake3 lay now e c) ?k = Some e"
    by (simp add: ram_put_def lookup_set_shard [OF ok])
  then show ?thesis by (simp add: ram_get_fst ram_view_def)
qed

text \<open>
  C29: Invalidating a prefix makes exactly the keys with that prefix miss. All other keys are
  answered as before.
\<close>

theorem ram_invalidation_exact:
  assumes "reach (ram_init tot n alg) (ram_step blake3 lay) c"
  shows "fst (ram_get blake3 now u k (snd (ram_invalidate_by_prefix lay prefix c))) =
    (if starts_with prefix k then None else fst (ram_get blake3 now u k c))"
proof -
  have ok: "ram_ok blake3 lay c" using rams.reach_inv [OF assms] by (simp add: ram_inv_def)
  then show ?thesis
    by (simp add: ram_get_fst ram_view_def ram_invalidate_by_prefix_ok(2) restrict_map_def)
qed

section \<open>Least recently used eviction\<close>

definition bytes_of :: "layout \<Rightarrow> RamCacheShard \<Rightarrow> string list \<Rightarrow> nat" where
  "bytes_of lay sh ks =
     sum_list (map (\<lambda>k. case map_of (sh_data sh) k of
                          Some e \<Rightarrow> shard_calculate_entry_size lay e | None \<Rightarrow> 0) ks)"

lemma bytes_of_all:
  assumes "shard_ok lay sh" "alg_of sh = LRU"
  shows "bytes_of lay sh (lru_of sh) = sh_current_size sh"
proof -
  note d = shard_okD [OF assms(1)]
  let ?f = "\<lambda>k. case map_of (sh_data sh) k of Some e \<Rightarrow> shard_calculate_entry_size lay e | None \<Rightarrow> 0"
  have "bytes_of lay sh (lru_of sh) = sum ?f (set (lru_of sh))"
    using d(5) [OF assms(2)] by (simp add: bytes_of_def sum_list_distinct_conv_sum_set)
  also have "\<dots> = sum_list (map ?f (map fst (sh_data sh)))"
    unfolding d(6) [OF assms(2)] sum_list_distinct_conv_sum_set [OF d(1)] by simp
  also have "map ?f (map fst (sh_data sh)) = map (shard_calculate_entry_size lay \<circ> snd) (sh_data sh)"
    using d(1) by auto
  finally show ?thesis using d(2) by (simp add: shard_bytes_def)
qed

lemma bytes_of_cong:
  assumes "\<forall>k \<in> set ks. map_of (sh_data sh) k = map_of (sh_data sh') k"
  shows "bytes_of lay sh ks = bytes_of lay sh' ks"
  using assms unfolding bytes_of_def by (metis (no_types, lifting) map_cong)

lemma evict_until_lru:
  assumes "shard_ok lay sh" "alg_of sh = LRU" "n \<le> sh_capacity sh"
  shows "\<exists>j \<le> length (lru_of sh). lru_of (evict_until lay now n sh) = drop j (lru_of sh) \<and>
    map_of (sh_data (evict_until lay now n sh)) = map_of (sh_data sh) |` set (drop j (lru_of sh)) \<and>
    (\<forall>i < j. bytes_of lay sh (drop i (lru_of sh)) + n > sh_capacity sh)"
  using assms
proof (induction lay now n sh rule: evict_until.induct)
  case (1 lay now n sh)
  note d = shard_okD [OF 1(2)]
  have add: "u64_add (sh_current_size sh) n = sh_current_size sh + n"
    using d(3,4) 1(4) by (simp add: u64_add_exact)
  show ?case
  proof (cases "sh_current_size sh + n > sh_capacity sh \<and> sh_data sh \<noteq> []")
    case False
    have "evict_until lay now n sh = sh" using False by (subst evict_until.simps) (auto simp: add)
    moreover have "map_of (sh_data sh) |` set (lru_of sh) = map_of (sh_data sh)"
      unfolding d(6) [OF 1(3)] by (rule ext) (auto simp: restrict_map_def map_of_eq_None_iff [symmetric])
    ultimately show ?thesis by (intro exI [of _ 0]) simp
  next
    case True
    then obtain k ks where ks: "lru_of sh = k # ks"
      using d(6) [OF 1(3)] by (cases "lru_of sh") auto
    then have v: "find_victim now sh = Some k" using 1(3) by (simp add: find_victim_def shard_find_lru_victim_def)
    obtain e where e: "map_of (sh_data sh) k = Some e"
      using find_victim_present [OF 1(2), of now] True v by auto
    let ?sh = "evict_entry lay now k e sh"
    have f: "alg_of ?sh = LRU" "sh_capacity ?sh = sh_capacity sh" "lru_of ?sh = ks"
      "sh_data ?sh = AList.delete k (sh_data sh)"
      using 1(3) ks by (simp_all add: evict_entry_def)
    have step: "evict_until lay now n sh = evict_until lay now n ?sh"
      using True by (subst evict_until.simps) (simp add: add v e)
    have guard: "sh_capacity sh < u64_add (sh_current_size sh) n \<and> sh_data sh \<noteq> []" using True add by simp
    have n: "n \<le> sh_capacity ?sh" using 1(4) f(2) by simp
    from 1(1) [OF guard v e evict_entry_ok [OF 1(2) e] f(1) n]
    obtain j where j: "j \<le> length ks" "lru_of (evict_until lay now n sh) = drop j ks"
      "map_of (sh_data (evict_until lay now n sh)) = map_of (sh_data ?sh) |` set (drop j ks)"
      "\<forall>i < j. bytes_of lay ?sh (drop i ks) + n > sh_capacity sh"
      unfolding step f(2,3) by auto
    have nk: "k \<notin> set ks" using d(5) [OF 1(3)] ks by simp
    have same: "map_of (sh_data ?sh) k' = map_of (sh_data sh) k'" if "k' \<in> set ks" for k'
      using that nk by (auto simp: f(4) delete_conv')
    have "map_of (sh_data ?sh) |` set (drop j ks) = map_of (sh_data sh) |` set (drop j ks)"
      using same set_drop_subset [of j ks] by (auto simp: restrict_map_def fun_eq_iff)
    moreover have "bytes_of lay sh (drop i (k # ks)) + n > sh_capacity sh" if "i < Suc j" for i
    proof (cases i)
      case 0
      then show ?thesis using bytes_of_all [OF 1(2,3)] ks True by simp
    next
      case (Suc i')
      have "bytes_of lay sh (drop i' ks) = bytes_of lay ?sh (drop i' ks)"
        by (rule bytes_of_cong) (use same set_drop_subset [of i' ks] in auto)
      then show ?thesis using j(4) Suc that by simp
    qed
    ultimately show ?thesis using j(1,2,3) by (intro exI [of _ "Suc j"]) (simp add: ks)
  qed
qed


section \<open>Samples\<close>

definition sample_ram_entry :: "string \<Rightarrow> string \<Rightarrow> RamCacheEntry" where
  "sample_ram_entry key data =
     \<lparr> re_cache_key = key, re_data = data,
       re_metadata = \<lparr> cm_etag = ''v'', cm_last_modified = [], cm_content_length = length data,
         cm_part_number = None, cm_cache_control = None, cm_access_count = 0, cm_last_accessed = 0 \<rparr>,
       re_created_at = 0, re_last_accessed = 0, re_access_count = 1, re_compressed = True,
       re_compression_algorithm = Lz4 \<rparr>"

definition sample_ram :: ShardedRamCache where
  "sample_ram = ram_put zero_digest (8, 8) 5 (sample_ram_entry ''a'' ''xyz'')
     (ram_new RAM_CACHE_ADMISSION_CEILING 4 LRU)"

lemma sample_ram_reach:
  "reach (ram_init RAM_CACHE_ADMISSION_CEILING 4 LRU) (ram_step zero_digest (8, 8)) sample_ram"
proof (rule reach_step)
  show "reach (ram_init RAM_CACHE_ADMISSION_CEILING 4 LRU) (ram_step zero_digest (8, 8))
      (ram_new RAM_CACHE_ADMISSION_CEILING 4 LRU)"
    by (rule reach_init) (simp add: ram_init_def RAM_CACHE_ADMISSION_CEILING_def)
qed (unfold sample_ram_def, rule step_put)

theorem ram_capacity_respected_witness:
  "sum_list (map (shard_bytes (8, 8)) (rc_shards sample_ram)) \<le> RAM_CACHE_ADMISSION_CEILING \<and>
   rst_current_size (ram_stats True sample_ram) = sum_list (map (shard_bytes (8, 8)) (rc_shards sample_ram))"
  using ram_capacity_respected [OF sample_ram_reach, of True]
  by (simp add: RAM_CACHE_ADMISSION_CEILING_def)

theorem ram_admission_witness:
  "fst (ram_get zero_digest 7 True ''b'' (ram_put zero_digest (8, 8) 6 (sample_ram_entry ''b'' ''uvw'') sample_ram)) =
     Some (read_of (sample_ram_entry ''b'' ''uvw''))"
proof -
  have "shard_calculate_entry_size (8, 8) (sample_ram_entry ''b'' ''uvw'') \<le> RAM_CACHE_ADMISSION_CEILING"
    by (simp add: shard_calculate_entry_size_def sample_ram_entry_def RAM_CACHE_ADMISSION_CEILING_def)
  from ram_admission [OF sample_ram_reach order_refl this, of 7 True 6] show ?thesis
    by (simp add: sample_ram_entry_def)
qed

theorem ram_invalidation_exact_witness:
  "fst (ram_get zero_digest 7 True ''a'' (snd (ram_invalidate_by_prefix (8, 8) ''a'' sample_ram))) = None"
  using ram_invalidation_exact [OF sample_ram_reach, of 7 True "''a''" "''a''"]
  by (simp add: starts_with_def)

definition sample_shard :: RamCacheShard where
  "sample_shard = \<lparr> sh_data = [(''a'', sample_ram_entry ''a'' ''xyz''), (''b'', sample_ram_entry ''b'' ''uvw'')],
     sh_eviction = \<lparr> ev_algorithm = LRU, ev_lru_order = [''a'', ''b''] \<rparr>, sh_current_size = 8,
     sh_capacity = 10, sh_pending_accesses = [''a''], sh_eviction_count = 0, sh_last_eviction_ms = 0 \<rparr>"

lemma sample_shard_ok: "shard_ok (0, 0) sample_shard"
  by (simp add: shard_ok_def sample_shard_def shard_bytes_def shard_calculate_entry_size_def
      sample_ram_entry_def)


end
