(* ===== verification/Cache_Keys.thy ===== *)
theory Cache_Keys
  imports Path_Safety Compression
begin

text \<open>
  The cache keys of \<open>src/src/cache.rs\<close>: the bucket or access point named by the \<open>Host\<close> header,
  the keys of objects, parts and ranges, the suffixes stripped before an extension is looked
  at, and the compression decision that uses them.
\<close>

section \<open>Searching\<close>

text \<open>\<open>str::find\<close> and \<open>str::rfind\<close> of a substring, as the text before and after the match.\<close>

fun find_str :: "string \<Rightarrow> string \<Rightarrow> (string \<times> string) option" where
  "find_str p [] = (if p = [] then Some ([], []) else None)"
| "find_str p (c # cs) =
     (case strip_prefix p (c # cs) of
        Some t \<Rightarrow> Some ([], t)
      | None \<Rightarrow> map_option (\<lambda>(h, t). (c # h, t)) (find_str p cs))"

fun rfind_str :: "string \<Rightarrow> string \<Rightarrow> (string \<times> string) option" where
  "rfind_str p [] = (if p = [] then Some ([], []) else None)"
| "rfind_str p (c # cs) =
     (case rfind_str p cs of
        Some (h, t) \<Rightarrow> Some (c # h, t)
      | None \<Rightarrow> map_option (\<lambda>t. ([], t)) (strip_prefix p (c # cs)))"

section \<open>The host\<close>

definition extract_access_point_prefix :: "string \<Rightarrow> string option" where
  "extract_access_point_prefix host =
     (if ends_with ''.accesspoint.s3-global.amazonaws.com'' host then
        (case strip_suffix ''.accesspoint.s3-global.amazonaws.com'' host of
           None \<Rightarrow> None
         | Some prefix \<Rightarrow>
             if prefix \<noteq> [] then
               if ends_with ''.mrap'' prefix then Some prefix else Some (prefix @ ''.mrap'')
             else None)
      else if contains_str ''.s3-accesspoint.'' host \<and> ends_with ''.amazonaws.com'' host then
        (let prefix = (case find_str ''.s3-accesspoint.'' host of Some (h, _) \<Rightarrow> h | None \<Rightarrow> host)
         in if prefix \<noteq> [] then
              if ends_with ''-s3alias'' prefix then Some prefix else Some (prefix @ ''-s3alias'')
            else None)
      else None)"

definition nonempty :: "string \<Rightarrow> string option" where
  "nonempty s = (if s \<noteq> [] then Some s else None)"

definition accelerate_bucket :: "string \<Rightarrow> string option" where
  "accelerate_bucket bucket =
     (if bucket \<noteq> [] \<and> CHR ''.'' \<notin> set bucket then Some bucket else None)"

text \<open>The branch of \<open>extract_virtual_hosted_bucket\<close> for a host below \<open>.amazonaws.com\<close>.\<close>

definition regional_bucket :: "string \<Rightarrow> string option option" where
  "regional_bucket without_tld =
     (case rsplit_once (CHR ''.'') without_tld of
        None \<Rightarrow> None
      | Some (before_region, region) \<Rightarrow>
          if region \<noteq> [] \<and> CHR ''.'' \<notin> set region then
            (case strip_suffix ''.s3.dualstack'' before_region of
               Some bucket \<Rightarrow> Some (nonempty bucket)
             | None \<Rightarrow>
                 (case strip_suffix ''.s3'' before_region of
                    Some bucket \<Rightarrow> Some (nonempty bucket)
                  | None \<Rightarrow> None))
          else None)"

definition extract_virtual_hosted_bucket :: "string \<Rightarrow> string option" where
  "extract_virtual_hosted_bucket host =
     (case strip_suffix ''.s3-accelerate.dualstack.amazonaws.com'' host of
        Some bucket \<Rightarrow> accelerate_bucket bucket
      | None \<Rightarrow>
        (case strip_suffix ''.s3-accelerate.amazonaws.com'' host of
           Some bucket \<Rightarrow> accelerate_bucket bucket
         | None \<Rightarrow>
           (case strip_suffix ''.amazonaws.com'' host of
              None \<Rightarrow> None
            | Some without_tld \<Rightarrow>
                (case regional_bucket without_tld of
                   Some r \<Rightarrow> r
                 | None \<Rightarrow>
                     (case strip_suffix ''.s3'' without_tld of
                        Some bucket \<Rightarrow> nonempty bucket
                      | None \<Rightarrow> None)))))"

section \<open>Keys\<close>

definition generate_cache_key :: "string \<Rightarrow> string option \<Rightarrow> string" where
  "generate_cache_key path host =
     (let normalized_path = normalize_cache_key path
      in case host of
           None \<Rightarrow> normalized_path
         | Some h \<Rightarrow>
             (case extract_access_point_prefix h of
                Some prefix \<Rightarrow> prefix @ ''/'' @ normalized_path
              | None \<Rightarrow>
                  (case extract_virtual_hosted_bucket h of
                     Some bucket \<Rightarrow> bucket @ ''/'' @ normalized_path
                   | None \<Rightarrow> normalized_path)))"

definition generate_part_cache_key :: "string \<Rightarrow> u32 \<Rightarrow> string option \<Rightarrow> string" where
  "generate_part_cache_key path part_number host =
     generate_cache_key path host @ '':part:'' @ show_nat part_number"

definition generate_range_cache_key :: "string \<Rightarrow> u64 \<Rightarrow> u64 \<Rightarrow> string option \<Rightarrow> string" where
  "generate_range_cache_key path s e host =
     generate_cache_key path host @ '':range:'' @ show_nat s @ ''-'' @ show_nat e"

definition generate_ram_range_key :: "string \<Rightarrow> u64 \<Rightarrow> u64 \<Rightarrow> string \<Rightarrow> string" where
  "generate_ram_range_key cache_key s e etag =
     cache_key @ '':range:'' @ show_nat s @ '':'' @ show_nat e @ '':'' @ etag"

definition generate_cache_key_with_params ::
    "string \<Rightarrow> u32 option \<Rightarrow> (u64 \<times> u64) option \<Rightarrow> string option \<Rightarrow> string" where
  "generate_cache_key_with_params path part_number rng host =
     (case (part_number, rng) of
        (Some part, Some (s, e)) \<Rightarrow>
          generate_range_cache_key (path @ '':part:'' @ show_nat part) s e host
      | (Some part, None) \<Rightarrow> generate_part_cache_key path part host
      | (None, Some (s, e)) \<Rightarrow> generate_range_cache_key path s e host
      | (None, None) \<Rightarrow> generate_cache_key path host)"

definition ascii_digits :: "string \<Rightarrow> bool" where
  "ascii_digits s = list_all (\<lambda>c. to_digit 10 c \<noteq> None) s"

definition is_range_suffix_body :: "string \<Rightarrow> bool" where
  "is_range_suffix_body body =
     (case split_once (CHR ''-'') body of
        Some (s, e) \<Rightarrow> s \<noteq> [] \<and> e \<noteq> [] \<and> ascii_digits s \<and> ascii_digits e
      | None \<Rightarrow> False)"

definition strip_range :: "string \<Rightarrow> string" where
  "strip_range cache_key =
     (case rfind_str '':range:'' cache_key of
        Some (head, range_body) \<Rightarrow> if is_range_suffix_body range_body then head else cache_key
      | None \<Rightarrow> cache_key)"

definition strip_part :: "string \<Rightarrow> string" where
  "strip_part without_range =
     (case rfind_str '':part:'' without_range of
        Some (head, part_body) \<Rightarrow>
          if ascii_digits part_body \<and> part_body \<noteq> [] then head else without_range
      | None \<Rightarrow> without_range)"

definition strip_known_cache_key_suffixes :: "string \<Rightarrow> string" where
  "strip_known_cache_key_suffixes cache_key = strip_part (strip_range cache_key)"

section \<open>The compression decision\<close>

text \<open>
  Of the resolved bucket settings the decision reads \<open>compression_enabled\<close> and
  \<open>compression_from_rule\<close>.
\<close>

definition effective_compression :: "nat \<Rightarrow> bool \<Rightarrow> bool \<Rightarrow> string \<Rightarrow> u64 \<Rightarrow> bool" where
  "effective_compression compression_threshold compression_enabled compression_from_rule
     cache_key sz =
     (if \<not> compression_enabled then False
      else if sz < compression_threshold then False
      else if compression_from_rule then True
      else \<not> is_denylisted_extension (strip_known_cache_key_suffixes cache_key))"

section \<open>One key for every way to name a bucket\<close>

lemma last_label:
  assumes "a @ CHR ''.'' # r = a' @ CHR ''.'' # r'" "CHR ''.'' \<notin> set r" "CHR ''.'' \<notin> set r'"
  shows "a = a' \<and> r = r'"
  using assms rsplit_once_Some [of "CHR ''.''" "a @ CHR ''.'' # r"] by (metis Pair_inject option.inject)

lemma strip_suffix_append [simp]: "strip_suffix p (t @ p) = Some t"
  by (simp add: strip_suffix_Some)

lemma strip_suffix_label_None:
  assumes "CHR ''.'' \<notin> set r" "CHR ''.'' \<notin> set l" "l \<noteq> r"
  shows "strip_suffix (CHR ''.'' # l @ tld) (a @ CHR ''.'' # r @ tld) = None"
proof (rule ccontr)
  assume "strip_suffix (CHR ''.'' # l @ tld) (a @ CHR ''.'' # r @ tld) \<noteq> None"
  then obtain t where "a @ CHR ''.'' # r @ tld = t @ CHR ''.'' # l @ tld"
    by (auto simp: strip_suffix_Some)
  then have "a @ CHR ''.'' # r = t @ CHR ''.'' # l"
    by (metis append_Cons append_assoc append_same_eq)
  with last_label [OF this assms(1,2)] assms(3) show False by simp
qed

definition virtual_hosts :: "string \<Rightarrow> string \<Rightarrow> string list" where
  "virtual_hosts bucket region =
     [bucket @ ''.s3.'' @ region @ ''.amazonaws.com'',
      bucket @ ''.s3.dualstack.'' @ region @ ''.amazonaws.com'',
      bucket @ ''.s3.amazonaws.com''] @
     (if CHR ''.'' \<in> set bucket then []
      else [bucket @ ''.s3-accelerate.amazonaws.com'',
            bucket @ ''.s3-accelerate.dualstack.amazonaws.com''])"

lemma regional_host:
  assumes "CHR ''.'' \<notin> set region" "region \<noteq> []" "region \<noteq> ''s3-accelerate''" "region \<noteq> ''dualstack''"
  shows "extract_virtual_hosted_bucket (before @ ''.'' @ region @ ''.amazonaws.com'') =
    (case regional_bucket (before @ ''.'' @ region) of
       Some r \<Rightarrow> r
     | None \<Rightarrow> (case strip_suffix ''.s3'' (before @ ''.'' @ region) of
                  Some bucket \<Rightarrow> nonempty bucket | None \<Rightarrow> None))"
proof -
  let ?h = "before @ ''.'' @ region @ ''.amazonaws.com''"
  have "strip_suffix ''.s3-accelerate.amazonaws.com'' ?h = None"
    using strip_suffix_label_None [OF assms(1), of "''s3-accelerate''" "''.amazonaws.com''" before]
      assms(3) by simp
  moreover have "strip_suffix ''.s3-accelerate.dualstack.amazonaws.com'' ?h = None"
  proof (rule ccontr)
    assume "strip_suffix ''.s3-accelerate.dualstack.amazonaws.com'' ?h \<noteq> None"
    then obtain t where t: "?h = t @ ''.s3-accelerate.dualstack.amazonaws.com''"
      by (auto simp: strip_suffix_Some)
    have "strip_suffix ''.dualstack.amazonaws.com'' ?h = None"
      using strip_suffix_label_None [OF assms(1), of "''dualstack''" "''.amazonaws.com''" before]
        assms(4) by simp
    moreover have "?h = (t @ ''.s3-accelerate'') @ ''.dualstack.amazonaws.com''" using t by simp
    ultimately show False using strip_suffix_Some [of "''.dualstack.amazonaws.com''" ?h] by auto
  qed
  moreover have "strip_suffix ''.amazonaws.com'' ?h = Some (before @ ''.'' @ region)"
    using strip_suffix_append [of "''.amazonaws.com''" "before @ ''.'' @ region"] by simp
  ultimately show ?thesis
    unfolding extract_virtual_hosted_bucket_def by (simp split: option.split)
qed

lemma rsplit_label: "CHR ''.'' \<notin> set r \<Longrightarrow> rsplit_once (CHR ''.'') (a @ ''.'' @ r) = Some (a, r)"
  by (simp add: rsplit_once_Some)

lemma regional_virtual_host:
  assumes "bucket \<noteq> []" "region \<noteq> []" "CHR ''.'' \<notin> set region"
    "region \<noteq> ''s3-accelerate''" "region \<noteq> ''dualstack''"
  shows "extract_virtual_hosted_bucket ((bucket @ ''.s3'') @ ''.'' @ region @ ''.amazonaws.com'') =
      Some bucket"
    and "extract_virtual_hosted_bucket ((bucket @ ''.s3.dualstack'') @ ''.'' @ region @ ''.amazonaws.com'') =
      Some bucket"
proof -
  have dual: "strip_suffix ''.s3.dualstack'' (bucket @ ''.s3'') = None"
    by (simp add: strip_suffix_def)
  have "regional_bucket ((bucket @ ''.s3'') @ ''.'' @ region) = Some (Some bucket)"
    unfolding regional_bucket_def rsplit_label [OF assms(3)] option.case prod.case dual
      strip_suffix_append using assms(1-3) by (simp add: nonempty_def)
  then show "extract_virtual_hosted_bucket ((bucket @ ''.s3'') @ ''.'' @ region @ ''.amazonaws.com'') =
      Some bucket"
    unfolding regional_host [OF assms(3,2,4,5)] by (simp only: option.case)
  have "regional_bucket ((bucket @ ''.s3.dualstack'') @ ''.'' @ region) = Some (Some bucket)"
    unfolding regional_bucket_def rsplit_label [OF assms(3)] option.case prod.case
      strip_suffix_append using assms(1-3) by (simp add: nonempty_def)
  then show "extract_virtual_hosted_bucket ((bucket @ ''.s3.dualstack'') @ ''.'' @ region @ ''.amazonaws.com'') =
      Some bucket"
    unfolding regional_host [OF assms(3,2,4,5)] by (simp only: option.case)
qed

lemma global_virtual_host:
  assumes "bucket \<noteq> []" "\<not> ends_with ''.s3'' bucket" "\<not> ends_with ''.s3.dualstack'' bucket"
  shows "extract_virtual_hosted_bucket (bucket @ ''.'' @ ''s3'' @ ''.amazonaws.com'') = Some bucket"
proof -
  have label: "CHR ''.'' \<notin> set ''s3''" by simp
  have none: "strip_suffix ''.s3'' bucket = None" "strip_suffix ''.s3.dualstack'' bucket = None"
    using assms(2,3) by (simp_all add: ends_with_def)
  have r: "regional_bucket (bucket @ ''.'' @ ''s3'') = None"
    unfolding regional_bucket_def rsplit_label [OF label] option.case prod.case none by simp
  have "strip_suffix ''.s3'' (bucket @ ''.'' @ ''s3'') = Some bucket"
    using strip_suffix_append [of "''.s3''" bucket] by simp
  then show ?thesis
    using regional_host [OF label, of bucket] assms(1) r by (simp only:) (simp add: nonempty_def)
qed

lemma accelerate_virtual_host:
  assumes "bucket \<noteq> []" "CHR ''.'' \<notin> set bucket"
  shows "extract_virtual_hosted_bucket (bucket @ ''.s3-accelerate.amazonaws.com'') = Some bucket"
    and "extract_virtual_hosted_bucket (bucket @ ''.s3-accelerate.dualstack.amazonaws.com'') = Some bucket"
proof -
  have none: "strip_suffix ''.s3-accelerate.dualstack.amazonaws.com''
      (bucket @ ''.s3-accelerate.amazonaws.com'') = None"
    by (simp add: strip_suffix_def)
  show "extract_virtual_hosted_bucket (bucket @ ''.s3-accelerate.amazonaws.com'') = Some bucket"
    unfolding extract_virtual_hosted_bucket_def none strip_suffix_append option.case
    using assms by (simp add: accelerate_bucket_def)
  show "extract_virtual_hosted_bucket (bucket @ ''.s3-accelerate.dualstack.amazonaws.com'') = Some bucket"
    unfolding extract_virtual_hosted_bucket_def strip_suffix_append option.case
    using assms by (simp add: accelerate_bucket_def)
qed

lemma virtual_host_bucket:
  assumes "host \<in> set (virtual_hosts bucket region)"
    and "bucket \<noteq> []" "region \<noteq> []" "CHR ''.'' \<notin> set region"
      "region \<noteq> ''s3-accelerate''" "region \<noteq> ''dualstack''"
    and "\<not> ends_with ''.s3'' bucket" "\<not> ends_with ''.s3.dualstack'' bucket"
  shows "extract_virtual_hosted_bucket host = Some bucket"
proof -
  have hosts: "bucket @ ''.s3.'' @ region @ ''.amazonaws.com'' = (bucket @ ''.s3'') @ ''.'' @ region @ ''.amazonaws.com''"
    "bucket @ ''.s3.dualstack.'' @ region @ ''.amazonaws.com'' =
       (bucket @ ''.s3.dualstack'') @ ''.'' @ region @ ''.amazonaws.com''"
    "bucket @ ''.s3.amazonaws.com'' = bucket @ ''.'' @ ''s3'' @ ''.amazonaws.com''"
    by simp_all
  have "(host = bucket @ ''.s3.'' @ region @ ''.amazonaws.com'' \<or>
      host = bucket @ ''.s3.dualstack.'' @ region @ ''.amazonaws.com'' \<or>
      host = bucket @ ''.s3.amazonaws.com'') \<or>
      CHR ''.'' \<notin> set bucket \<and> (host = bucket @ ''.s3-accelerate.amazonaws.com'' \<or>
      host = bucket @ ''.s3-accelerate.dualstack.amazonaws.com'')"
    using assms(1) unfolding virtual_hosts_def set_append set_simps Un_iff insert_iff
    by (cases "CHR ''.'' \<in> set bucket") (simp_all only: if_True if_False set_simps empty_iff insert_iff simp_thms)
  then show ?thesis
    unfolding hosts
    using regional_virtual_host [OF assms(2-6)] global_virtual_host [OF assms(2,7,8)]
      accelerate_virtual_host [OF assms(2)] by blast
qed

text \<open>
  C20: However a client names a general-purpose bucket, the object gets one cache key: the
  regional, dualstack, legacy global and accelerated virtual-hosted forms all give the key of
  the path-style request, \<open>bucket/key\<close>. The bucket must not end in \<open>.s3\<close> or
  \<open>.s3.dualstack\<close>; \<open>legacy_bucket_confused\<close> shows why.
\<close>

theorem virtual_hosted_same_key:
  assumes "host \<in> set (virtual_hosts bucket region)" "extract_access_point_prefix host = None"
    and "bucket \<noteq> []" "region \<noteq> []" "CHR ''.'' \<notin> set region"
      "region \<noteq> ''s3-accelerate''" "region \<noteq> ''dualstack''"
    and "\<not> ends_with ''.s3'' bucket" "\<not> ends_with ''.s3.dualstack'' bucket"
    and "extract_access_point_prefix path_host = None"
      "extract_virtual_hosted_bucket path_host = None"
  shows "generate_cache_key (''/'' @ key) (Some host) = bucket @ ''/'' @ key \<and>
    generate_cache_key (''/'' @ bucket @ ''/'' @ key) (Some path_host) = bucket @ ''/'' @ key"
  unfolding generate_cache_key_def normalize_cache_key_def strip_prefix_append Let_def option.case
    virtual_host_bucket [OF assms(1,3-9)] assms(2,10,11) by simp

theorem virtual_hosted_same_key_witness:
  "generate_cache_key ''/a/b'' (Some ''pics.s3.eu-west-1.amazonaws.com'') = ''pics/a/b'' \<and>
   generate_cache_key ''/pics/a/b'' (Some ''s3.eu-west-1.amazonaws.com'') = ''pics/a/b''"
proof -
  have "''pics.s3.eu-west-1.amazonaws.com'' \<in> set (virtual_hosts ''pics'' ''eu-west-1'')"
    "extract_access_point_prefix ''pics.s3.eu-west-1.amazonaws.com'' = None"
    "\<not> ends_with ''.s3'' ''pics''" "\<not> ends_with ''.s3.dualstack'' ''pics''"
    "extract_access_point_prefix ''s3.eu-west-1.amazonaws.com'' = None"
    "extract_virtual_hosted_bucket ''s3.eu-west-1.amazonaws.com'' = None"
    by code_simp+
  then show ?thesis
    using virtual_hosted_same_key [of "''pics.s3.eu-west-1.amazonaws.com''" "''pics''" "''eu-west-1''"
        "''s3.eu-west-1.amazonaws.com''" "''a/b''"] by simp
qed

text \<open>
  For a bucket whose name ends in \<open>.s3\<close>, the label before \<open>amazonaws.com\<close> of the legacy global
  host is taken for a region and the end of the name for the service: its objects get the
  keys of another bucket.
\<close>

lemma legacy_bucket_confused:
  "generate_cache_key ''/k'' (Some ''data.s3.s3.amazonaws.com'') =
     generate_cache_key ''/k'' (Some ''data.s3.amazonaws.com'')"
  by code_simp

section \<open>Stripping the suffixes of a key\<close>

lemma rfind_str_None: "rfind_str p s = None \<longleftrightarrow> \<not> contains_str p s"
  by (induction s) (auto simp: starts_with_def split: option.splits)

lemma rfind_str_last:
  assumes "p \<noteq> []" "\<not> contains_str p (tl p @ t)"
  shows "rfind_str p (h @ p @ t) = Some (h, t)"
proof (induction h)
  case Nil
  have "rfind_str p (tl p @ t) = None" using assms(2) by (simp add: rfind_str_None)
  moreover obtain c cs where p: "p = c # cs" using assms(1) by (cases p) auto
  moreover have "strip_prefix p (p @ t) = Some t" by simp
  ultimately show ?case by simp
qed simp

lemma contains_count: "contains_str p s \<Longrightarrow> count_list p c \<le> count_list s c"
  by (auto simp: contains_str_iff)

lemma count_list_notin: "c \<notin> set s \<Longrightarrow> count_list s c = 0"
  by simp

lemma rfind_str_Some: "rfind_str p s = Some (h, t) \<Longrightarrow> s = h @ p @ t"
  by (induction s arbitrary: h)
    (auto simp: strip_prefix_Some split: option.splits if_splits)

lemma digit_to_digit: "48 \<le> (of_char c :: nat) \<and> (of_char c :: nat) \<le> 57 \<Longrightarrow> to_digit 10 c \<noteq> None"
  by (auto simp: to_digit_def Let_def)

lemma ascii_digits_show_nat [simp]: "ascii_digits (show_nat n)"
  unfolding ascii_digits_def list_all_iff using show_nat_digit digit_to_digit by blast

lemma colon_show_nat [simp]: "CHR '':'' \<notin> set (show_nat n)" "CHR ''-'' \<notin> set (show_nat n)"
  by (rule show_nat_notin, simp)+

lemma ascii_digits_no_colon: "ascii_digits s \<Longrightarrow> CHR '':'' \<notin> set s"
  by (auto simp: ascii_digits_def list_all_iff to_digit_def Let_def)

lemma range_body_no_colon: "is_range_suffix_body t \<Longrightarrow> CHR '':'' \<notin> set t"
  by (auto simp: is_range_suffix_body_def split_once_Some split: option.splits
      dest: ascii_digits_no_colon)

lemma rfind_suffix:
  assumes "CHR '':'' \<notin> set t"
  shows "rfind_str '':range:'' (h @ '':range:'' @ t) = Some (h, t)"
    and "rfind_str '':part:'' (h @ '':part:'' @ t) = Some (h, t)"
proof -
  have "\<not> contains_str '':range:'' (tl '':range:'' @ t)"
    by (rule notI, drule contains_count [where c = "CHR '':''"])
      (use assms in \<open>simp del: contains_str.simps\<close>)
  then show "rfind_str '':range:'' (h @ '':range:'' @ t) = Some (h, t)"
    by (intro rfind_str_last) simp_all
  have "\<not> contains_str '':part:'' (tl '':part:'' @ t)"
    by (rule notI, drule contains_count [where c = "CHR '':''"])
      (use assms in \<open>simp del: contains_str.simps\<close>)
  then show "rfind_str '':part:'' (h @ '':part:'' @ t) = Some (h, t)"
    by (intro rfind_str_last) simp_all
qed

lemma strip_part_suffix: "strip_part (base @ '':part:'' @ show_nat n) = base"
  unfolding strip_part_def rfind_suffix(2) [OF colon_show_nat(1)] by simp

lemma strip_part_none: "\<not> contains_str '':part:'' base \<Longrightarrow> strip_part base = base"
  by (simp add: strip_part_def rfind_str_None [symmetric])

lemma strip_range_suffix: "strip_range (base @ '':range:'' @ show_nat s @ ''-'' @ show_nat e) = base"
proof -
  have nc: "CHR '':'' \<notin> set (show_nat s @ ''-'' @ show_nat e)" by simp
  have "is_range_suffix_body (show_nat s @ ''-'' @ show_nat e)"
    using split_once_sep [of "CHR ''-''" "show_nat s" "show_nat e"]
    by (simp add: is_range_suffix_body_def)
  then show ?thesis unfolding strip_range_def rfind_suffix(1) [OF nc] by simp
qed

lemma strip_no_range_suffix:
  assumes "\<And>h t. rfind_str '':range:'' key = Some (h, t) \<Longrightarrow> \<not> is_range_suffix_body t"
  shows "strip_range key = key"
  using assms unfolding strip_range_def by (cases "rfind_str '':range:'' key") auto

lemma colon_inject:
  assumes "a @ CHR '':'' # b = a' @ CHR '':'' # b'" "CHR '':'' \<notin> set b" "CHR '':'' \<notin> set b'"
  shows "a = a' \<and> b = b'"
  using assms rsplit_once_Some [of "CHR '':''" "a @ CHR '':'' # b"] by (metis Pair_inject option.inject)

lemma part_key_no_range_suffix:
  assumes "rfind_str '':range:'' (base @ '':part:'' @ show_nat n) = Some (h, t)"
  shows "\<not> is_range_suffix_body t"
proof
  assume "is_range_suffix_body t"
  then have "CHR '':'' \<notin> set t" by (rule range_body_no_colon)
  moreover have "(base @ '':part'') @ CHR '':'' # show_nat n = (h @ '':range'') @ CHR '':'' # t"
    using rfind_str_Some [OF assms] by simp
  ultimately have "base @ '':part'' = h @ '':range''"
    using colon_inject colon_show_nat(1) by blast
  then have "last (base @ '':part'') = last (h @ '':range'')" by (rule arg_cong)
  then show False by simp
qed

lemma generate_cache_key_append:
  "generate_cache_key (path @ CHR '':'' # t) host = generate_cache_key path host @ CHR '':'' # t"
  by (cases path) (auto simp: generate_cache_key_def normalize_cache_key_def split: option.splits)



lemma ram_range_key_inject:
  assumes "generate_ram_range_key k s e v = generate_ram_range_key k' s' e' v'"
    and "CHR '':'' \<notin> set v" "CHR '':'' \<notin> set v'"
  shows "k = k' \<and> s = s' \<and> e = e' \<and> v = v'"
proof -
  let ?a = "\<lambda>k. k @ '':range''"
  let ?b = "\<lambda>k s. ?a k @ CHR '':'' # show_nat s"
  let ?c = "\<lambda>k s e. ?b k s @ CHR '':'' # show_nat e"
  have "?c k s e @ CHR '':'' # v = ?c k' s' e' @ CHR '':'' # v'"
    using assms(1) by (simp add: generate_ram_range_key_def)
  from colon_inject [OF this assms(2,3)] have c: "?c k s e = ?c k' s' e'" "v = v'" by blast+
  from colon_inject [OF c(1) colon_show_nat(1) colon_show_nat(1)]
  have b: "?b k s = ?b k' s'" "show_nat e = show_nat e'" by blast+
  from colon_inject [OF b(1) colon_show_nat(1) colon_show_nat(1)]
  have "?a k = ?a k'" "show_nat s = show_nat s'" by blast+
  with b(2) c(2) show ?thesis using parse_show_nat_inj by auto
qed

end
