(* ===== verification/Range_Serve.thy ===== *)
theory Range_Serve
  imports Object_Version Ram_Cache Cache_Keys
begin

text \<open>
  Loading a cached range through both tiers, \<open>load_range_data_with_cache\<close> of
  \<open>src/src/cache.rs\<close>: the RAM cache, then the disk, then promotion of the range file's frames to
  RAM. This is the loader the merge of \<open>Range_Merge\<close> uses.

  Other requests, evictions and consolidations run while a response is put together. What a load
  observes of the shared disk is therefore an element of a sequence \<open>sv_obs\<close>: the answers to its
  metadata and journal reads and the range files, with no relation between one observation and the
  next. \<open>Cache_System\<close> shows that every observation of a running cache has the property used here.
\<close>

section \<open>The loader\<close>

record ServeObs =
  so_env :: LookupEnv
  so_fs :: fs
  so_now :: SystemTime
  so_now_ms :: u64
  so_unlocked :: bool
  so_eligible :: bool

record ServeEnv =
  se_blake3 :: "string \<Rightarrow> string"
  se_dec :: decoder
  se_json :: JsonCodec
  se_layout :: layout
  se_ram_cache_enabled :: bool

record ServeState =
  sv_ram :: "ShardedRamCache option"
  sv_stats :: CompressionStatsAtomic
  sv_ram_stats :: CompressionStatsAtomic
  sv_ram_cache_size :: u64
  sv_ram_cache_hit_rate :: rat
  sv_obs :: "nat \<Rightarrow> ServeObs"

definition update_ram_cache_hit_statistics :: "bool \<Rightarrow> ServeState \<Rightarrow> ServeState" where
  "update_ram_cache_hit_statistics unlocked st =
     (case sv_ram st of
        None \<Rightarrow> st
      | Some ram_cache \<Rightarrow>
          let ram_stats = ram_stats unlocked ram_cache
          in st \<lparr> sv_ram_cache_size := rst_current_size ram_stats,
                  sv_ram_cache_hit_rate := rst_hit_rate ram_stats \<rparr>)"

definition decompress_ram_cache_read ::
    "decoder \<Rightarrow> CompressionStatsAtomic \<Rightarrow> RamCacheRead \<Rightarrow> (ProxyError + string) \<times> CompressionStatsAtomic" where
  "decompress_ram_cache_read dec stats read =
     (if rd_compressed read
      then decompress_with_algorithm dec stats (rd_data read) (rd_compression_algorithm read)
      else (Inr (rd_data read), stats))"

definition ram_lookup_range ::
    "ServeEnv \<Rightarrow> ServeObs \<Rightarrow> string \<Rightarrow> ServeState \<Rightarrow> RamCacheRead option \<times> ServeState" where
  "ram_lookup_range se ob range_cache_key st =
     (if se_ram_cache_enabled se then
        (case sv_ram st of
           Some ram_cache \<Rightarrow>
             (let (read, ram_cache) =
                    ram_get (se_blake3 se) (so_now_ms ob) (so_unlocked ob) range_cache_key ram_cache
              in (read, st \<lparr> sv_ram := Some ram_cache \<rparr>))
         | None \<Rightarrow> (None, st))
      else (None, st))"

definition promoted_entry :: "ServeObs \<Rightarrow> string \<Rightarrow> Range \<Rightarrow> nat \<Rightarrow> string \<Rightarrow> CompressionAlgorithm \<Rightarrow> RamCacheEntry" where
  "promoted_entry ob range_cache_key rng data_len frame_data algorithm =
     \<lparr> re_cache_key = range_cache_key, re_data = frame_data,
       re_metadata = \<lparr> cm_etag = rg_etag rng, cm_last_modified = rg_last_modified rng,
         cm_content_length = data_len, cm_part_number = None, cm_cache_control = None,
         cm_access_count = 0, cm_last_accessed = so_now ob \<rparr>,
       re_created_at = so_now ob, re_last_accessed = so_now_ms ob, re_access_count = 1,
       re_compressed = True, re_compression_algorithm = algorithm \<rparr>"

definition promote_range ::
    "ServeEnv \<Rightarrow> ServeObs \<Rightarrow> string \<Rightarrow> string \<Rightarrow> Range \<Rightarrow> nat \<Rightarrow> ServeState \<Rightarrow> ServeState" where
  "promote_range se ob range_cache_key cache_key rng data_len st =
     (if \<not> se_ram_cache_enabled se \<or> \<not> so_eligible ob then st
      else
        (case load_range_frame_from_new_storage (se_blake3 se) (se_json se) (so_env ob)
                \<lparr> dk_fs = so_fs ob, dk_stats = sv_stats st \<rparr> cache_key rng of
           Inl e \<Rightarrow> st
         | Inr (frame_data, algorithm) \<Rightarrow>
             st \<lparr> sv_ram := map_option
                    (ram_put (se_blake3 se) (se_layout se) (so_now_ms ob)
                       (promoted_entry ob range_cache_key rng data_len frame_data algorithm))
                    (sv_ram st) \<rparr>))"

definition load_range_data_with_cache :: "ServeEnv \<Rightarrow> ServeState loader" where
  "load_range_data_with_cache se st cache_key rng =
     (let range_cache_key = generate_ram_range_key cache_key (rg_start rng) (rg_end rng) (rg_etag rng);
          ob = sv_obs st 0;
          ob' = sv_obs st 1;
          st = st \<lparr> sv_obs := (\<lambda>n. sv_obs st (n + 2)) \<rparr>
      in case ram_lookup_range se ob range_cache_key st of
           (Some ram_read, st) \<Rightarrow>
             (case decompress_ram_cache_read (se_dec se) (sv_ram_stats st) ram_read of
                (Inl e, stats) \<Rightarrow> (Inl e, st \<lparr> sv_ram_stats := stats \<rparr>)
              | (Inr data, stats) \<Rightarrow>
                  (Inr (data, True),
                   update_ram_cache_hit_statistics (so_unlocked ob) (st \<lparr> sv_ram_stats := stats \<rparr>)))
         | (None, st) \<Rightarrow>
             (case load_range_data_from_new_storage (se_blake3 se) (se_dec se) (se_json se) (so_env ob)
                     \<lparr> dk_fs = so_fs ob, dk_stats = sv_stats st \<rparr> cache_key rng of
                (Inl e, disk) \<Rightarrow> (Inl e, st \<lparr> sv_stats := dk_stats disk \<rparr>)
              | (Inr range_data, disk) \<Rightarrow>
                  (Inr (range_data, False),
                   promote_range se ob' range_cache_key cache_key rng (length range_data)
                     (st \<lparr> sv_stats := dk_stats disk \<rparr>))))"

definition remove_from_ram_cache_unified :: "ServeEnv \<Rightarrow> string \<Rightarrow> ServeState \<Rightarrow> ServeState" where
  "remove_from_ram_cache_unified se cache_key st =
     (if \<not> se_ram_cache_enabled se then st
      else
        st \<lparr> sv_ram := map_option
               (\<lambda>ram_cache.
                  snd (ram_invalidate_by_prefix (se_layout se) (cache_key @ '':range:'')
                         (ram_invalidate (se_blake3 se) (se_layout se) cache_key ram_cache)))
               (sv_ram st) \<rparr>)"

section \<open>Versions in use\<close>

text \<open>
  \<open>V\<close> is the set of object versions, key and ETag, the cache has to do with. What is assumed of
  them: no ETag contains a colon, which separates the parts of a RAM key; two versions never share
  a range file name, which holds as long as the digests that the names are made of do not collide;
  and two keys never share a metadata file.
\<close>

definition versions_ok ::
    "(string \<Rightarrow> string) \<Rightarrow> ((char \<Rightarrow> bool) \<Rightarrow> string \<Rightarrow> string) \<Rightarrow> (string \<times> string) set \<Rightarrow> bool" where
  "versions_ok blake3 pct V \<longleftrightarrow>
     (\<forall>k t. (k, t) \<in> V \<longrightarrow> CHR '':'' \<notin> set t) \<and>
     (\<forall>k t k' t' s e. (k, t) \<in> V \<longrightarrow> (k', t') \<in> V \<longrightarrow>
        get_versioned_range_file_path blake3 pct k s e t = get_versioned_range_file_path blake3 pct k' s e t' \<longrightarrow>
        k = k' \<and> t = t') \<and>
     (\<forall>k t k' t'. (k, t) \<in> V \<longrightarrow> (k', t') \<in> V \<longrightarrow>
        get_sharded_path blake3 pct k ''.meta'' = get_sharded_path blake3 pct k' ''.meta'' \<longrightarrow> k = k')"

abbreviation object_bytes :: "string \<Rightarrow> u64 \<Rightarrow> u64 \<Rightarrow> string" where
  "object_bytes \<equiv> Rust_Prelude.slice"

text \<open>A description names the file of a version of the key and of its own extent.\<close>

definition good_spec ::
    "(string \<Rightarrow> string) \<Rightarrow> ((char \<Rightarrow> bool) \<Rightarrow> string \<Rightarrow> string) \<Rightarrow> (string \<times> string) set \<Rightarrow> string \<Rightarrow>
     CacheRangeSpec \<Rightarrow> bool" where
  "good_spec blake3 pct V k r \<longleftrightarrow>
     cr_compression_algorithm r = Lz4 \<and>
     (\<exists>t. (k, t) \<in> V \<and>
        cr_file_path r = join_path (get_versioned_range_file_path blake3 pct k (cr_start r) (cr_end r) t))"

text \<open>Frames that decode to the bytes, and files that hold the bytes their names promise.\<close>

definition frames_hold :: "decoder \<Rightarrow> string \<Rightarrow> string \<Rightarrow> bool" where
  "frames_hold dec data body \<longleftrightarrow>
     (\<exists>frames. list_all (frame_of dec) frames \<and> data = concat (map fst frames) \<and> body = concat (map snd frames))"

definition files_ok ::
    "(string \<Rightarrow> string) \<Rightarrow> ((char \<Rightarrow> bool) \<Rightarrow> string \<Rightarrow> string) \<Rightarrow> decoder \<Rightarrow> (string \<Rightarrow> string \<Rightarrow> string) \<Rightarrow>
     (string \<times> string) set \<Rightarrow> fs \<Rightarrow> bool" where
  "files_ok blake3 pct dec obj V fs \<longleftrightarrow>
     (\<forall>k t s e data. (k, t) \<in> V \<longrightarrow>
        fs (''ranges'' # get_versioned_range_file_path blake3 pct k s e t) = FileBytes data \<longrightarrow>
        frames_hold dec data (object_bytes (obj k t) s e))"

text \<open>Everything a lookup can find is such a description.\<close>

definition lookup_ok ::
    "(string \<Rightarrow> string) \<Rightarrow> ((char \<Rightarrow> bool) \<Rightarrow> string \<Rightarrow> string) \<Rightarrow> JsonCodec \<Rightarrow> (string \<times> string) set \<Rightarrow>
     LookupEnv \<Rightarrow> bool" where
  "lookup_ok blake3 pct jc V env \<longleftrightarrow>
     (\<forall>k t. (k, t) \<in> V \<longrightarrow>
        (\<forall>m. get_metadata jc (le_cap env) (le_now env) (le_metadata env k) = Inr (Some m) \<longrightarrow>
           (\<forall>r \<in> set (nm_ranges m). good_spec blake3 pct V k r)) \<and>
        (\<forall>r \<in> set (pending_specs blake3 jc (le_journals env) k t). good_spec blake3 pct V k r))"

definition ram_range_ok :: "decoder \<Rightarrow> (string \<Rightarrow> string \<Rightarrow> string) \<Rightarrow> (string \<times> string) set \<Rightarrow> string \<Rightarrow>
    RamCacheRead \<Rightarrow> bool" where
  "ram_range_ok dec obj V key v \<longleftrightarrow>
     (\<forall>k t s e. (k, t) \<in> V \<longrightarrow> key = generate_ram_range_key k s e t \<longrightarrow>
        rd_compressed v \<and> rd_compression_algorithm v = Lz4 \<and> frames_hold dec (rd_data v) (object_bytes (obj k t) s e))"

definition serve_inv ::
    "ServeEnv \<Rightarrow> ((char \<Rightarrow> bool) \<Rightarrow> string \<Rightarrow> string) \<Rightarrow> (string \<Rightarrow> string \<Rightarrow> string) \<Rightarrow>
     (string \<times> string) set \<Rightarrow> ServeState \<Rightarrow> bool" where
  "serve_inv se pct obj V st \<longleftrightarrow>
     (\<forall>c. sv_ram st = Some c \<longrightarrow> ram_ok (se_blake3 se) (se_layout se) c \<and>
        (\<forall>key v. ram_view (se_blake3 se) c key = Some v \<longrightarrow> ram_range_ok (se_dec se) obj V key v)) \<and>
     (\<forall>n. lookup_ok (se_blake3 se) pct (se_json se) V (so_env (sv_obs st n)) \<and>
          files_ok (se_blake3 se) pct (se_dec se) obj V (so_fs (sv_obs st n)))"

section \<open>Descriptions and files of a version\<close>

lemma belongs_same_version:
  assumes "cr_file_path r = pre @ v' @ ''.bin''" "range_file_belongs_to r v" "length v = length v'"
  shows "v = v'"
proof -
  have stem: "strip_suffix ''.bin'' (cr_file_path r) = Some (pre @ v')"
    using assms(1) by (simp add: strip_suffix_Some)
  obtain rest where "strip_suffix v (pre @ v') = Some rest"
    using assms(2) unfolding range_file_belongs_to_def stem option.case
    by (cases "strip_suffix v (pre @ v')") simp_all
  then have "pre @ v' = rest @ v" by (simp add: strip_suffix_Some)
  then show ?thesis using assms(3) by (simp add: append_eq_append_conv)
qed

lemma versioned_path_cong:
  "object_version_id blake3 t = object_version_id blake3 t' \<Longrightarrow>
   get_versioned_range_file_path blake3 pct k s e t = get_versioned_range_file_path blake3 pct k s e t'"
  by (simp add: get_versioned_range_file_path_def versioned_range_file_path_def)

lemma good_spec_servable:
  assumes "blake3_ok blake3" "pct_ok pct" "versions_ok blake3 pct V" "good_spec blake3 pct V k r" "(k, t) \<in> V"
    and "range_file_belongs_to r (object_version_id blake3 t)"
  shows "servable_range_path blake3 r (Some (k, t)) =
    Inr (''ranges'' # get_versioned_range_file_path blake3 pct k (cr_start r) (cr_end r) t)"
proof -
  obtain t' where t': "(k, t') \<in> V"
    "cr_file_path r = join_path (get_versioned_range_file_path blake3 pct k (cr_start r) (cr_end r) t')"
    using assms(4) by (auto simp: good_spec_def)
  obtain dirs stem where p: "get_versioned_range_file_path blake3 pct k (cr_start r) (cr_end r) t' =
      dirs @ [stem @ range_suffix (cr_start r) (cr_end r) @ ''.'' @ object_version_id blake3 t' @ ''.bin'']"
    using versioned_range_file_path_shape [OF assms(1,2)] by blast
  obtain pre where "cr_file_path r = pre @ stem @ range_suffix (cr_start r) (cr_end r) @ ''.'' @
      object_version_id blake3 t' @ ''.bin''"
    using join_path_snoc unfolding t'(2) p by blast
  then have path: "cr_file_path r = (pre @ stem @ range_suffix (cr_start r) (cr_end r) @ ''.'') @
      object_version_id blake3 t' @ ''.bin''" by simp
  have len: "length (object_version_id blake3 t) = length (object_version_id blake3 t')"
    using assms(1) by (simp add: blake3_ok_def object_version_id_def)
  have "object_version_id blake3 t = object_version_id blake3 t'"
    by (rule belongs_same_version [OF path assms(6) len])
  from versioned_path_cong [OF this] have "t = t'"
    using assms(3,5) t'(1) unfolding versions_ok_def by blast
  then show ?thesis using versioned_spec_servable [OF assms(1,2)] t'(2) by simp
qed

lemma good_spec_read:
  assumes "blake3_ok blake3" "pct_ok pct" "versions_ok blake3 pct V" "good_spec blake3 pct V k r" "(k, t) \<in> V"
    and "files_ok blake3 pct dec obj V (dk_fs disk)" "read_file blake3 disk r (Some (k, t)) = Inr data"
    and "range_file_belongs_to r (object_version_id blake3 t)"
  shows "frames_hold dec data (object_bytes (obj k t) (cr_start r) (cr_end r))"
proof -
  note path = good_spec_servable [OF assms(1-5,8)]
  have "dk_fs disk (''ranges'' # get_versioned_range_file_path blake3 pct k (cr_start r) (cr_end r) t) =
      FileBytes data"
    using assms(7) unfolding read_file_def path sum.case by (simp split: FileState.splits)
  then show ?thesis using assms(5,6) unfolding files_ok_def by blast
qed

lemma frames_hold_decompress:
  assumes "frames_hold dec data body"
  shows "decompress_with_algorithm dec st data Lz4 = (Inr body, st)"
  using assms decompress_written by (auto simp: frames_hold_def decompress_with_algorithm_def)

lemma resolved_spec_good:
  assumes "lookup_ok blake3 pct jc V env" "(k, rg_etag rng) \<in> V"
    and "resolve_range_spec blake3 jc env k rng = Inr spec"
  shows "good_spec blake3 pct V k spec"
  using resolve_range_spec_Inr(4) [OF assms(3)] assms(1,2) unfolding lookup_ok_def by blast

lemma load_from_disk:
  assumes "blake3_ok blake3" "pct_ok pct" "versions_ok blake3 pct V" "(k, rg_etag rng) \<in> V"
    and "lookup_ok blake3 pct jc V env" "files_ok blake3 pct dec obj V (dk_fs disk)"
    and "load_range_data_from_new_storage blake3 dec jc env disk k rng = (Inr d, disk')"
  shows "d = object_bytes (obj k (rg_etag rng)) (rg_start rng) (rg_end rng)"
proof -
  obtain spec where spec: "resolve_range_spec blake3 jc env k rng = Inr spec"
    using assms(7) unfolding load_range_data_from_new_storage_def
    by (cases "resolve_range_spec blake3 jc env k rng") simp_all
  have load: "read_range_data blake3 dec disk spec (Some (k, rg_etag rng)) = (Inr d, disk')"
    using assms(7) unfolding load_range_data_from_new_storage_def spec
    by (simp add: load_range_data_for_version_def)
  note r = resolve_range_spec_Inr(1-3) [OF spec]
  note good = resolved_spec_good [OF assms(5,4) spec]
  obtain data where data: "read_file blake3 disk spec (Some (k, rg_etag rng)) = Inr data"
    using load unfolding read_range_data_def
    by (cases "read_file blake3 disk spec (Some (k, rg_etag rng))") simp_all
  from good_spec_read [OF assms(1-3) good assms(4,6) data r(3)]
  have "decompress_with_algorithm dec (dk_stats disk) data Lz4 =
      (Inr (object_bytes (obj k (rg_etag rng)) (rg_start rng) (rg_end rng)), dk_stats disk)"
    unfolding r(1,2) by (rule frames_hold_decompress)
  moreover have "cr_compression_algorithm spec = Lz4" using good by (simp add: good_spec_def)
  ultimately show ?thesis
    using load unfolding read_range_data_def data by (simp add: Let_def split: if_splits)
qed

lemma load_frames:
  assumes "blake3_ok blake3" "pct_ok pct" "versions_ok blake3 pct V" "(k, rg_etag rng) \<in> V"
    and "lookup_ok blake3 pct jc V env" "files_ok blake3 pct dec obj V (dk_fs disk)"
    and "load_range_frame_from_new_storage blake3 jc env disk k rng = Inr (data, alg)"
  shows "alg = Lz4" "frames_hold dec data (object_bytes (obj k (rg_etag rng)) (rg_start rng) (rg_end rng))"
proof -
  obtain spec where spec: "resolve_range_spec blake3 jc env k rng = Inr spec"
    using assms(7) unfolding load_range_frame_from_new_storage_def
    by (cases "resolve_range_spec blake3 jc env k rng") simp_all
  have load: "read_range_frame blake3 disk spec (Some (k, rg_etag rng)) = Inr (data, alg)"
    using assms(7) unfolding load_range_frame_from_new_storage_def spec by simp
  note r = resolve_range_spec_Inr(1-3) [OF spec]
  note good = resolved_spec_good [OF assms(5,4) spec]
  have data: "read_file blake3 disk spec (Some (k, rg_etag rng)) = Inr data" "alg = cr_compression_algorithm spec"
    using load unfolding read_range_frame_def
    by (cases "read_file blake3 disk spec (Some (k, rg_etag rng))"; simp)+
  show "alg = Lz4" using good data(2) by (simp add: good_spec_def)
  from good_spec_read [OF assms(1-3) good assms(4,6) data(1) r(3)]
  show "frames_hold dec data (object_bytes (obj k (rg_etag rng)) (rg_start rng) (rg_end rng))" unfolding r(1,2) .
qed

section \<open>The loader keeps its contract\<close>

definition serving ::
    "ServeEnv \<Rightarrow> ((char \<Rightarrow> bool) \<Rightarrow> string \<Rightarrow> string) \<Rightarrow> (string \<Rightarrow> string \<Rightarrow> string) \<Rightarrow>
     (string \<times> string) set \<Rightarrow> ServeState \<Rightarrow> bool" where
  "serving se pct obj V st \<longleftrightarrow>
     blake3_ok (se_blake3 se) \<and> pct_ok pct \<and> versions_ok (se_blake3 se) pct V \<and> serve_inv se pct obj V st"

lemma serve_inv_cong:
  assumes "serve_inv se pct obj V st" "sv_ram st' = sv_ram st" "sv_obs st' = sv_obs st"
  shows "serve_inv se pct obj V st'"
  using assms by (simp add: serve_inv_def)

lemma serve_inv_shift:
  "serve_inv se pct obj V st \<Longrightarrow> serve_inv se pct obj V (st \<lparr> sv_obs := (\<lambda>n. sv_obs st (n + 2)) \<rparr>)"
  by (simp add: serve_inv_def)

lemma serve_inv_ram:
  assumes "serve_inv se pct obj V st" "ram_ok (se_blake3 se) (se_layout se) c"
    and "\<forall>key v. ram_view (se_blake3 se) c key = Some v \<longrightarrow> ram_range_ok (se_dec se) obj V key v"
  shows "serve_inv se pct obj V (st \<lparr> sv_ram := Some c \<rparr>)"
  using assms by (simp add: serve_inv_def)

lemma ram_lookup_range_ok:
  assumes "serve_inv se pct obj V st" "ram_lookup_range se ob key st = (res, st')"
  shows "serve_inv se pct obj V st'" "res = Some v \<Longrightarrow> ram_range_ok (se_dec se) obj V key v"
proof -
  have "serve_inv se pct obj V st' \<and> (\<forall>v. res = Some v \<longrightarrow> ram_range_ok (se_dec se) obj V key v)"
  proof (cases "se_ram_cache_enabled se \<and> sv_ram st \<noteq> None")
    case False
    then show ?thesis using assms by (auto simp: ram_lookup_range_def split: if_splits)
  next
    case True
    then obtain c where c: "sv_ram st = Some c" by blast
    obtain r c' where get: "ram_get (se_blake3 se) (so_now_ms ob) (so_unlocked ob) key c = (r, c')" by fastforce
    have res: "res = r" "st' = st \<lparr> sv_ram := Some c' \<rparr>"
      using assms(2) True c get by (auto simp: ram_lookup_range_def)
    have "ram_ok (se_blake3 se) (se_layout se) c"
      "\<forall>key v. ram_view (se_blake3 se) c key = Some v \<longrightarrow> ram_range_ok (se_dec se) obj V key v"
      using assms(1) c by (auto simp: serve_inv_def)
    from ram.get_good [OF this get] show ?thesis
      unfolding res using serve_inv_ram [OF assms(1)] by blast
  qed
  then show "serve_inv se pct obj V st'" "res = Some v \<Longrightarrow> ram_range_ok (se_dec se) obj V key v" by blast+
qed

lemma promote_range_ok:
  assumes "serving se pct obj V st" "(k, rg_etag rng) \<in> V"
    and "lookup_ok (se_blake3 se) pct (se_json se) V (so_env ob)" "files_ok (se_blake3 se) pct (se_dec se) obj V (so_fs ob)"
  shows "serve_inv se pct obj V (promote_range se ob
    (generate_ram_range_key k (rg_start rng) (rg_end rng) (rg_etag rng)) k rng n st)"
proof -
  let ?key = "generate_ram_range_key k (rg_start rng) (rg_end rng) (rg_etag rng)"
  let ?disk = "\<lparr> dk_fs = so_fs ob, dk_stats = sv_stats st \<rparr>"
  have crates: "blake3_ok (se_blake3 se)" "pct_ok pct" "versions_ok (se_blake3 se) pct V"
    and inv: "serve_inv se pct obj V st" using assms(1) by (simp_all add: serving_def)
  have files: "files_ok (se_blake3 se) pct (se_dec se) obj V (dk_fs ?disk)" using assms(4) by simp
  show ?thesis
  proof (cases "\<not> se_ram_cache_enabled se \<or> \<not> so_eligible ob")
    case True
    then show ?thesis using inv by (simp add: promote_range_def)
  next
    case on: False
    show ?thesis
    proof (cases "load_range_frame_from_new_storage (se_blake3 se) (se_json se) (so_env ob) ?disk k rng")
      case (Inl e)
      then show ?thesis using on inv by (simp add: promote_range_def)
    next
      case (Inr fa)
      obtain data alg where fa: "fa = (data, alg)" by fastforce
      note f = load_frames [OF crates assms(2,3) files Inr [unfolded fa]]
      let ?e = "promoted_entry ob ?key rng n data alg"
      show ?thesis
      proof (cases "sv_ram st")
        case None
        then show ?thesis using on Inr fa inv by (simp add: promote_range_def serve_inv_def)
      next
        case (Some c)
        have c: "ram_ok (se_blake3 se) (se_layout se) c"
          "\<forall>key v. ram_view (se_blake3 se) c key = Some v \<longrightarrow> ram_range_ok (se_dec se) obj V key v"
          using inv Some by (auto simp: serve_inv_def)
        have colon: "\<And>k t. (k, t) \<in> V \<Longrightarrow> CHR '':'' \<notin> set t" using crates(3) by (auto simp: versions_ok_def)
        have "ram_range_ok (se_dec se) obj V (re_cache_key ?e) (read_of ?e)"
          unfolding ram_range_ok_def
        proof (intro allI impI)
          fix k' t' s' e' assume "(k', t') \<in> V" "re_cache_key ?e = generate_ram_range_key k' s' e' t'"
          then have "k = k' \<and> rg_start rng = s' \<and> rg_end rng = e' \<and> rg_etag rng = t'"
            using ram_range_key_inject [of k "rg_start rng" "rg_end rng" "rg_etag rng" k' s' e' t'] colon assms(2)
            by (simp add: promoted_entry_def)
          then show "rd_compressed (read_of ?e) \<and> rd_compression_algorithm (read_of ?e) = Lz4 \<and>
              frames_hold (se_dec se) (rd_data (read_of ?e)) (object_bytes (obj k' t') s' e')"
            using f by (simp add: promoted_entry_def read_of_def)
        qed
        from ram.put_good [OF c this, where now' = "so_now_ms ob"]
        show ?thesis using on Inr fa Some serve_inv_ram [OF inv] by (simp add: promote_range_def)
      qed
    qed
  qed
qed

lemma load_with_cache_ok:
  assumes "serving se pct obj V st" "load_range_data_with_cache se st k rng = (res, st')" "(k, rg_etag rng) \<in> V"
  shows "serve_inv se pct obj V st'"
    "res = Inr (d, h) \<Longrightarrow> d = object_bytes (obj k (rg_etag rng)) (rg_start rng) (rg_end rng)"
proof -
  let ?key = "generate_ram_range_key k (rg_start rng) (rg_end rng) (rg_etag rng)"
  let ?body = "object_bytes (obj k (rg_etag rng)) (rg_start rng) (rg_end rng)"
  define st1 where "st1 = st \<lparr> sv_obs := (\<lambda>n. sv_obs st (n + 2)) \<rparr>"
  have crates: "blake3_ok (se_blake3 se)" "pct_ok pct" "versions_ok (se_blake3 se) pct V"
    and inv: "serve_inv se pct obj V st" using assms(1) by (simp_all add: serving_def)
  have inv1: "serve_inv se pct obj V st1" unfolding st1_def by (rule serve_inv_shift [OF inv])
  have obs: "lookup_ok (se_blake3 se) pct (se_json se) V (so_env (sv_obs st n))"
    "files_ok (se_blake3 se) pct (se_dec se) obj V (so_fs (sv_obs st n))" for n
    using inv by (auto simp: serve_inv_def)
  obtain read st2 where ram: "ram_lookup_range se (sv_obs st 0) ?key st1 = (read, st2)" by fastforce
  note r = ram_lookup_range_ok [OF inv1 ram]
  have "serve_inv se pct obj V st' \<and> (\<forall>d h. res = Inr (d, h) \<longrightarrow> d = ?body)"
  proof (cases read)
    case (Some v)
    have v: "rd_compressed v" "rd_compression_algorithm v = Lz4" "frames_hold (se_dec se) (rd_data v) ?body"
      using r(2) [OF Some] assms(3) unfolding ram_range_ok_def by blast+
    have "decompress_ram_cache_read (se_dec se) (sv_ram_stats st2) v = (Inr ?body, sv_ram_stats st2)"
      using v frames_hold_decompress [OF v(3)] by (simp add: decompress_ram_cache_read_def)
    then have "res = Inr (?body, True)" "st' = update_ram_cache_hit_statistics (so_unlocked (sv_obs st 0)) st2"
      using assms(2) ram Some by (auto simp: load_range_data_with_cache_def Let_def st1_def)
    moreover have "serve_inv se pct obj V (update_ram_cache_hit_statistics u st2)" for u
      by (rule serve_inv_cong [OF r(1)])
        (simp_all add: update_ram_cache_hit_statistics_def Let_def split: option.split)
    ultimately show ?thesis by simp
  next
    case None
    let ?disk = "\<lparr> dk_fs = so_fs (sv_obs st 0), dk_stats = sv_stats st2 \<rparr>"
    have files: "files_ok (se_blake3 se) pct (se_dec se) obj V (dk_fs ?disk)" using obs by simp
    obtain lr disk where load: "load_range_data_from_new_storage (se_blake3 se) (se_dec se) (se_json se)
        (so_env (sv_obs st 0)) ?disk k rng = (lr, disk)" by fastforce
    have inv3: "serve_inv se pct obj V (st2 \<lparr> sv_stats := dk_stats disk \<rparr>)"
      by (rule serve_inv_cong [OF r(1)]) simp_all
    show ?thesis
    proof (cases lr)
      case (Inl e)
      then have "res = Inl e" "st' = st2 \<lparr> sv_stats := dk_stats disk \<rparr>"
        using assms(2) ram None load by (auto simp: load_range_data_with_cache_def Let_def st1_def)
      then show ?thesis using inv3 by simp
    next
      case (Inr data)
      then have "res = Inr (data, False)" "st' = promote_range se (sv_obs st 1) ?key k rng (length data)
          (st2 \<lparr> sv_stats := dk_stats disk \<rparr>)"
        using assms(2) ram None load by (auto simp: load_range_data_with_cache_def Let_def st1_def)
      moreover have "data = ?body"
        by (rule load_from_disk [OF crates assms(3) obs(1) files load [unfolded Inr]])
      moreover have "serving se pct obj V (st2 \<lparr> sv_stats := dk_stats disk \<rparr>)"
        using crates inv3 by (simp add: serving_def)
      ultimately show ?thesis using promote_range_ok [OF _ assms(3) obs(1) obs(2)] by simp
    qed
  qed
  then show "serve_inv se pct obj V st'"
    "res = Inr (d, h) \<Longrightarrow> d = object_bytes (obj k (rg_etag rng)) (rg_start rng) (rg_end rng)" by blast+
qed

interpretation serve: range_loader "load_range_data_with_cache se" "serving se pct obj V" obj "\<lambda>k t. (k, t) \<in> V"
  for se pct obj V
proof
  fix s k r res s'
  assume a: "serving se pct obj V s" "load_range_data_with_cache se s k r = (res, s')" "(k, rg_etag r) \<in> V"
  then show "serving se pct obj V s'" using load_with_cache_ok(1) [OF a] by (simp add: serving_def)
next
  fix s k r d h s'
  assume "serving se pct obj V s" "load_range_data_with_cache se s k r = (Inr (d, h), s')" "(k, rg_etag r) \<in> V"
  then show "d = object_bytes (obj k (rg_etag r)) (rg_start r) (rg_end r)" using load_with_cache_ok(2) by blast
qed

end
