(* ===== verification/Cache_System.thy ===== *)
theory Cache_System
  imports Range_Serve
begin

text \<open>
  The running disk cache as a transition system: range writers of \<open>src/src/disk_cache.rs\<close> that are
  opened, fed, aborted and committed, consolidation of \<open>src/src/journal_consolidator.rs\<close>, and
  removals, in any order and interleaving. The invariant is that every range file holds the bytes
  its name promises and that metadata and journals name only such files. With the loader of
  \<open>Range_Serve\<close> and the merge of \<open>Range_Merge\<close> it gives the correctness of a cached response.
\<close>

section \<open>Names of range files\<close>

lemma last_sep_inject:
  assumes "a @ (c :: char) # b = a' @ c # b'" "c \<notin> set b" "c \<notin> set b'"
  shows "a = a' \<and> b = b'"
  using assms rsplit_once_Some [of c "a @ c # b"] by (metis Pair_inject option.inject)

lemma range_suffix_inject:
  assumes "a @ range_suffix s e = b @ range_suffix s' e'"
  shows "a = b \<and> s = s' \<and> e = e'"
proof -
  have "(a @ ''_'' @ show_nat s) @ CHR ''-'' # show_nat e = (b @ ''_'' @ show_nat s') @ CHR ''-'' # show_nat e'"
    using assms by (simp add: range_suffix_def)
  from last_sep_inject [OF this] have 1: "a @ CHR ''_'' # show_nat s = b @ CHR ''_'' # show_nat s'"
    "show_nat e = show_nat e'" by simp_all
  have us: "CHR ''_'' \<notin> set (show_nat n)" for n by (rule show_nat_notin) simp
  from last_sep_inject [OF 1(1) us us] 1(2) show ?thesis using parse_show_nat_inj by blast
qed

lemma versioned_path_extent:
  assumes "blake3_ok blake3" "pct_ok pct"
    and "get_versioned_range_file_path blake3 pct k s e t = get_versioned_range_file_path blake3 pct k' s' e' t'"
  shows "s = s' \<and> e = e'"
proof -
  obtain dirs stem where p: "get_versioned_range_file_path blake3 pct k s e t =
       dirs @ [stem @ range_suffix s e @ ''.'' @ object_version_id blake3 t @ ''.bin'']"
    using versioned_range_file_path_shape [OF assms(1,2)] by blast
  obtain dirs' stem' where p': "get_versioned_range_file_path blake3 pct k' s' e' t' =
       dirs' @ [stem' @ range_suffix s' e' @ ''.'' @ object_version_id blake3 t' @ ''.bin'']"
    using versioned_range_file_path_shape [OF assms(1,2)] by blast
  have "length (object_version_id blake3 t) = length (object_version_id blake3 t')"
    using assms(1) by (simp add: blake3_ok_def object_version_id_def)
  moreover have "(stem @ range_suffix s e) @ ''.'' @ object_version_id blake3 t @ ''.bin'' =
      (stem' @ range_suffix s' e') @ ''.'' @ object_version_id blake3 t' @ ''.bin''"
    using assms(3) unfolding p p' by simp
  ultimately have "stem @ range_suffix s e = stem' @ range_suffix s' e'"
    by (subst (asm) append_eq_append_conv) auto
  from range_suffix_inject [OF this] show ?thesis by blast
qed

lemma versioned_path_unique:
  assumes "blake3_ok blake3" "pct_ok pct" "versions_ok blake3 pct V" "(k, t) \<in> V" "(k', t') \<in> V"
    and "get_versioned_range_file_path blake3 pct k s e t = get_versioned_range_file_path blake3 pct k' s' e' t'"
  shows "k = k' \<and> t = t' \<and> s = s' \<and> e = e'"
  using versioned_path_extent [OF assms(1,2,6)] assms(3-6) unfolding versions_ok_def by blast

lemma good_spec_path:
  assumes "blake3_ok blake3" "pct_ok pct" "good_spec blake3 pct V k r"
  shows "\<not> ends_with ''.tmp'' (last (spec_path r))"
proof -
  obtain t where t: "cr_file_path r = join_path (get_versioned_range_file_path blake3 pct k (cr_start r) (cr_end r) t)"
    using assms(3) by (auto simp: good_spec_def)
  have "path_components (cr_file_path r) = get_versioned_range_file_path blake3 pct k (cr_start r) (cr_end r) t"
    unfolding t using versioned_path_safe [OF assms(1,2)]
    by (intro path_components_join) (auto simp: list_all_iff safe_component_def)
  then show ?thesis using bin_not_tmp [OF assms(1,2)] by metis
qed

lemma good_spec_same_file: "same_file r r' \<Longrightarrow> good_spec blake3 pct V k r' \<Longrightarrow> good_spec blake3 pct V k r"
  by (simp add: good_spec_def same_file_def)

lemma published_spec_good:
  assumes "(k, t) \<in> V"
  shows "good_spec blake3 pct V k (CacheRangeSpec_new now s e
    (join_path (get_versioned_range_file_path blake3 pct k s e t)) Lz4 n m)"
  using assms by (auto simp: good_spec_def CacheRangeSpec_new_def)

section \<open>What the operations change\<close>

lemma finalize_frame:
  assumes "finalize_incremental_range blake3 pct xxh32 enc io now w disk ratio etag = (res, disk')"
    and "p \<noteq> iw_tmp_path w" "\<And>s e. p \<noteq> ''ranges'' # get_versioned_range_file_path blake3 pct (iw_cache_key w) s e etag"
  shows "dk_fs disk' p = dk_fs disk p"
proof -
  obtain f w1 d1 where fl: "(if iw_batch_buf w \<noteq> [] then flush_batch xxh32 enc io w disk
      else (Inr (), w, disk)) = (f, w1, d1)" by (metis prod_cases3)
  have w1: "iw_tmp_path w1 = iw_tmp_path w" "iw_cache_key w1 = iw_cache_key w" "dk_fs d1 p = dk_fs disk p"
    using fl assms(2) flush_batch_frame [of xxh32 enc io w disk f w1 d1] by (auto split: if_splits)
  have abort: "dk_fs (abort_incremental_range io w2 d2) p = dk_fs d2 p" if "iw_tmp_path w2 = iw_tmp_path w" for w2 d2
    using that assms(2) by (simp add: abort_incremental_range_def remove_file_def)
  have pub: "dk_fs d3 p = dk_fs d1 p"
    if "publish_range blake3 pct io now w2 d1 etag = (r, d3)" "iw_tmp_path w2 = iw_tmp_path w"
      "iw_cache_key w2 = iw_cache_key w" for w2 r d3
    using that(1) abort [OF that(2)] assms(2,3) that(2,3)
    by (auto simp: publish_range_def Let_def split: option.splits)
  show ?thesis
    using assms(1) w1 abort [of w1 d1] pub [of w1] pub [of "w1 \<lparr> iw_end := n \<rparr>" for n]
    unfolding finalize_incremental_range_def fl
    by (auto simp: Let_def split: sum.splits if_splits)
qed

lemma finalize_failed_frame:
  assumes "finalize_incremental_range blake3 pct xxh32 enc io now w disk ratio etag = (Inl err, disk')"
    and "p \<noteq> iw_tmp_path w"
  shows "dk_fs disk' p = dk_fs disk p"
proof -
  obtain f w1 d1 where fl: "(if iw_batch_buf w \<noteq> [] then flush_batch xxh32 enc io w disk
      else (Inr (), w, disk)) = (f, w1, d1)" by (metis prod_cases3)
  have w1: "iw_tmp_path w1 = iw_tmp_path w" "dk_fs d1 p = dk_fs disk p"
    using fl assms(2) flush_batch_frame [of xxh32 enc io w disk f w1 d1] by (auto split: if_splits)
  have abort: "dk_fs (abort_incremental_range io w2 d2) p = dk_fs d2 p" if "iw_tmp_path w2 = iw_tmp_path w" for w2 d2
    using that assms(2) by (simp add: abort_incremental_range_def remove_file_def)
  have pub: "dk_fs d3 p = dk_fs d1 p"
    if "publish_range blake3 pct io now w2 d1 etag = (Inl err, d3)" "iw_tmp_path w2 = iw_tmp_path w" for w2 d3
    using that(1) abort [OF that(2)] by (auto simp: publish_range_def Let_def split: option.splits)
  show ?thesis
    using assms(1) w1 abort [of w1 d1] pub [of w1] pub [of "w1 \<lparr> iw_end := n \<rparr>" for n]
    unfolding finalize_incremental_range_def fl
    by (auto simp: Let_def split: sum.splits if_splits)
qed

text \<open>An append adds at most the entries appended, whatever fails.\<close>

lemma dir_entries_iff: "e \<in># dir_entries js k dir \<longleftrightarrow> (\<exists>x \<in> set dir. e \<in># journal_entries js k x)"
  by (induction dir) (auto simp: dir_entries_def)

lemma line_entry_key: "line_entry js k line = Some e \<Longrightarrow> je_cache_key e = k"
  by (auto simp: line_entry_def split: if_splits option.splits)

lemma dir_entries_key: "e \<in># dir_entries js k dir \<Longrightarrow> je_cache_key e = k"
  by (auto simp: dir_entries_iff journal_entries_def List.map_filter_def split: if_splits)
    (erule line_entry_key)

lemma set_alist_update: "set (AList.update k v xs) \<subseteq> insert (k, v) (set xs)"
  by (induction xs) auto

lemma dir_entries_update:
  "e \<in># dir_entries js k (AList.update name c dir) \<Longrightarrow>
   e \<in># dir_entries js k dir \<or> e \<in># journal_entries js k (name, c)"
  using set_alist_update [of name c dir] by (auto simp: dir_entries_iff)

definition primary_terminated :: "string \<Rightarrow> journal_dir \<Rightarrow> bool" where
  "primary_terminated i dir \<longleftrightarrow> (\<forall>c. map_of dir (primary_journal i) = Some c \<longrightarrow> terminated c)"

definition journal_grows :: "JournalCodec \<Rightarrow> string \<Rightarrow> (JournalEntry \<Rightarrow> bool) \<Rightarrow> journal_dir \<Rightarrow> journal_dir \<Rightarrow> bool" where
  "journal_grows js i P dir dir' \<longleftrightarrow>
     (primary_terminated i dir \<longrightarrow> primary_terminated i dir' \<and>
        (\<forall>k e. e \<in># dir_entries js k dir' \<longrightarrow> e \<in># dir_entries js k dir \<or> P e))"

lemma journal_grows_refl [simp]: "journal_grows js i P dir dir"
  by (simp add: journal_grows_def)

lemma journal_grows_trans:
  "journal_grows js i P a b \<Longrightarrow> journal_grows js i P b c \<Longrightarrow> journal_grows js i P a c"
  unfolding journal_grows_def by blast

lemma append_lines_grows:
  assumes "journal_codec_ok js" "shown js entries ls" "\<forall>e \<in> set entries. P e"
    and "append_lines io i (unlines ls) dir = (res, dir')"
  shows "journal_grows js i P dir dir'"
  unfolding journal_grows_def
proof (intro impI conjI allI)
  assume ready: "primary_terminated i dir"
  define old where "old = (case map_of dir (primary_journal i) of None \<Rightarrow> []
    | Some c \<Rightarrow> if ji_read io = None then c else [])"
  consider (same) "dir' = dir"
    | (primary) "dir' = AList.update (primary_journal i) (old @ unlines ls) dir"
    | (fresh) n where "dir' = AList.update (fresh_journal i (ji_nanos io)) (take n (unlines ls)) dir"
  proof (cases "dir' = dir")
    case False
    then show thesis
      using assms(4) primary fresh [of "length (unlines ls)"] fresh
      by (auto simp: append_lines_def Let_def old_def split: option.splits if_splits prod.splits)
  qed (use same in blast)
  note cases = this
  have old: "terminated old" "\<And>k e. e \<in> set (line_entries js k old) \<Longrightarrow> e \<in># dir_entries js k dir"
  proof -
    have "old = [] \<or> map_of dir (primary_journal i) = Some old" by (auto simp: old_def split: option.split)
    moreover have "line_entries js k [] = []" for k by (simp add: str_lines_def map_filter_def)
    moreover have "terminated []" by (simp add: terminated_def)
    moreover have "e \<in># dir_entries js k dir"
      if "map_of dir (primary_journal i) = Some old" "e \<in> set (line_entries js k old)" for k e
      using map_of_SomeD [OF that(1)] that(2) journal_names(1)
      by (force simp: dir_entries_iff journal_entries_def)
    ultimately show "terminated old" "\<And>k e. e \<in> set (line_entries js k old) \<Longrightarrow> e \<in># dir_entries js k dir"
      using ready by (auto simp: primary_terminated_def)
  qed
  have new: "set (line_entries js k (take n (unlines ls))) \<subseteq> set entries" for k n
  proof -
    obtain m where "line_entries js k (take n (unlines ls)) = of_key k (take m entries)"
      using written_entries [OF assms(1,2)] by blast
    then show ?thesis by (auto dest: in_set_takeD)
  qed
  show "primary_terminated i dir'"
    using cases
  proof cases
    case primary
    then show ?thesis
      using terminated_append [OF old(1) terminated_unlines] by (auto simp: primary_terminated_def update_conv)
  next
    case fresh
    then show ?thesis
      using ready primary_not_fresh [of i] by (simp add: primary_terminated_def update_conv)
  qed (use ready in simp)
  fix k e assume e: "e \<in># dir_entries js k dir'"
  show "e \<in># dir_entries js k dir \<or> P e"
    using cases
  proof cases
    case same
    then show ?thesis using e by simp
  next
    case primary
    have "line_entries js k (old @ unlines ls) = line_entries js k old @ line_entries js k (unlines ls)"
      by (simp add: str_lines_append [OF old(1)] map_filter_def)
    then have "set (line_entries js k (old @ unlines ls)) \<subseteq> set (line_entries js k old) \<union> set entries"
      using new [of k "length (unlines ls)"] by auto
    then show ?thesis
      using dir_entries_update [OF e [unfolded primary]] old(2) assms(3)
      by (auto simp: journal_entries_def split: if_splits)
  next
    case (fresh n)
    then show ?thesis
      using dir_entries_update [OF e [unfolded fresh]] new [of k n] assms(3)
      by (auto simp: journal_entries_def split: if_splits)
  qed
qed

lemma append_batch_grows:
  assumes "journal_codec_ok js" "\<forall>e \<in> set entries. P e"
    and "append_range_entries_batch js io i entries dir = (res, dir')"
  shows "journal_grows js i P dir dir'"
proof (cases "\<exists>ls. shown js entries ls \<and> append_lines io i (unlines ls) dir = (res, dir')")
  case True
  then show ?thesis using append_lines_grows [OF assms(1) _ assms(2)] by blast
next
  case False
  then have "dir' = dir"
    using assms(3) serialize_entries_shown
    by (auto simp: append_range_entries_batch_def split: if_splits option.splits sum.splits)
  then show ?thesis by simp
qed

lemma group_entries_members:
  "(k, es) \<in> set (group_entries entries) \<Longrightarrow> set es \<subseteq> set entries"
proof -
  have "\<forall>(k, es) \<in> set (fold (\<lambda>entry grouped. AList.update (je_cache_key entry)
      ((case map_of grouped (je_cache_key entry) of Some es \<Rightarrow> es | None \<Rightarrow> []) @ [entry]) grouped) entries acc).
      set es \<subseteq> A \<union> set entries"
    if "\<forall>(k, es) \<in> set acc. set es \<subseteq> A" for acc A
    using that
  proof (induction entries arbitrary: acc A)
    case (Cons x xs)
    let ?acc = "AList.update (je_cache_key x)
      ((case map_of acc (je_cache_key x) of Some es \<Rightarrow> es | None \<Rightarrow> []) @ [x]) acc"
    have "\<forall>(k, es) \<in> set ?acc. set es \<subseteq> insert x A"
      using Cons.prems set_alist_update [of "je_cache_key x" _ acc]
      by (fastforce split: option.splits dest: map_of_SomeD)
    from Cons.IH [OF this] show ?case by simp
  qed simp
  from this [of "[]" "{}"] show "(k, es) \<in> set (group_entries entries) \<Longrightarrow> set es \<subseteq> set entries"
    by (auto simp: group_entries_def)
qed

lemma eviction_grows:
  assumes "journal_codec_ok (we_journal we)"
  shows "journal_grows (we_journal we) (we_instance we) (\<lambda>e. je_operation e = Remove) dir
    (write_eviction_journal_entries we ios now rs dir)"
proof -
  have "journal_grows (we_journal we) (we_instance we) (\<lambda>e. je_operation e = Remove) dir
      (fold (\<lambda>(k, es) dir. snd (append_range_entries_batch (we_journal we) (ios k) (we_instance we) es dir))
        groups dir)"
    if "\<forall>(k, es) \<in> set groups. \<forall>e \<in> set es. je_operation e = Remove" for groups
    using that
  proof (induction groups arbitrary: dir)
    case (Cons g gs)
    obtain k es where g: "g = (k, es)" by fastforce
    have "journal_grows (we_journal we) (we_instance we) (\<lambda>e. je_operation e = Remove) dir
        (snd (append_range_entries_batch (we_journal we) (ios k) (we_instance we) es dir))"
      using append_batch_grows [OF assms _ surjective_pairing] Cons.prems g by auto
    from journal_grows_trans [OF this Cons.IH] Cons.prems g show ?case by simp
  qed simp
  moreover have "\<forall>(k, es) \<in> set (group_entries (map (eviction_entry now (we_instance we)) rs)).
      \<forall>e \<in> set es. je_operation e = Remove"
    using group_entries_members by (fastforce simp: eviction_entry_def split: prod.splits)
  ultimately show ?thesis by (simp add: write_eviction_journal_entries_def)
qed

lemma retire_grows:
  assumes "journal_codec_ok (we_journal ve)" "retire_object_version ve io key cached st = (res, st')"
  shows "journal_grows (we_journal ve) (we_instance ve) (\<lambda>e. je_operation e = Remove) (ms_journals st) (ms_journals st')"
proof -
  obtain removed failure fs where r: "retire_ranges (ve_dbg ve) (vi_unlink io) key (nm_ranges cached)
      (dk_fs (cs_disk st)) = (removed, failure, fs)" by (metis prod_cases3)
  show ?thesis
    using assms(2) eviction_grows [OF assms(1)] by (auto simp: retire_object_version_def r Let_def)
qed

text \<open>A claim: at most an empty identity is written, and only removal entries are appended.\<close>

definition claimed :: "'a VersionEnv_scheme \<Rightarrow> string \<Rightarrow> CacheStore \<Rightarrow> CacheStore \<Rightarrow> bool" where
  "claimed ve key st st' \<longleftrightarrow>
     (ms_metadata st' = ms_metadata st \<or>
      (\<exists>p m. writer_metadata_path ve key = Inr p \<and> nm_ranges m = [] \<and> nm_cache_key m = key \<and>
         ms_metadata st' = (ms_metadata st)(p := Some m))) \<and>
     journal_grows (we_journal ve) (we_instance ve) (\<lambda>e. je_operation e = Remove) (ms_journals st) (ms_journals st')"

lemma prepare_claimed:
  assumes "journal_codec_ok (we_journal ve)" "prepare_object_version ve io key ob ttl st = Some (res, st')"
  shows "claimed ve key st st'"
  using assms(2)
proof (cases rule: prepare_cases)
  case (replaced cached st1)
  show ?thesis
    using retire_grows [OF assms(1) replaced(4)] retire_object_version_effect(4) [OF replaced(4)]
      write_identity_effect(2,5) [OF replaced(5)] by (auto simp: claimed_def)
next
  case (stuck cached e)
  then show ?thesis
    using retire_grows [OF assms(1) stuck(4)] retire_object_version_effect(4) [OF stuck(4)]
    by (simp add: claimed_def)
next
  case new
  then show ?thesis using write_identity_effect(2,5) [OF new(3)] by (auto simp: claimed_def)
qed (simp add: claimed_def)

lemma claim_claimed:
  assumes "journal_codec_ok (we_journal ve)" "claim_object_version ve io key ob ttl st = Some (res, st')"
  shows "claimed ve key st st'"
proof -
  define st0 where "st0 = st \<lparr> cs_confirmed := cv_gate key (cs_confirmed st) \<rparr>"
  have "(ms_metadata st' = ms_metadata st \<and> ms_journals st' = ms_journals st) \<or>
    (\<exists>r st1. prepare_object_version ve io key ob ttl st0 = Some (r, st1) \<and> ms_metadata st' = ms_metadata st1 \<and>
       ms_journals st' = ms_journals st1)"
  proof (cases "cv_contains key (om_etag ob) (cs_confirmed st)")
    case True
    then show ?thesis using assms by (simp add: claim_object_version_def)
  next
    case False
    then show ?thesis
      using assms(2)
      by (auto simp: claim_object_version_def Let_def st0_def split: option.splits sum.splits prod.splits)
  qed
  then show ?thesis
  proof
    assume "\<exists>r st1. prepare_object_version ve io key ob ttl st0 = Some (r, st1) \<and> ms_metadata st' = ms_metadata st1 \<and>
       ms_journals st' = ms_journals st1"
    then obtain r st1 where "prepare_object_version ve io key ob ttl st0 = Some (r, st1)"
      "ms_metadata st' = ms_metadata st1" "ms_journals st' = ms_journals st1" by blast
    then show ?thesis using prepare_claimed [OF assms(1)] by (fastforce simp: claimed_def st0_def)
  qed (simp add: claimed_def)
qed

lemma write_journal_only_grows:
  assumes "journal_codec_ok (we_journal we)"
    and "write_journal_only we io key spec obj ttl (st :: 'b MetadataStore_scheme) = (res, st')"
  shows "journal_grows (we_journal we) (we_instance we) (\<lambda>e. e = add_entry we io key spec obj ttl)
      (ms_journals st) (ms_journals st')" "ms_metadata st' = ms_metadata st"
proof -
  obtain r dir where a: "append_range_entries_batch (we_journal we) (wi_journal io) (we_instance we)
      [add_entry we io key spec obj ttl] (ms_journals st) = (r, dir)" by fastforce
  then have "ms_journals st' = dir" "ms_metadata st' = ms_metadata st"
    using assms(2) by (cases r; auto simp: write_journal_only_def append_to_journals_def append_range_entry_batch)+
  then show "journal_grows (we_journal we) (we_instance we) (\<lambda>e. e = add_entry we io key spec obj ttl)
      (ms_journals st) (ms_journals st')" "ms_metadata st' = ms_metadata st"
    using append_batch_grows [OF assms(1) _ a] by auto
qed

section \<open>What consolidation changes\<close>

text \<open>Only files of the given descriptions are removed.\<close>

definition removes_only :: "CacheRangeSpec set \<Rightarrow> fs \<Rightarrow> fs \<Rightarrow> bool" where
  "removes_only R fs fs' \<longleftrightarrow> fs_removed fs fs' \<and> (\<forall>p. (\<forall>r \<in> R. spec_path r \<noteq> p) \<longrightarrow> fs' p = fs p)"

lemma removes_only_refl [simp]: "removes_only R fs fs"
  by (simp add: removes_only_def)

lemma removes_only_trans: "removes_only R a b \<Longrightarrow> removes_only R b c \<Longrightarrow> removes_only R a c"
  by (auto simp: removes_only_def intro: fs_removed_trans)

lemma unlink_removes_only:
  assumes "unlink rm (spec_path r) fs = (x, fs')" "r \<in> R"
  shows "removes_only R fs fs'"
  using unlink_cases(1) [OF assms(1)] unlink_other [OF assms(1)] assms(2)
  by (auto simp: removes_only_def)

lemma cleanup_removes_only:
  "cleanup_rejected blake3 rm key etag retained es attempted failed st = (res, st') \<Longrightarrow>
   (\<And>e. e \<in> set es \<Longrightarrow> carries_bytes (je_operation e) \<Longrightarrow> je_range_spec e \<in> R) \<Longrightarrow>
   removes_only R (fst_fs st) (fst_fs st')"
proof (induction es arbitrary: attempted failed st)
  case (Cons e es)
  let ?fp = "cr_file_path (je_range_spec e)"
  have rest: "\<And>e. e \<in> set es \<Longrightarrow> carries_bytes (je_operation e) \<Longrightarrow> je_range_spec e \<in> R"
    using Cons.prems(2) by simp
  show ?case
  proof (cases "\<not> carries_bytes (je_operation e) \<or> matches_object_version blake3 e etag \<or>
      ?fp \<in> set retained \<or> ?fp \<in> set attempted")
    case True
    then show ?thesis using Cons.IH [OF _ rest] Cons.prems(1) by (simp add: Let_def)
  next
    case live: False
    show ?thesis
    proof (cases "consolidator_range_file_path key (je_range_spec e)")
      case (Inl err)
      then show ?thesis using live Cons.prems(1) by (simp add: Let_def)
    next
      case (Inr path)
      then have path: "path = spec_path (je_range_spec e)" by (rule consolidator_path)
      obtain x fs where u: "unlink rm path (fst_fs st) = (x, fs)" by fastforce
      have one: "removes_only R (fst_fs st) fs"
        by (rule unlink_removes_only [OF u [unfolded path]]) (use Cons.prems(2) live in simp)
      show ?thesis
      proof (cases x)
        case Removed
        then obtain att acc where "cleanup_rejected blake3 rm key etag retained es att failed
            \<lparr> fst_fs = fs, fst_acc = acc \<rparr> = (res, st')"
          using Cons.prems(1) live Inr u by (simp add: Let_def)
        from Cons.IH [OF this rest] removes_only_trans [OF one] show ?thesis by simp
      next
        case NotFound
        then show ?thesis using Cons.prems(1) live Inr u Cons.IH [OF _ rest] by (simp add: Let_def)
      next
        case (RemoveFailed e)
        then show ?thesis using Cons.prems(1) live Inr u Cons.IH [OF _ rest] by (simp add: Let_def)
      qed
    qed
  qed
qed simp

lemma retire_foreign_removes_only:
  "retire_foreign blake3 rm key etag wc rs rt st = (rt', st') \<Longrightarrow> set rs \<subseteq> R \<Longrightarrow>
   removes_only R (fst_fs st) (fst_fs st')"
proof (induction rs arbitrary: rt st)
  case (Cons r rs)
  then have rest: "set rs \<subseteq> R" and r: "r \<in> R" by simp_all
  show ?case
  proof (cases "range_file_belongs_to r (object_version_id blake3 etag)")
    case True
    then show ?thesis using Cons.IH [OF _ rest] Cons.prems(1) by simp
  next
    case foreign: False
    show ?thesis
    proof (cases "consolidator_range_file_path key r")
      case (Inl err)
      then show ?thesis using foreign Cons.IH [OF _ rest] Cons.prems(1) by simp
    next
      case (Inr path)
      then have path: "path = spec_path r" by (rule consolidator_path)
      obtain x fs where u: "unlink rm path (fst_fs st) = (x, fs)" by fastforce
      have one: "removes_only R (fst_fs st) fs" by (rule unlink_removes_only [OF u [unfolded path] r])
      show ?thesis
      proof (cases x)
        case Removed
        then obtain rt1 acc where "retire_foreign blake3 rm key etag wc rs rt1
            \<lparr> fst_fs = fs, fst_acc = acc \<rparr> = (rt', st')"
          using Cons.prems(1) foreign Inr u by simp
        from Cons.IH [OF this rest] removes_only_trans [OF one] show ?thesis by simp
      next
        case NotFound
        then show ?thesis using Cons.prems(1) foreign Inr u Cons.IH [OF _ rest] by simp
      next
        case (RemoveFailed e)
        then show ?thesis using Cons.prems(1) foreign Inr u Cons.IH [OF _ rest] by simp
      qed
    qed
  qed
qed simp

lemma validate_entry_valid: "set (va_valid (validate_entry now t ex fs e v)) \<subseteq> insert e (set (va_valid v))"
  by (auto simp: validate_entry_def Let_def split: if_splits prod.splits sum.splits)

lemma validate_valid:
  "set (va_valid (validate_journal_entries_with_staleness now t ex fs g es)) \<subseteq> set es"
proof -
  have "set (va_valid (fold (validate_entry now t ex fs) es v)) \<subseteq> set (va_valid v) \<union> set es" for v
  proof (induction es arbitrary: v)
    case (Cons e es)
    then show ?case using validate_entry_valid [of now t ex fs e v] by fastforce
  qed simp
  from this [of "\<lparr> va_valid = [], va_stale = [], va_evicted = g \<rparr>"] show ?thesis
    by (simp add: validate_journal_entries_with_staleness_def)
qed

lemma apply_entry_key: "nm_cache_key (aa_metadata (apply_entry blake3 now e acc)) = nm_cache_key (aa_metadata acc)"
  by (simp add: apply_entry_def Let_def refresh_object_ttl_def split: JournalOperation.split option.split)

lemma apply_key: "nm_cache_key (aa_metadata (apply_journal_entries blake3 now m es)) = nm_cache_key m"
proof -
  have "nm_cache_key (aa_metadata (fold (apply_entry blake3 now) es acc)) = nm_cache_key (aa_metadata acc)" for acc
    by (induction es arbitrary: acc) (simp_all add: apply_entry_key)
  then show ?thesis by (simp add: apply_journal_entries_def Let_def)
qed

lemma resolve_conflicts_key: "resolve_conflicts m es = (n, m') \<Longrightarrow> nm_cache_key m' = nm_cache_key m"
  by (auto simp: resolve_conflicts_def Let_def split: prod.splits)

lemma consolidate_metadata_effect:
  assumes "consolidate_metadata blake3 rm now key valid m st = (res, st')"
    and "set (nm_ranges m) \<subseteq> R" "\<And>e. e \<in> set valid \<Longrightarrow> carries_bytes (je_operation e) \<Longrightarrow> je_range_spec e \<in> R"
    and "\<And>r r'. same_file r r' \<Longrightarrow> r' \<in> R \<Longrightarrow> r \<in> R"
  shows "removes_only R (fst_fs st) (fst_fs st')"
    "res = Inr co \<Longrightarrow> set (nm_ranges (co_metadata co)) \<subseteq> R \<and> nm_cache_key (co_metadata co) = nm_cache_key m"
proof -
  let ?etag = "om_etag (nm_object_metadata m)"
  let ?es = "filter (\<lambda>e. matches_object_version blake3 e ?etag) valid"
  obtain cr st1 where c: "cleanup_rejected blake3 rm key ?etag
      (map cr_file_path (nm_ranges m @ map je_range_spec ?es)) valid [] [] st = (cr, st1)" by fastforce
  note one = cleanup_removes_only [OF c assms(3)]
  show "removes_only R (fst_fs st) (fst_fs st')"
  proof (cases cr)
    case (Inl e)
    then have "st' = st1" using assms(1) c by (simp add: consolidate_metadata_def Let_def)
    then show ?thesis using one by simp
  next
    case (Inr failed)
    obtain rt st2 where f: "retire_foreign blake3 rm key ?etag
        (om_is_write_cached (nm_object_metadata m)) (nm_ranges m) [] st1 = (rt, st2)" by fastforce
    have "st' = st2" using assms(1) c Inr f by (auto simp: consolidate_metadata_def Let_def)
    then show ?thesis
      using removes_only_trans [OF one retire_foreign_removes_only [OF f assms(2)]] by simp
  qed
  assume res: "res = Inr co"
  obtain failed st1 rt n m' where p:
    "resolve_conflicts (m \<lparr> nm_ranges := filter (\<lambda>r. cr_file_path r \<notin> set rt) (nm_ranges m) \<rparr>) ?es = (n, m')"
    "co_metadata co = aa_metadata (apply_journal_entries blake3 now m' ?es)"
    using consolidate_metadata_parts [OF assms(1) [unfolded res]] by metis
  have key: "nm_cache_key (co_metadata co) = nm_cache_key m"
    using resolve_conflicts_key [OF p(1)] by (simp add: p(2) apply_key)
  obtain rt' where "ranges_from (filter (\<lambda>r. cr_file_path r \<notin> set rt') (nm_ranges m)) ?es
      (nm_ranges (co_metadata co))"
    using consolidated_from [OF assms(1) [unfolded res]] by metis
  then have "r \<in> R" if "r \<in> set (nm_ranges (co_metadata co))" for r
    using that assms(2-4) unfolding ranges_from_def by (metis (no_types, lifting) filter_is_subset subsetD mem_Collect_eq set_filter)
  with key show "set (nm_ranges (co_metadata co)) \<subseteq> R \<and> nm_cache_key (co_metadata co) = nm_cache_key m" by blast
qed

definition consolidated_to :: "CacheRangeSpec set \<Rightarrow> string \<Rightarrow> ConsolidationState \<Rightarrow> ConsolidationState \<Rightarrow> bool" where
  "consolidated_to R key ct ct' \<longleftrightarrow>
     removes_only R (fst_fs (ct_store ct)) (fst_fs (ct_store ct')) \<and>
     (ct_stored ct' = ct_stored ct \<or>
      (\<exists>m'. ct_stored ct' = Some (Inr m') \<and> set (nm_ranges m') \<subseteq> R \<and>
         ((\<exists>m. ct_stored ct = Some (Inr m) \<and> nm_cache_key m' = nm_cache_key m) \<or>
          ct_stored ct = None \<and> nm_cache_key m' = key)))"

lemma consolidate_valid_effect:
  assumes "consolidate_valid blake3 rm inp key n valid stale ct = Some (res, ct')"
    and "\<And>m. ct_stored ct = Some (Inr m) \<Longrightarrow> set (nm_ranges m) \<subseteq> R"
    and "\<And>e. e \<in> set valid \<Longrightarrow> carries_bytes (je_operation e) \<Longrightarrow> je_range_spec e \<in> R"
    and "\<And>r r'. same_file r r' \<Longrightarrow> r' \<in> R \<Longrightarrow> r \<in> R"
  shows "consolidated_to R key ct ct'"
proof (cases "load_or_create_metadata_with_journal_entries (cn_now inp) (ct_stored ct) key valid")
  case None
  then show ?thesis using assms(1) by (simp add: consolidate_valid_def)
next
  case (Some l)
  show ?thesis
  proof (cases l)
    case (Inl e)
    then show ?thesis using Some assms(1) by (simp add: consolidate_valid_def consolidated_to_def)
  next
    case (Inr m)
    have m: "ct_stored ct = Some (Inr m) \<or> ct_stored ct = None \<and> nm_ranges m = [] \<and> nm_cache_key m = key"
      using Some Inr
      by (auto simp: load_or_create_metadata_with_journal_entries_def Let_def split: option.splits sum.splits)
    then have ranges: "set (nm_ranges m) \<subseteq> R" using assms(2) by auto
    obtain cr st1 where c: "consolidate_metadata blake3 rm (cn_now inp) key valid m (ct_store ct) = (cr, st1)"
      by fastforce
    have e: "removes_only R (fst_fs (ct_store ct)) (fst_fs st1)"
      by (rule consolidate_metadata_effect(1) [OF c ranges]) (rule assms(3,4); assumption)+
    have co_ok: "set (nm_ranges (co_metadata co)) \<subseteq> R \<and> nm_cache_key (co_metadata co) = nm_cache_key m"
      if "cr = Inr co" for co
      by (rule consolidate_metadata_effect(2) [OF c ranges _ _ that]) (rule assms(3,4); assumption)+
    show ?thesis
    proof (cases cr)
      case (Inl err)
      then have "ct' = ct \<lparr> ct_store := st1 \<rparr>"
        using assms(1) Some \<open>l = Inr m\<close> c by (simp add: consolidate_valid_def)
      then show ?thesis using e by (simp add: consolidated_to_def)
    next
      case co: (Inr co)
      have ct': "ct' = ct \<lparr> ct_store := st1 \<rparr> \<or>
          ct' = ct \<lparr> ct_store := st1, ct_stored := Some (Inr (co_metadata co)) \<rparr>"
        using assms(1) Some Inr c co
        by (auto simp: consolidate_valid_def Let_def split: option.splits)
      show ?thesis using ct' e co_ok [OF co] m by (auto simp: consolidated_to_def)
    qed
  qed
qed

lemma consolidate_object_effect:
  assumes "consolidate_object blake3 rm inp key ct = Some (res, ct')"
    and "\<And>m. ct_stored ct = Some (Inr m) \<Longrightarrow> set (nm_ranges m) \<subseteq> R"
    and "\<And>es e. cn_all_entries inp = Inr es \<Longrightarrow> e \<in> set es \<Longrightarrow> carries_bytes (je_operation e) \<Longrightarrow> je_range_spec e \<in> R"
    and "\<And>r r'. same_file r r' \<Longrightarrow> r' \<in> R \<Longrightarrow> r \<in> R"
  shows "consolidated_to R key ct ct'"
proof (cases "cn_lock_free inp \<and> (\<exists>es. cn_all_entries inp = Inr es \<and> es \<noteq> [])")
  case False
  then have "ct' = ct"
    using assms(1) by (auto simp: consolidate_object_def split: if_splits sum.splits)
  then show ?thesis by (simp add: consolidated_to_def)
next
  case True
  then obtain es where es: "cn_all_entries inp = Inr es" "es \<noteq> []" "cn_lock_free inp" by blast
  define v where "v = validate_journal_entries_with_staleness (cn_now inp) (cn_stale_timeout inp)
    (cn_metadata_exists inp) (fst_fs (ct_store ct)) (ct_evicted ct) es"
  let ?ct = "ct \<lparr> ct_evicted := va_evicted v \<rparr>"
  have valid: "e \<in> set (va_valid v) \<Longrightarrow> carries_bytes (je_operation e) \<Longrightarrow> je_range_spec e \<in> R" for e
    using assms(3) [OF es(1)] validate_valid unfolding v_def by blast
  show ?thesis
  proof (cases "va_valid v = []")
    case True
    then have "ct' = ?ct" using assms(1) es by (simp add: consolidate_object_def Let_def v_def)
    then show ?thesis by (simp add: consolidated_to_def)
  next
    case False
    then have "consolidate_valid blake3 rm inp key (length es) (va_valid v) (va_stale v) ?ct = Some (res, ct')"
      using assms(1) es by (simp add: consolidate_object_def Let_def v_def)
    from consolidate_valid_effect [OF this, of R] assms(2,4) valid show ?thesis
      by (simp add: consolidated_to_def)
  qed
qed

section \<open>The transition system\<close>

text \<open>
  An open writer comes with the version its bytes belong to and the bytes accepted so far. The
  bytes that are fed to it are the next ones of that version: this is what is assumed of the origin.
  The files, metadata and journals may also lose entries at any time, which covers eviction,
  invalidation and the clean-up of consolidated journal entries.
\<close>

record CacheSystem =
  sy_store :: CacheStore
  sy_writers :: "(IncrementalRangeWriter \<times> string \<times> string) list"

abbreviation sy_fs :: "CacheSystem \<Rightarrow> fs" where
  "sy_fs sy \<equiv> dk_fs (cs_disk (sy_store sy))"

definition set_disk :: "Disk \<Rightarrow> CacheSystem \<Rightarrow> CacheSystem" where
  "set_disk disk sy = sy \<lparr> sy_store := (sy_store sy) \<lparr> cs_disk := disk \<rparr> \<rparr>"

text \<open>The view of one key that consolidation works on, and the store it leaves.\<close>

definition consolidation_view :: "string list \<Rightarrow> evicted \<Rightarrow> CacheStore \<Rightarrow> ConsolidationState" where
  "consolidation_view p evicted st =
     \<lparr> ct_stored = map_option Inr (ms_metadata st p),
       ct_store = \<lparr> fst_fs = dk_fs (cs_disk st), fst_acc = cs_acc st \<rparr>, ct_evicted = evicted \<rparr>"

definition consolidation_result :: "string list \<Rightarrow> ConsolidationState \<Rightarrow> CacheStore \<Rightarrow> CacheStore" where
  "consolidation_result p ct st =
     st \<lparr> ms_metadata := (ms_metadata st)(p := (case ct_stored ct of Some (Inr m) \<Rightarrow> Some m | _ \<Rightarrow> None)),
          cs_disk := (cs_disk st) \<lparr> dk_fs := fst_fs (ct_store ct) \<rparr>, cs_acc := fst_acc (ct_store ct) \<rparr>"

inductive sys_step ::
    "VersionEnv \<Rightarrow> (string \<Rightarrow> string \<Rightarrow> string) \<Rightarrow> (string \<times> string) set \<Rightarrow> CacheSystem \<Rightarrow> CacheSystem \<Rightarrow> bool"
  for ve obj V where
  step_begin:
    "begin_incremental_range_write (we_blake3 ve) (we_pct ve) (ve_dbg ve) bs io (cs_disk (sy_store sy)) uuid
       k s e c = (Inr w, disk) \<Longrightarrow> (k, t) \<in> V \<Longrightarrow> e < u64_max \<Longrightarrow>
     sys_step ve obj V sy (set_disk disk (sy \<lparr> sy_writers := (w, t, []) # sy_writers sy \<rparr>))"
| step_chunk:
    "sy_writers sy = as @ (w, t, acc) # bs \<Longrightarrow>
     write_range_chunk (ve_xxh32 ve) (ve_enc ve) io w (cs_disk (sy_store sy)) chunk = (Inr u, w', disk) \<Longrightarrow>
     acc @ chunk = take (length (acc @ chunk)) (object_bytes (obj (iw_cache_key w) t) (iw_start w) (iw_end w)) \<Longrightarrow>
     sys_step ve obj V sy (set_disk disk (sy \<lparr> sy_writers := as @ (w', t, acc @ chunk) # bs \<rparr>))"
| step_chunk_failed:
    "sy_writers sy = as @ (w, t, acc) # bs \<Longrightarrow>
     write_range_chunk (ve_xxh32 ve) (ve_enc ve) io w (cs_disk (sy_store sy)) chunk = (Inl err, w', disk) \<Longrightarrow>
     sys_step ve obj V sy (set_disk (abort_incremental_range io' w' disk) (sy \<lparr> sy_writers := as @ bs \<rparr>))"
| step_abort:
    "sy_writers sy = as @ (w, t, acc) # bs \<Longrightarrow>
     sys_step ve obj V sy
       (set_disk (abort_incremental_range io w (cs_disk (sy_store sy))) (sy \<lparr> sy_writers := as @ bs \<rparr>))"
| step_commit:
    "sy_writers sy = as @ (w, t, acc) # bs \<Longrightarrow> om_etag ob = t \<Longrightarrow>
     (\<And>m. read_version ve io = Inr (Some m) \<Longrightarrow>
        \<exists>p. writer_metadata_path ve (iw_cache_key w) = Inr p \<and> ms_metadata (sy_store sy) p = Some m) \<Longrightarrow>
     commit_incremental_range ve (io :: VersionIo) w ob ttl (sy_store sy) = Some (res, st) \<Longrightarrow>
     sys_step ve obj V sy (sy \<lparr> sy_store := st, sy_writers := as @ bs \<rparr>)"
| step_consolidate:
    "writer_metadata_path ve k = Inr p \<Longrightarrow>
     (\<And>es e. cn_all_entries inp = Inr es \<Longrightarrow> e \<in> set es \<Longrightarrow>
        e \<in># dir_entries (we_journal ve) k (ms_journals (sy_store sy))) \<Longrightarrow>
     consolidate_object (we_blake3 ve) rm inp k (consolidation_view p ev (sy_store sy)) = Some (res, ct) \<Longrightarrow>
     (k, t) \<in> V \<Longrightarrow>
     sys_step ve obj V sy (sy \<lparr> sy_store := consolidation_result p ct (sy_store sy) \<rparr>)"
| step_remove:
    "fs_removed (sy_fs sy) fs \<Longrightarrow>
     (\<And>w t acc. (w, t, acc) \<in> set (sy_writers sy) \<Longrightarrow> fs (iw_tmp_path w) = sy_fs sy (iw_tmp_path w)) \<Longrightarrow>
     (\<And>p m'. meta p = Some m' \<Longrightarrow> \<exists>m. ms_metadata (sy_store sy) p = Some m \<and>
        set (nm_ranges m') \<subseteq> set (nm_ranges m) \<and> nm_cache_key m' = nm_cache_key m) \<Longrightarrow>
     journal_grows (we_journal ve) (we_instance ve) (\<lambda>_. False) (ms_journals (sy_store sy)) dir \<Longrightarrow>
     sys_step ve obj V sy
       (sy \<lparr> sy_store := (sy_store sy) \<lparr> ms_metadata := meta, ms_journals := dir,
              cs_disk := (cs_disk (sy_store sy)) \<lparr> dk_fs := fs \<rparr>, cs_acc := acc',
              cs_confirmed := cv, cs_metadata_cache := mc \<rparr> \<rparr>)"

definition sys_init :: "CacheSystem \<Rightarrow> bool" where
  "sys_init sy \<longleftrightarrow> sy_fs sy = (\<lambda>_. FileMissing) \<and> ms_metadata (sy_store sy) = (\<lambda>_. None) \<and>
     ms_journals (sy_store sy) = [] \<and> sy_writers sy = []"

section \<open>The invariant\<close>

definition crates_ok :: "VersionEnv \<Rightarrow> decoder \<Rightarrow> (string \<times> string) set \<Rightarrow> bool" where
  "crates_ok ve dec V \<longleftrightarrow>
     codec_ok (ve_xxh32 ve) (ve_enc ve) dec \<and> blake3_ok (we_blake3 ve) \<and> pct_ok (we_pct ve) \<and>
     journal_codec_ok (we_journal ve) \<and> versions_ok (we_blake3 ve) (we_pct ve) V"

abbreviation good_for :: "VersionEnv \<Rightarrow> (string \<times> string) set \<Rightarrow> string \<Rightarrow> CacheRangeSpec \<Rightarrow> bool" where
  "good_for ve V \<equiv> good_spec (we_blake3 ve) (we_pct ve) V"

definition metadata_ok :: "VersionEnv \<Rightarrow> (string \<times> string) set \<Rightarrow> (string list \<Rightarrow> NewCacheMetadata option) \<Rightarrow> bool" where
  "metadata_ok ve V meta \<longleftrightarrow>
     (\<forall>k t p m. (k, t) \<in> V \<longrightarrow> writer_metadata_path ve k = Inr p \<longrightarrow> meta p = Some m \<longrightarrow>
        nm_cache_key m = k \<and> (\<forall>r \<in> set (nm_ranges m). good_for ve V k r))"

definition journal_ok :: "VersionEnv \<Rightarrow> (string \<times> string) set \<Rightarrow> journal_dir \<Rightarrow> bool" where
  "journal_ok ve V dir \<longleftrightarrow>
     primary_terminated (we_instance ve) dir \<and>
     (\<forall>k t e. (k, t) \<in> V \<longrightarrow> e \<in># dir_entries (we_journal ve) k dir \<longrightarrow> carries_bytes (je_operation e) \<longrightarrow>
        good_for ve V k (je_range_spec e))"

definition writer_ok ::
    "decoder \<Rightarrow> (string \<Rightarrow> string \<Rightarrow> string) \<Rightarrow> (string \<times> string) set \<Rightarrow> Disk \<Rightarrow>
     IncrementalRangeWriter \<times> string \<times> string \<Rightarrow> bool" where
  "writer_ok dec obj V disk = (\<lambda>(w, t, acc).
     writer_inv dec w disk acc \<and> ends_with ''.tmp'' (last (iw_tmp_path w)) \<and> (iw_cache_key w, t) \<in> V \<and>
     iw_start w \<le> iw_end w \<and> iw_end w < u64_max \<and>
     acc = take (length acc) (object_bytes (obj (iw_cache_key w) t) (iw_start w) (iw_end w)))"

definition writers_ok ::
    "decoder \<Rightarrow> (string \<Rightarrow> string \<Rightarrow> string) \<Rightarrow> (string \<times> string) set \<Rightarrow> Disk \<Rightarrow>
     (IncrementalRangeWriter \<times> string \<times> string) list \<Rightarrow> bool" where
  "writers_ok dec obj V disk ws \<longleftrightarrow>
     (\<forall>x \<in> set ws. writer_ok dec obj V disk x) \<and> distinct (map (iw_tmp_path \<circ> fst) ws)"

definition sys_inv ::
    "VersionEnv \<Rightarrow> decoder \<Rightarrow> (string \<Rightarrow> string \<Rightarrow> string) \<Rightarrow> (string \<times> string) set \<Rightarrow> CacheSystem \<Rightarrow> bool" where
  "sys_inv ve dec obj V sy \<longleftrightarrow>
     files_ok (we_blake3 ve) (we_pct ve) dec obj V (sy_fs sy) \<and>
     metadata_ok ve V (ms_metadata (sy_store sy)) \<and> journal_ok ve V (ms_journals (sy_store sy)) \<and>
     writers_ok dec obj V (cs_disk (sy_store sy)) (sy_writers sy)"

lemma files_ok_shrink:
  assumes "blake3_ok blake3" "pct_ok pct" "files_ok blake3 pct dec obj V fs"
    and "\<And>p. \<not> ends_with ''.tmp'' (last p) \<Longrightarrow> fs' p = fs p \<or> fs' p = FileMissing"
  shows "files_ok blake3 pct dec obj V fs'"
  unfolding files_ok_def
proof (intro allI impI)
  fix k t s e data
  let ?p = "''ranges'' # get_versioned_range_file_path blake3 pct k s e t"
  assume "(k, t) \<in> V" "fs' ?p = FileBytes data"
  moreover have "\<not> ends_with ''.tmp'' (last ?p)" using bin_not_tmp [OF assms(1,2)] by blast
  ultimately show "frames_hold dec data (object_bytes (obj k t) s e)"
    using assms(3) assms(4) [of ?p] by (auto simp: files_ok_def)
qed

lemma writers_ok_disk:
  assumes "writers_ok dec obj V disk ws" "\<And>w t acc. (w, t, acc) \<in> set ws \<Longrightarrow> dk_fs disk' (iw_tmp_path w) = dk_fs disk (iw_tmp_path w)"
  shows "writers_ok dec obj V disk' ws"
  using assms writer_inv_tmp by (fastforce simp: writers_ok_def writer_ok_def)

lemma writers_ok_split:
  assumes "writers_ok dec obj V disk (as @ (w, t, acc) # bs)"
  shows "writer_ok dec obj V disk (w, t, acc)" "writers_ok dec obj V disk (as @ bs)"
    "(w', t', acc') \<in> set (as @ bs) \<Longrightarrow> iw_tmp_path w' \<noteq> iw_tmp_path w"
proof -
  show "writer_ok dec obj V disk (w, t, acc)" "writers_ok dec obj V disk (as @ bs)"
    using assms by (simp_all add: writers_ok_def)
  have "iw_tmp_path w \<notin> set (map (iw_tmp_path \<circ> fst) (as @ bs))" using assms by (simp add: writers_ok_def)
  then have "iw_tmp_path w \<noteq> (iw_tmp_path \<circ> fst) x" if "x \<in> set (as @ bs)" for x
    using that by (metis image_eqI set_map)
  from this [of "(w', t', acc')"]
  show "(w', t', acc') \<in> set (as @ bs) \<Longrightarrow> iw_tmp_path w' \<noteq> iw_tmp_path w" by auto
qed

lemma journal_ok_grows:
  assumes "journal_ok ve V dir" "journal_grows (we_journal ve) (we_instance ve) P dir dir'"
    and "\<And>k t e. (k, t) \<in> V \<Longrightarrow> P e \<Longrightarrow> e \<in># dir_entries (we_journal ve) k dir' \<Longrightarrow> carries_bytes (je_operation e) \<Longrightarrow>
       good_for ve V k (je_range_spec e)"
  shows "journal_ok ve V dir'"
  using assms unfolding journal_ok_def journal_grows_def by blast

lemma metadata_ok_update:
  assumes "metadata_ok ve V meta" "writer_metadata_path ve k = Inr p" "(k, t) \<in> V" "nm_cache_key m = k"
    and "\<forall>r \<in> set (nm_ranges m). good_for ve V k r" "versions_ok (we_blake3 ve) (we_pct ve) V"
  shows "metadata_ok ve V (meta(p := Some m))"
proof -
  have "k' = k" if "(k', t') \<in> V" "writer_metadata_path ve k' = Inr p" for k' t'
    using assms(2,3,6) that unfolding versions_ok_def by metis
  then show ?thesis using assms(1,4,5) by (auto simp: metadata_ok_def)
qed

section \<open>Every step keeps the invariant\<close>

lemma finalize_spec:
  assumes "finalize_incremental_range blake3 pct xxh32 enc io now w disk ratio etag = (Inr (spec, ex), disk')"
  shows "\<exists>s e n m. spec = CacheRangeSpec_new now s e
    (join_path (get_versioned_range_file_path blake3 pct (iw_cache_key w) s e etag)) Lz4 n m"
proof -
  obtain f w1 d1 where fl: "(if iw_batch_buf w \<noteq> [] then flush_batch xxh32 enc io w disk
      else (Inr (), w, disk)) = (f, w1, d1)" by (metis prod_cases3)
  have w1: "iw_cache_key w1 = iw_cache_key w"
    using fl flush_batch_frame [of xxh32 enc io w disk f w1 d1] by (auto split: if_splits)
  have pub: "\<exists>s e n m. spec = CacheRangeSpec_new now s e
      (join_path (get_versioned_range_file_path blake3 pct (iw_cache_key w) s e etag)) Lz4 n m"
    if "publish_range blake3 pct io now w2 d1 etag = (Inr (spec, ex), d3)" "iw_cache_key w2 = iw_cache_key w" for w2 d3
    using that by (auto simp: publish_range_def Let_def split: option.splits)
  have "\<exists>w2. publish_range blake3 pct io now w2 d1 etag = (Inr (spec, ex), disk') \<and> iw_cache_key w2 = iw_cache_key w1"
    using assms unfolding finalize_incremental_range_def fl
    by (cases f) (auto simp: Let_def split: if_splits)
  then show ?thesis using pub w1 by metis
qed

lemma commit_cases:
  assumes "commit_incremental_range ve io w ob ttl st = Some (res, st')"
  obtains (aborted) st1 where "st1 = st \<or> (\<exists>r. claim_object_version ve io (iw_cache_key w) ob ttl st = Some (r, st1))"
      "cs_disk st' = abort_incremental_range (vi_file io) w (cs_disk st1)"
      "ms_metadata st' = ms_metadata st1" "ms_journals st' = ms_journals st1"
    | (failed) st1 e where "st1 = st \<or> (\<exists>r. claim_object_version ve io (iw_cache_key w) ob ttl st = Some (r, st1))"
      "finalize_incremental_range (we_blake3 ve) (we_pct ve) (ve_xxh32 ve) (ve_enc ve) (vi_file io) (wi_now io)
         w (cs_disk st1) (Some (ve_partial_range_commit_ratio ve)) (om_etag ob) = (Inl e, cs_disk st')"
      "ms_metadata st' = ms_metadata st1" "ms_journals st' = ms_journals st1"
    | (published) st1 spec ex where "st1 = st \<or> (\<exists>r. claim_object_version ve io (iw_cache_key w) ob ttl st = Some (r, st1))"
      "finalize_incremental_range (we_blake3 ve) (we_pct ve) (ve_xxh32 ve) (ve_enc ve) (vi_file io) (wi_now io)
         w (cs_disk st1) (Some (ve_partial_range_commit_ratio ve)) (om_etag ob) = (Inr (spec, ex), cs_disk st')"
      "ms_metadata st' = ms_metadata st1"
      "ms_journals st' = ms_journals st1 \<or> (\<exists>r b. write_journal_only ve (WriterIo.truncate io) (iw_cache_key w)
         (spec \<lparr> cr_staged := b \<rparr>) (Some ob) ttl (st1 \<lparr> cs_disk := cs_disk st' \<rparr>) =
         (r, st1 \<lparr> cs_disk := cs_disk st', ms_journals := ms_journals st' \<rparr>))"
proof -
  let ?claim = "if ve_hybrid ve then claim_object_version ve io (iw_cache_key w) ob ttl st else Some (Inr False, st)"
  obtain r1 st1 where c: "?claim = Some (r1, st1)"
    using assms unfolding commit_incremental_range_def Let_def by (cases ?claim) auto
  have c1: "st1 = st \<or> (\<exists>r. claim_object_version ve io (iw_cache_key w) ob ttl st = Some (r, st1))"
    using c by (auto split: if_splits)
  obtain r2 disk where fin: "finalize_incremental_range (we_blake3 ve) (we_pct ve) (ve_xxh32 ve) (ve_enc ve)
      (vi_file io) (wi_now io) w (cs_disk st1) (Some (ve_partial_range_commit_ratio ve)) (om_etag ob) =
      (r2, disk)" by fastforce
  show thesis
  proof (cases r1)
    case (Inl e)
    then have "st' = st1 \<lparr> cs_disk := abort_incremental_range (vi_file io) w (cs_disk st1) \<rparr>"
      using assms unfolding commit_incremental_range_def Let_def c by simp
    then show thesis using aborted [OF c1] by simp
  next
    case r1: (Inr b)
    show thesis
    proof (cases r2)
      case (Inl e)
      then have "st' = st1 \<lparr> cs_disk := disk \<rparr>"
        using assms r1 fin unfolding commit_incremental_range_def Let_def c by simp
      then show thesis using failed [OF c1] fin Inl by simp
    next
      case (Inr se)
      obtain spec ex where se: "se = (spec, ex)" by fastforce
      let ?b = "Some (classify_new_range_as_staged (cr_file_path spec) (om_is_write_cached ob))"
      obtain r3 st2 where wr: "write_journal_only ve (WriterIo.truncate io) (iw_cache_key w)
          (spec \<lparr> cr_staged := ?b \<rparr>) (Some ob) ttl (st1 \<lparr> cs_disk := disk \<rparr>) = (r3, st2)" by fastforce
      have st2: "st2 = st1 \<lparr> cs_disk := disk, ms_journals := ms_journals st2 \<rparr>"
        using wr by (auto simp: write_journal_only_def append_to_journals_def split: prod.splits sum.splits)
      have "cs_disk st' = disk \<and> ms_metadata st' = ms_metadata st1 \<and>
          (ms_journals st' = ms_journals st1 \<or> ms_journals st' = ms_journals st2)"
      proof (cases "ve_hybrid ve")
        case False
        then have "st' = st1 \<lparr> cs_disk := disk \<rparr>"
          using assms r1 fin Inr se unfolding commit_incremental_range_def Let_def c by simp
        then show ?thesis by simp
      next
        case True
        have "cs_disk st2 = disk" "ms_metadata st2 = ms_metadata st1" by (subst st2, simp)+
        moreover have "cs_disk st' = cs_disk st2 \<and> ms_metadata st' = ms_metadata st2 \<and> ms_journals st' = ms_journals st2"
          using assms r1 fin Inr se True wr unfolding commit_incremental_range_def Let_def c
          by (cases r3) (auto simp: write_range_metadata_def)
        ultimately show ?thesis by simp
      qed
      then show thesis
        using published [OF c1, of spec ex] fin Inr se wr st2 by metis
    qed
  qed
qed

text \<open>The part of the invariant about a store, with the writers that stay open.\<close>

definition store_inv ::
    "VersionEnv \<Rightarrow> decoder \<Rightarrow> (string \<Rightarrow> string \<Rightarrow> string) \<Rightarrow> (string \<times> string) set \<Rightarrow> CacheStore \<Rightarrow>
     (IncrementalRangeWriter \<times> string \<times> string) list \<Rightarrow> bool" where
  "store_inv ve dec obj V st ws \<longleftrightarrow>
     files_ok (we_blake3 ve) (we_pct ve) dec obj V (dk_fs (cs_disk st)) \<and>
     metadata_ok ve V (ms_metadata st) \<and> journal_ok ve V (ms_journals st) \<and>
     writers_ok dec obj V (cs_disk st) ws"

lemma sys_inv_store: "sys_inv ve dec obj V sy \<longleftrightarrow> store_inv ve dec obj V (sy_store sy) (sy_writers sy)"
  by (simp add: sys_inv_def store_inv_def)

lemma claim_keeps:
  assumes "crates_ok ve dec V" "store_inv ve dec obj V st ws" "(k, t) \<in> V"
    and "\<And>m. read_version ve io = Inr (Some m) \<Longrightarrow>
       \<exists>p. writer_metadata_path ve k = Inr p \<and> ms_metadata st p = Some m"
    and "st1 = st \<or> (\<exists>r. claim_object_version ve io k ob ttl st = Some (r, st1))"
  shows "store_inv ve dec obj V st1 ws"
proof (cases "st1 = st")
  case False
  then obtain r where claim: "claim_object_version ve io k ob ttl st = Some (r, st1)" using assms(5) by blast
  have ok: "blake3_ok (we_blake3 ve)" "pct_ok (we_pct ve)" "journal_codec_ok (we_journal ve)"
    "versions_ok (we_blake3 ve) (we_pct ve) V" using assms(1) by (simp_all add: crates_ok_def)
  have inv: "files_ok (we_blake3 ve) (we_pct ve) dec obj V (dk_fs (cs_disk st))"
    "metadata_ok ve V (ms_metadata st)" "journal_ok ve V (ms_journals st)" "writers_ok dec obj V (cs_disk st) ws"
    using assms(2) by (simp_all add: store_inv_def)
  note eff = claim_effect [OF claim]
  have tmp: "dk_fs (cs_disk st1) p = dk_fs (cs_disk st) p" if "ends_with ''.tmp'' (last p)" for p
  proof (rule eff(2), intro allI impI)
    fix cached r assume "read_version ve io = Inr (Some cached)" "r \<in> set (nm_ranges cached)"
    then have "good_for ve V k r" using assms(3,4) inv(2) unfolding metadata_ok_def by blast
    from good_spec_path [OF ok(1,2) this] that show "spec_path r \<noteq> p" by auto
  qed
  have "files_ok (we_blake3 ve) (we_pct ve) dec obj V (dk_fs (cs_disk st1))"
    by (rule files_ok_shrink [OF ok(1,2) inv(1)]) (use eff(1) in \<open>auto simp: fs_removed_def\<close>)
  moreover have "writers_ok dec obj V (cs_disk st1) ws"
  proof (rule writers_ok_disk [OF inv(4)])
    fix w t acc assume "(w, t, acc) \<in> set ws"
    then have "ends_with ''.tmp'' (last (iw_tmp_path w))" using inv(4) by (auto simp: writers_ok_def writer_ok_def)
    then show "dk_fs (cs_disk st1) (iw_tmp_path w) = dk_fs (cs_disk st) (iw_tmp_path w)" by (rule tmp)
  qed
  moreover note c = claim_claimed [OF ok(3) claim]
  have "journal_ok ve V (ms_journals st1)"
    by (rule journal_ok_grows [OF inv(3), where P = "\<lambda>e. je_operation e = Remove"])
      (use c in \<open>auto simp: claimed_def carries_bytes_def\<close>)
  moreover have "metadata_ok ve V (ms_metadata st1)"
  proof (cases "ms_metadata st1 = ms_metadata st")
    case False
    then obtain p m where "writer_metadata_path ve k = Inr p" "nm_ranges m = []" "nm_cache_key m = k"
      "ms_metadata st1 = (ms_metadata st)(p := Some m)" using c by (auto simp: claimed_def)
    then show ?thesis using metadata_ok_update [OF inv(2) _ assms(3) _ _ ok(4)] by simp
  qed (use inv(2) in simp)
  ultimately show ?thesis by (simp add: store_inv_def)
qed (use assms(2) in simp)

lemma take_object_bytes:
  assumes "acc = take (length acc) (object_bytes body s e)" "s + length acc = e' + 1" "e' \<le> e"
  shows "acc = object_bytes body s e'"
proof -
  have "e' + 1 - s = length acc" using assms(2) by simp
  then have "object_bytes body s e' = take (length acc) (drop s body)" by (simp add: Rust_Prelude.slice_def)
  moreover have "take (length acc) (object_bytes body s e) = take (length acc) (drop s body)"
    using assms(2,3) by (simp add: Rust_Prelude.slice_def min_def)
  ultimately show ?thesis by (rule trans [OF assms(1) trans [OF _ sym], rotated])
qed

lemma published_files_ok:
  assumes "crates_ok ve dec V" "files_ok (we_blake3 ve) (we_pct ve) dec obj V (dk_fs disk)"
    and "writer_ok dec obj V disk (w, t, acc)"
    and "finalize_incremental_range (we_blake3 ve) (we_pct ve) (ve_xxh32 ve) (ve_enc ve) io now w disk ratio t =
      (Inr (spec, ex), disk')"
  shows "files_ok (we_blake3 ve) (we_pct ve) dec obj V (dk_fs disk')"
    "good_for ve V (iw_cache_key w) spec"
    "p \<noteq> iw_tmp_path w \<Longrightarrow> ends_with ''.tmp'' (last p) \<Longrightarrow> dk_fs disk' p = dk_fs disk p"
proof -
  have ok: "codec_ok (ve_xxh32 ve) (ve_enc ve) dec" "blake3_ok (we_blake3 ve)" "pct_ok (we_pct ve)"
    "versions_ok (we_blake3 ve) (we_pct ve) V" using assms(1) by (simp_all add: crates_ok_def)
  have w: "writer_inv dec w disk acc" "ends_with ''.tmp'' (last (iw_tmp_path w))" "(iw_cache_key w, t) \<in> V"
    "iw_start w \<le> iw_end w" "iw_end w < u64_max"
    "acc = take (length acc) (object_bytes (obj (iw_cache_key w) t) (iw_start w) (iw_end w))"
    using assms(3) by (simp_all add: writer_ok_def)
  have len: "length acc < u64_mod"
  proof -
    have "length acc \<le> iw_end w + 1 - iw_start w" by (subst w(6)) (simp add: length_slice)
    then show ?thesis using w(5) by simp
  qed
  let ?path = "\<lambda>k s e t. get_versioned_range_file_path (we_blake3 ve) (we_pct ve) k s e t"
  note f = finalize_ok [OF ok(1-3) w(1,2) len w(4,5) assms(4)]
  obtain s e n m where spec: "spec = CacheRangeSpec_new now s e (join_path (?path (iw_cache_key w) s e t)) Lz4 n m"
    using finalize_spec [OF assms(4)] by blast
  then show "good_for ve V (iw_cache_key w) spec" using published_spec_good [OF w(3)] by simp
  have fr: "\<forall>p. p \<noteq> ''ranges'' # path_components (cr_file_path spec) \<longrightarrow> p \<noteq> iw_tmp_path w \<longrightarrow> dk_fs disk' p = dk_fs disk p"
    and fb: "holds_body (we_blake3 ve) dec disk' spec (Some (iw_cache_key w, t)) acc"
    and fl: "cr_start spec = iw_start w" "iw_start w + length acc = cr_end spec + 1" "cr_end spec \<le> iw_end w"
    using f by - (elim conjE, assumption)+
  have ext: "cr_start spec = s" "cr_end spec = e" using spec by (simp_all add: CacheRangeSpec_new_def)
  have comps: "path_components (cr_file_path spec) = ?path (iw_cache_key w) s e t"
    unfolding spec using versioned_path_safe [OF ok(2,3)]
    by (simp add: CacheRangeSpec_new_def) (intro path_components_join, auto simp: list_all_iff safe_component_def)
  let ?p = "''ranges'' # ?path (iw_cache_key w) s e t"
  have other: "dk_fs disk' p = dk_fs disk p" if "p \<noteq> ?p" "p \<noteq> iw_tmp_path w" for p
    by (rule fr [rule_format]) (use that comps in simp_all)
  show "dk_fs disk' p = dk_fs disk p" if p: "p \<noteq> iw_tmp_path w" "ends_with ''.tmp'' (last p)"
    by (rule other [OF bin_not_tmp [OF ok(2,3) p(2), symmetric] p(1)])
  have start: "iw_start w = s" using fl(1) ext(1) by simp
  have body: "acc = object_bytes (obj (iw_cache_key w) t) s e"
    by (rule take_object_bytes [OF w(6) [unfolded start]]) (use fl ext in simp_all)
  show "files_ok (we_blake3 ve) (we_pct ve) dec obj V (dk_fs disk')"
    unfolding files_ok_def
  proof (intro allI impI)
    fix k t' s' e' data
    assume v: "(k, t') \<in> V" and data: "dk_fs disk' (''ranges'' # ?path k s' e' t') = FileBytes data"
    show "frames_hold dec data (object_bytes (obj k t') s' e')"
    proof (cases "?path k s' e' t' = ?path (iw_cache_key w) s e t")
      case True
      from versioned_path_unique [OF ok(2-4) v w(3) True]
      have same: "k = iw_cache_key w" "t' = t" "s' = s" "e' = e" by simp_all
      from fb obtain frames where fr: "read_file (we_blake3 ve) disk' spec (Some (iw_cache_key w, t)) =
          Inr (concat (map fst frames))" "list_all (frame_of dec) frames" "acc = concat (map snd frames)"
        unfolding holds_body_def by blast
      have "servable_range_path (we_blake3 ve) spec (Some (iw_cache_key w, t)) = Inr ?p"
        using versioned_spec_servable [OF ok(2,3), of spec "iw_cache_key w" t] ext spec
        by (simp add: CacheRangeSpec_new_def)
      then have "data = concat (map fst frames)"
        using fr(1) data unfolding read_file_def same by simp
      then show ?thesis using fr(2,3) body same by (auto simp: frames_hold_def)
    next
      case False
      then have "dk_fs disk (''ranges'' # ?path k s' e' t') = FileBytes data"
        using data other [of "''ranges'' # ?path k s' e' t'", OF _ bin_not_tmp [OF ok(2,3) w(2)]]
        by (metis list.inject)
      then show ?thesis using assms(2) v unfolding files_ok_def by blast
    qed
  qed
qed

text \<open>Only the temporary file of a writer that is no longer open has changed.\<close>

lemma tmp_change_keeps:
  assumes "crates_ok ve dec V" "store_inv ve dec obj V st (as @ (w, t, acc) # bs)"
    and "\<And>p. p \<noteq> iw_tmp_path w \<Longrightarrow> dk_fs (cs_disk st') p = dk_fs (cs_disk st) p"
    and "ms_metadata st' = ms_metadata st" "ms_journals st' = ms_journals st"
  shows "store_inv ve dec obj V st' (as @ bs)"
proof -
  have ok: "blake3_ok (we_blake3 ve)" "pct_ok (we_pct ve)" using assms(1) by (simp_all add: crates_ok_def)
  have inv: "files_ok (we_blake3 ve) (we_pct ve) dec obj V (dk_fs (cs_disk st))"
    "writers_ok dec obj V (cs_disk st) (as @ (w, t, acc) # bs)"
    using assms(2) by (simp_all add: store_inv_def)
  note ws = writers_ok_split [OF inv(2)]
  have tmp: "ends_with ''.tmp'' (last (iw_tmp_path w))" using ws(1) by (simp add: writer_ok_def)
  have "files_ok (we_blake3 ve) (we_pct ve) dec obj V (dk_fs (cs_disk st'))"
    by (rule files_ok_shrink [OF ok inv(1)]) (use assms(3) tmp in metis)
  moreover have "writers_ok dec obj V (cs_disk st') (as @ bs)"
    by (rule writers_ok_disk [OF ws(2)]) (use assms(3) ws(3) in blast)
  ultimately show ?thesis using assms(2,4,5) by (simp add: store_inv_def)
qed

lemma writer_ok_chunk:
  assumes "crates_ok ve dec V" "writer_ok dec obj V disk (w, t, acc)"
    and "write_range_chunk (ve_xxh32 ve) (ve_enc ve) io w disk chunk = (Inr u, w', disk')"
    and "acc @ chunk = take (length (acc @ chunk)) (object_bytes (obj (iw_cache_key w) t) (iw_start w) (iw_end w))"
  shows "writer_ok dec obj V disk' (w', t, acc @ chunk)"
proof -
  have "codec_ok (ve_xxh32 ve) (ve_enc ve) dec" "writer_inv dec w disk acc"
    using assms(1,2) by (simp_all add: crates_ok_def writer_ok_def)
  from write_range_chunk_inv [OF this assms(3)]
  have "writer_inv dec w' disk' (acc @ chunk)" .
  moreover have "ends_with ''.tmp'' (last (iw_tmp_path w))" "(iw_cache_key w, t) \<in> V" "iw_start w \<le> iw_end w"
    "iw_end w < u64_max" using assms(2) by (simp_all add: writer_ok_def)
  ultimately show ?thesis
    unfolding writer_ok_def prod.case write_range_chunk_frame(1-4) [OF assms(3)] by (intro conjI assms(4))
qed

lemma begin_keeps:
  assumes "crates_ok ve dec V" "sys_inv ve dec obj V sy" "(k, t) \<in> V" "e < u64_max"
    and "begin_incremental_range_write (we_blake3 ve) (we_pct ve) dbg bs io (cs_disk (sy_store sy)) uuid
      k s e c = (Inr w, disk)"
  shows "sys_inv ve dec obj V (set_disk disk (sy \<lparr> sy_writers := (w, t, []) # sy_writers sy \<rparr>))"
proof -
  have ok: "blake3_ok (we_blake3 ve)" "pct_ok (we_pct ve)" using assms(1) by (simp_all add: crates_ok_def)
  note b = begin_inv [OF assms(5)]
  have inv: "files_ok (we_blake3 ve) (we_pct ve) dec obj V (sy_fs sy)"
    "writers_ok dec obj V (cs_disk (sy_store sy)) (sy_writers sy)" using assms(2) by (simp_all add: sys_inv_def)
  have new: "iw_tmp_path w' \<noteq> iw_tmp_path w" if "(w', t', acc) \<in> set (sy_writers sy)" for w' t' acc
  proof -
    have "writer_inv dec w' (cs_disk (sy_store sy)) acc"
      using inv(2) that by (auto simp: writers_ok_def writer_ok_def)
    then show ?thesis using b(7) by (auto simp: writer_inv_def)
  qed
  have "files_ok (we_blake3 ve) (we_pct ve) dec obj V (dk_fs disk)"
    by (rule files_ok_shrink [OF ok inv(1)]) (use b(6,8) in metis)
  moreover have "writers_ok dec obj V disk (sy_writers sy)"
    by (rule writers_ok_disk [OF inv(2)]) (use b(8) new in blast)
  moreover have "writer_ok dec obj V disk (w, t, [])"
    using b(1-6) assms(3,4) by (simp add: writer_ok_def)
  moreover have "iw_tmp_path w \<notin> set (map (iw_tmp_path \<circ> fst) (sy_writers sy))"
  proof
    assume "iw_tmp_path w \<in> set (map (iw_tmp_path \<circ> fst) (sy_writers sy))"
    then obtain w' t' acc where "(w', t', acc) \<in> set (sy_writers sy)" "iw_tmp_path w' = iw_tmp_path w" by auto
    then show False using new by blast
  qed
  ultimately show ?thesis
    using assms(2) by (simp add: sys_inv_def set_disk_def writers_ok_def)
qed

lemma chunk_keeps:
  assumes "crates_ok ve dec V" "sys_inv ve dec obj V sy" "sy_writers sy = as @ (w, t, acc) # bs"
    and "write_range_chunk (ve_xxh32 ve) (ve_enc ve) io w (cs_disk (sy_store sy)) chunk = (Inr u, w', disk)"
    and "acc @ chunk = take (length (acc @ chunk)) (object_bytes (obj (iw_cache_key w) t) (iw_start w) (iw_end w))"
  shows "sys_inv ve dec obj V (set_disk disk (sy \<lparr> sy_writers := as @ (w', t, acc @ chunk) # bs \<rparr>))"
proof -
  have inv: "store_inv ve dec obj V (sy_store sy) (as @ (w, t, acc) # bs)"
    using assms(2,3) by (simp add: sys_inv_store)
  then have ws: "writers_ok dec obj V (cs_disk (sy_store sy)) (as @ (w, t, acc) # bs)" by (simp add: store_inv_def)
  note f = write_range_chunk_frame [OF assms(4)]
  have "store_inv ve dec obj V ((sy_store sy) \<lparr> cs_disk := disk \<rparr>) (as @ bs)"
    by (rule tmp_change_keeps [OF assms(1) inv]) (use f(5) in simp_all)
  then show ?thesis
    using writer_ok_chunk [OF assms(1) writers_ok_split(1) [OF ws] assms(4,5)] f(1) ws
    unfolding sys_inv_store store_inv_def set_disk_def by (simp add: writers_ok_def)
qed

lemma abort_frame:
  "p \<noteq> iw_tmp_path w \<Longrightarrow> dk_fs (abort_incremental_range io w disk) p = dk_fs disk p"
  by (simp add: abort_incremental_range_def remove_file_def)

lemma abort_keeps:
  assumes "crates_ok ve dec V" "sys_inv ve dec obj V sy" "sy_writers sy = as @ (w, t, acc) # bs"
    and "\<And>p. p \<noteq> iw_tmp_path w \<Longrightarrow> dk_fs disk p = sy_fs sy p" "iw_tmp_path w' = iw_tmp_path w"
  shows "sys_inv ve dec obj V (set_disk (abort_incremental_range io w' disk) (sy \<lparr> sy_writers := as @ bs \<rparr>))"
  using tmp_change_keeps [OF assms(1), of obj "sy_store sy" as w t acc bs
      "(sy_store sy) \<lparr> cs_disk := abort_incremental_range io w' disk \<rparr>"] assms(2-5)
  by (simp add: sys_inv_store set_disk_def abort_frame)

lemma published_keeps:
  assumes "crates_ok ve dec V" "store_inv ve dec obj V st1 (as @ (w, t, acc) # bs)"
    and "finalize_incremental_range (we_blake3 ve) (we_pct ve) (ve_xxh32 ve) (ve_enc ve) io now w (cs_disk st1) ratio t =
      (Inr (spec, ex), cs_disk st')" "ms_metadata st' = ms_metadata st1"
    and "ms_journals st' = ms_journals st1 \<or> (\<exists>r b. write_journal_only ve wio (iw_cache_key w)
         (spec \<lparr> cr_staged := b \<rparr>) ob ttl (st1 \<lparr> cs_disk := cs_disk st' \<rparr>) =
         (r, st1 \<lparr> cs_disk := cs_disk st', ms_journals := ms_journals st' \<rparr>))"
  shows "store_inv ve dec obj V st' (as @ bs)"
proof -
  have inv: "files_ok (we_blake3 ve) (we_pct ve) dec obj V (dk_fs (cs_disk st1))"
    "metadata_ok ve V (ms_metadata st1)" "journal_ok ve V (ms_journals st1)"
    "writers_ok dec obj V (cs_disk st1) (as @ (w, t, acc) # bs)" using assms(2) by (simp_all add: store_inv_def)
  have js: "journal_codec_ok (we_journal ve)" using assms(1) by (simp add: crates_ok_def)
  note ws = writers_ok_split [OF inv(4)]
  note p = published_files_ok [OF assms(1) inv(1) ws(1) assms(3)]
  have "writers_ok dec obj V (cs_disk st') (as @ bs)"
  proof (rule writers_ok_disk [OF ws(2)])
    fix w' t' acc' assume w': "(w', t', acc') \<in> set (as @ bs)"
    then have "writer_ok dec obj V (cs_disk st1) (w', t', acc')" using ws(2) by (simp add: writers_ok_def)
    then have "ends_with ''.tmp'' (last (iw_tmp_path w'))" by (simp add: writer_ok_def)
    from p(3) [OF ws(3) [OF w'] this]
    show "dk_fs (cs_disk st') (iw_tmp_path w') = dk_fs (cs_disk st1) (iw_tmp_path w')" .
  qed
  moreover have "journal_ok ve V (ms_journals st')"
  proof (cases "ms_journals st' = ms_journals st1")
    case False
    then obtain r b where "write_journal_only ve wio (iw_cache_key w) (spec \<lparr> cr_staged := b \<rparr>) ob ttl
        (st1 \<lparr> cs_disk := cs_disk st' \<rparr>) = (r, st1 \<lparr> cs_disk := cs_disk st', ms_journals := ms_journals st' \<rparr>)"
      using assms(5) by blast
    from write_journal_only_grows(1) [OF js this]
    have g: "journal_grows (we_journal ve) (we_instance ve)
        (\<lambda>e. e = add_entry ve wio (iw_cache_key w) (spec \<lparr> cr_staged := b \<rparr>) ob ttl) (ms_journals st1) (ms_journals st')"
      by simp
    have good: "good_for ve V (iw_cache_key w) (spec \<lparr> cr_staged := b \<rparr>)" using p(2) by (simp add: good_spec_def)
    show ?thesis
    proof (rule journal_ok_grows [OF inv(3) g])
      fix k' t' e assume "e = add_entry ve wio (iw_cache_key w) (spec \<lparr> cr_staged := b \<rparr>) ob ttl"
        "e \<in># dir_entries (we_journal ve) k' (ms_journals st')"
      then have "je_range_spec e = spec \<lparr> cr_staged := b \<rparr>" "k' = iw_cache_key w"
        by (auto simp: add_entry_def dest: dir_entries_key)
      then show "good_for ve V k' (je_range_spec e)" using good by simp
    qed
  qed (use inv(3) in simp)
  ultimately show ?thesis using p(1) inv(2) assms(4) by (simp add: store_inv_def)
qed

lemma commit_keeps:
  assumes "crates_ok ve dec V" "sys_inv ve dec obj V sy" "sy_writers sy = as @ (w, t, acc) # bs" "om_etag ob = t"
    and "\<And>m. read_version ve io = Inr (Some m) \<Longrightarrow>
       \<exists>p. writer_metadata_path ve (iw_cache_key w) = Inr p \<and> ms_metadata (sy_store sy) p = Some m"
    and "commit_incremental_range ve (io :: VersionIo) w ob ttl (sy_store sy) = Some (res, st)"
  shows "sys_inv ve dec obj V (sy \<lparr> sy_store := st, sy_writers := as @ bs \<rparr>)"
proof -
  have inv: "store_inv ve dec obj V (sy_store sy) (as @ (w, t, acc) # bs)"
    using assms(2,3) by (simp add: sys_inv_store)
  have v: "(iw_cache_key w, t) \<in> V" using inv by (simp add: store_inv_def writers_ok_def writer_ok_def)
  note claim = claim_keeps [OF assms(1) inv v assms(5)]
  have "store_inv ve dec obj V st (as @ bs)"
  proof (cases rule: commit_cases [OF assms(6)])
    case (1 st1)
    show ?thesis by (rule tmp_change_keeps [OF assms(1) claim [OF _ 1(1)]]) (simp_all add: 1 abort_frame)
  next
    case (2 st1 e)
    show ?thesis by (rule tmp_change_keeps [OF assms(1) claim [OF _ 2(1)]])
        (simp_all add: 2(3,4) finalize_failed_frame [OF 2(2)])
  next
    case (3 st1 spec ex)
    show ?thesis by (rule published_keeps [OF assms(1) claim [OF _ 3(1)] 3(2) [unfolded assms(4)] 3(3,4)]) simp_all
  qed
  then show ?thesis by (simp add: sys_inv_store)
qed

lemma consolidate_keeps:
  assumes "crates_ok ve dec V" "sys_inv ve dec obj V sy" "writer_metadata_path ve k = Inr p" "(k, t) \<in> V"
    and "\<And>es e. cn_all_entries inp = Inr es \<Longrightarrow> e \<in> set es \<Longrightarrow>
       e \<in># dir_entries (we_journal ve) k (ms_journals (sy_store sy))"
    and "consolidate_object (we_blake3 ve) rm inp k (consolidation_view p ev (sy_store sy)) = Some (res, ct)"
  shows "sys_inv ve dec obj V (sy \<lparr> sy_store := consolidation_result p ct (sy_store sy) \<rparr>)"
proof -
  have ok: "blake3_ok (we_blake3 ve)" "pct_ok (we_pct ve)" "versions_ok (we_blake3 ve) (we_pct ve) V"
    using assms(1) by (simp_all add: crates_ok_def)
  have inv: "files_ok (we_blake3 ve) (we_pct ve) dec obj V (sy_fs sy)"
    "metadata_ok ve V (ms_metadata (sy_store sy))" "journal_ok ve V (ms_journals (sy_store sy))"
    "writers_ok dec obj V (cs_disk (sy_store sy)) (sy_writers sy)" using assms(2) by (simp_all add: sys_inv_def)
  let ?R = "{r. good_for ve V k r}"
  have "consolidated_to ?R k (consolidation_view p ev (sy_store sy)) ct"
  proof (rule consolidate_object_effect [OF assms(6)])
    fix m assume "ct_stored (consolidation_view p ev (sy_store sy)) = Some (Inr m)"
    then have "ms_metadata (sy_store sy) p = Some m" by (simp add: consolidation_view_def)
    then show "set (nm_ranges m) \<subseteq> ?R" using inv(2) assms(3,4) unfolding metadata_ok_def by blast
  next
    fix es e assume "cn_all_entries inp = Inr es" "e \<in> set es" "carries_bytes (je_operation e)"
    then show "je_range_spec e \<in> ?R" using assms(4,5) inv(3) unfolding journal_ok_def by blast
  qed (simp add: good_spec_same_file)
  then have gone: "removes_only ?R (sy_fs sy) (fst_fs (ct_store ct))"
    and stored: "ct_stored ct = map_option Inr (ms_metadata (sy_store sy) p) \<or>
      (\<exists>m'. ct_stored ct = Some (Inr m') \<and> set (nm_ranges m') \<subseteq> ?R \<and>
         ((\<exists>m. ms_metadata (sy_store sy) p = Some m \<and> nm_cache_key m' = nm_cache_key m) \<or> nm_cache_key m' = k))"
    by (auto simp: consolidated_to_def consolidation_view_def)
  have "files_ok (we_blake3 ve) (we_pct ve) dec obj V (fst_fs (ct_store ct))"
    by (rule files_ok_shrink [OF ok(1,2) inv(1)]) (use gone in \<open>simp add: removes_only_def fs_removed_def\<close>)
  moreover have "writers_ok dec obj V ((cs_disk (sy_store sy)) \<lparr> dk_fs := fst_fs (ct_store ct) \<rparr>) (sy_writers sy)"
  proof (rule writers_ok_disk [OF inv(4)])
    fix w t acc assume "(w, t, acc) \<in> set (sy_writers sy)"
    then have "writer_ok dec obj V (cs_disk (sy_store sy)) (w, t, acc)" using inv(4) by (simp add: writers_ok_def)
    then have tmp: "ends_with ''.tmp'' (last (iw_tmp_path w))" by (simp add: writer_ok_def)
    have "spec_path r \<noteq> iw_tmp_path w" if "good_for ve V k r" for r using good_spec_path [OF ok(1,2) that] tmp by metis
    then show "dk_fs ((cs_disk (sy_store sy)) \<lparr> dk_fs := fst_fs (ct_store ct) \<rparr>) (iw_tmp_path w) =
        dk_fs (cs_disk (sy_store sy)) (iw_tmp_path w)" using gone by (simp add: removes_only_def)
  qed
  moreover have "metadata_ok ve V ((ms_metadata (sy_store sy))(p := (case ct_stored ct of Some (Inr m) \<Rightarrow> Some m | _ \<Rightarrow> None)))"
    using stored
  proof
    assume "ct_stored ct = map_option Inr (ms_metadata (sy_store sy) p)"
    then have "(case ct_stored ct of Some (Inr m) \<Rightarrow> Some m | _ \<Rightarrow> None) = ms_metadata (sy_store sy) p"
      by (cases "ms_metadata (sy_store sy) p") simp_all
    then show ?thesis using inv(2) by (simp only: fun_upd_triv)
  next
    assume "\<exists>m'. ct_stored ct = Some (Inr m') \<and> set (nm_ranges m') \<subseteq> ?R \<and>
         ((\<exists>m. ms_metadata (sy_store sy) p = Some m \<and> nm_cache_key m' = nm_cache_key m) \<or> nm_cache_key m' = k)"
    then obtain m' where m': "ct_stored ct = Some (Inr m')" "\<forall>r \<in> set (nm_ranges m'). good_for ve V k r"
      "nm_cache_key m' = k" using inv(2) assms(3,4) unfolding metadata_ok_def by blast
    then show ?thesis using metadata_ok_update [OF inv(2) assms(3,4) m'(3,2) ok(3)] by simp
  qed
  ultimately show ?thesis using inv(3) by (simp add: sys_inv_def consolidation_result_def)
qed

lemma remove_keeps:
  assumes "crates_ok ve dec V" "sys_inv ve dec obj V sy" "fs_removed (sy_fs sy) fs"
    and "\<And>w t acc. (w, t, acc) \<in> set (sy_writers sy) \<Longrightarrow> fs (iw_tmp_path w) = sy_fs sy (iw_tmp_path w)"
    and "\<And>p m'. meta p = Some m' \<Longrightarrow> \<exists>m. ms_metadata (sy_store sy) p = Some m \<and>
        set (nm_ranges m') \<subseteq> set (nm_ranges m) \<and> nm_cache_key m' = nm_cache_key m"
    and "journal_grows (we_journal ve) (we_instance ve) (\<lambda>_. False) (ms_journals (sy_store sy)) dir"
  shows "sys_inv ve dec obj V (sy \<lparr> sy_store := (sy_store sy) \<lparr> ms_metadata := meta, ms_journals := dir,
              cs_disk := (cs_disk (sy_store sy)) \<lparr> dk_fs := fs \<rparr>, cs_acc := acc',
              cs_confirmed := cv, cs_metadata_cache := mc \<rparr> \<rparr>)"
proof -
  have ok: "blake3_ok (we_blake3 ve)" "pct_ok (we_pct ve)" using assms(1) by (simp_all add: crates_ok_def)
  have inv: "files_ok (we_blake3 ve) (we_pct ve) dec obj V (sy_fs sy)"
    "metadata_ok ve V (ms_metadata (sy_store sy))" "journal_ok ve V (ms_journals (sy_store sy))"
    "writers_ok dec obj V (cs_disk (sy_store sy)) (sy_writers sy)" using assms(2) by (simp_all add: sys_inv_def)
  have "files_ok (we_blake3 ve) (we_pct ve) dec obj V fs"
    by (rule files_ok_shrink [OF ok inv(1)]) (use assms(3) in \<open>simp add: fs_removed_def\<close>)
  moreover have "writers_ok dec obj V ((cs_disk (sy_store sy)) \<lparr> dk_fs := fs \<rparr>) (sy_writers sy)"
    by (rule writers_ok_disk [OF inv(4)]) (use assms(4) in simp)
  moreover have "metadata_ok ve V meta"
    unfolding metadata_ok_def
  proof (intro allI impI)
    fix k t p m' assume kp: "(k, t) \<in> V" "writer_metadata_path ve k = Inr p" and "meta p = Some m'"
    then obtain m where m: "ms_metadata (sy_store sy) p = Some m" "set (nm_ranges m') \<subseteq> set (nm_ranges m)"
      "nm_cache_key m' = nm_cache_key m" using assms(5) by blast
    have "nm_cache_key m = k \<and> (\<forall>r \<in> set (nm_ranges m). good_for ve V k r)"
      using inv(2) kp m(1) unfolding metadata_ok_def by blast
    then show "nm_cache_key m' = k \<and> (\<forall>r \<in> set (nm_ranges m'). good_for ve V k r)" using m(2,3) by auto
  qed
  moreover have "journal_ok ve V dir" by (rule journal_ok_grows [OF inv(3) assms(6)]) simp
  ultimately show ?thesis by (simp add: sys_inv_def)
qed

lemma sys_step_keeps:
  assumes "sys_step ve obj V sy sy'" "crates_ok ve dec V" "sys_inv ve dec obj V sy"
  shows "sys_inv ve dec obj V sy'"
  using assms
proof (induction rule: sys_step.induct)
  case (step_begin bs io sy uuid k s e c w disk t)
  then show ?case by (intro begin_keeps)
next
  case (step_chunk sy as w t acc bs io chunk u w' disk)
  then show ?case by (intro chunk_keeps)
next
  case (step_chunk_failed sy as w t acc bs io chunk err w' disk io')
  note f = write_range_chunk_frame [OF step_chunk_failed(2)]
  show ?case by (rule abort_keeps [OF step_chunk_failed(3,4,1)]) (use f in simp_all)
next
  case (step_abort sy as w t acc bs io)
  show ?case by (rule abort_keeps [OF step_abort(2,3,1)]) simp_all
next
  case (step_commit sy as w t acc bs ob io ttl res st)
  then show ?case by (intro commit_keeps)
next
  case (step_consolidate k p inp sy rm ev res ct t)
  show ?case by (rule consolidate_keeps [OF step_consolidate(5,6,1,4,2,3)])
next
  case (step_remove sy fs meta dir acc' cv mc)
  show ?case by (rule remove_keeps [OF step_remove(5,6,1-4)])
qed

interpretation sys: transition_invariant sys_init "sys_step ve obj V"
    "\<lambda>sy. crates_ok ve dec V \<longrightarrow> sys_inv ve dec obj V sy" for ve dec obj V
proof
  fix sy assume "sys_init sy"
  then show "crates_ok ve dec V \<longrightarrow> sys_inv ve dec obj V sy"
    by (simp add: sys_init_def sys_inv_def files_ok_def metadata_ok_def journal_ok_def writers_ok_def
        dir_entries_def primary_terminated_def)
qed (use sys_step_keeps in blast)

end
