(* ===== verification/Cached_Response.thy ===== *)
theory Cached_Response
  imports Cache_System
begin

text \<open>
  Responses served from a running cache. \<open>Cache_System\<close> describes what the writers, the journal,
  consolidation and removal do to the shared disk; \<open>Range_Serve\<close> describes what one load does. Here
  the two run together: whatever a load reads of the disk is something the disk held at some
  point of a run. The theorem at the end is the contract of the cache: a response put together
  from cached ranges and fetched ones carries the bytes of the object's version.
\<close>

section \<open>Observations of a run\<close>

text \<open>\<open>PendingRangeView\<close>, as the borrowed view of a full journal entry.\<close>

definition entry_view :: "JournalEntry \<Rightarrow> PendingRangeView" where
  "entry_view e =
     \<lparr> pv_cache_key = je_cache_key e, pv_operation = je_operation e, pv_range_spec = je_range_spec e,
       pv_object_etag = map_option om_etag (je_object_metadata e) \<rparr>"

text \<open>
  Each metadata file, each journal and each range file is read at a moment of its own, so that
  each comes from a state of \<open>S\<close>, and different ones may come from different states. Lines that
  the borrowed view accepts are lines of the journal code: the full entry parses from them too.
\<close>

definition observes :: "VersionEnv \<Rightarrow> JsonCodec \<Rightarrow> CacheSystem set \<Rightarrow> ServeObs \<Rightarrow> bool" where
  "observes ve jc S ob \<longleftrightarrow>
     jc_key jc = js_key (we_journal ve) \<and>
     (\<forall>k m. get_metadata jc (le_cap (so_env ob)) (le_now (so_env ob)) (le_metadata (so_env ob) k) = Inr (Some m) \<longrightarrow>
        (\<exists>sy \<in> S. \<exists>p. writer_metadata_path ve k = Inr p \<and> ms_metadata (sy_store sy) p = Some m)) \<and>
     (\<forall>files f c. le_journals (so_env ob) = Some files \<longrightarrow> f \<in> set files \<longrightarrow> jf_is_file f \<longrightarrow> jf_content f = Some c \<longrightarrow>
        (\<exists>sy \<in> S. (jf_name f, c) \<in> set (ms_journals (sy_store sy))) \<and>
        (\<forall>line \<in> set (str_lines c). \<forall>v. jc_view jc line = Some v \<longrightarrow>
           (\<exists>e. js_parse (we_journal ve) line = Some e \<and> v = entry_view e))) \<and>
     (\<forall>p. \<exists>sy \<in> S. so_fs ob p = sy_fs sy p)"

definition runs_of :: "VersionEnv \<Rightarrow> (string \<Rightarrow> string \<Rightarrow> string) \<Rightarrow> (string \<times> string) set \<Rightarrow> CacheSystem set" where
  "runs_of ve obj V = {sy. reach sys_init (sys_step ve obj V) sy}"

lemma pending_line_entry:
  assumes "pending_range blake3 jc k t line = Some r" "jc_key jc = js_key js"
    and "\<And>v. jc_view jc line = Some v \<Longrightarrow> \<exists>e. js_parse js line = Some e \<and> v = entry_view e"
  shows "\<exists>e. line_entry js k line = Some e \<and> carries_bytes (je_operation e) \<and> je_range_spec e = r"
proof -
  obtain v where v: "jc_view jc line = Some v" "pv_cache_key v = k" "pv_operation v = Add" "pv_range_spec v = r"
    using assms(1) by (rule pending_range_Some)
  obtain e where e: "js_parse js line = Some e" "v = entry_view e" using assms(3) [OF v(1)] by blast
  have "trim line \<noteq> []" "contains_str (js_key js k) line"
    using assms(1,2) by (auto simp: pending_range_def split: if_splits)
  then have "line_entry js k line = Some e" using e v(2) by (simp add: line_entry_def entry_view_def)
  then show ?thesis using e(2) v(3,4) by (auto simp: entry_view_def carries_bytes_def)
qed

lemma observes_files:
  assumes "observes ve jc S ob" "\<forall>sy \<in> S. sys_inv ve dec obj V sy"
  shows "files_ok (we_blake3 ve) (we_pct ve) dec obj V (so_fs ob)"
proof -
  have "\<exists>sy. sys_inv ve dec obj V sy \<and> so_fs ob p = sy_fs sy p" for p
    using assms unfolding observes_def by blast
  then show ?thesis unfolding files_ok_def sys_inv_def by metis
qed

lemma observes_pending:
  assumes "observes ve jc S ob" "\<forall>sy \<in> S. sys_inv ve dec obj V sy" "(k, t) \<in> V"
    and "r \<in> set (pending_specs blake3 jc (le_journals (so_env ob)) k t)"
  shows "good_for ve V k r"
proof -
  obtain files where files: "le_journals (so_env ob) = Some files"
    and r: "r \<in> set (List.map_filter (pending_range blake3 jc k t) (journal_lines files))"
    using assms(4) by (cases "le_journals (so_env ob)") (simp_all add: pending_specs_def)
  obtain line where line: "line \<in> set (journal_lines files)" "pending_range blake3 jc k t line = Some r"
    using map_filter_set [OF r] by blast
  obtain f c where f: "f \<in> set files" "jf_is_file f" "ends_with ''.journal'' (jf_name f)" "jf_content f = Some c"
    "line \<in> set (str_lines c)" using line(1)
    by (auto simp: journal_lines_def split: if_splits option.splits) (metis (no_types))
  have obs: "jc_key jc = js_key (we_journal ve)" "\<exists>sy \<in> S. (jf_name f, c) \<in> set (ms_journals (sy_store sy))"
    "\<And>v. jc_view jc line = Some v \<Longrightarrow> \<exists>e. js_parse (we_journal ve) line = Some e \<and> v = entry_view e"
    using assms(1) files f(1,2,4,5) unfolding observes_def by blast+
  obtain e where e: "line_entry (we_journal ve) k line = Some e" "carries_bytes (je_operation e)" "je_range_spec e = r"
    using pending_line_entry [OF line(2) obs(1,3)] by blast
  obtain sy where sy: "sy \<in> S" "(jf_name f, c) \<in> set (ms_journals (sy_store sy))" using obs(2) by blast
  have "e \<in> set (List.map_filter (line_entry (we_journal ve) k) (str_lines c))"
    using e(1) f(5) by (force simp: List.map_filter_def)
  then have "e \<in># journal_entries (we_journal ve) k (jf_name f, c)" using f(3) by (simp add: journal_entries_def)
  then have "e \<in># dir_entries (we_journal ve) k (ms_journals (sy_store sy))" using sy(2) by (auto simp: dir_entries_iff)
  then have "good_for ve V k (je_range_spec e)"
    using assms(2,3) sy(1) e(2) unfolding sys_inv_def journal_ok_def by blast
  then show ?thesis using e(3) by simp
qed

lemma observes_lookup:
  assumes "observes ve jc S ob" "\<forall>sy \<in> S. sys_inv ve dec obj V sy"
  shows "lookup_ok (we_blake3 ve) (we_pct ve) jc V (so_env ob)"
  unfolding lookup_ok_def
proof (intro allI impI conjI ballI)
  fix k t m r assume v: "(k, t) \<in> V" and r: "r \<in> set (nm_ranges m)"
    and m: "get_metadata jc (le_cap (so_env ob)) (le_now (so_env ob)) (le_metadata (so_env ob) k) = Inr (Some m)"
  obtain sy p where sy: "sy \<in> S" "writer_metadata_path ve k = Inr p" "ms_metadata (sy_store sy) p = Some m"
    using assms(1) m unfolding observes_def by blast
  then have "metadata_ok ve V (ms_metadata (sy_store sy))" using assms(2) by (simp add: sys_inv_def)
  then show "good_for ve V k r" using v r sy(2,3) unfolding metadata_ok_def by blast
qed (rule observes_pending [OF assms])

section \<open>Serving while the cache runs\<close>

inductive serve_step ::
    "VersionEnv \<Rightarrow> ServeEnv \<Rightarrow> (string \<Rightarrow> string \<Rightarrow> string) \<Rightarrow> (string \<times> string) set \<Rightarrow> ServeState \<Rightarrow> ServeState \<Rightarrow> bool"
  for ve se obj V where
  step_load:
    "load_range_data_with_cache se s k r = (res, s') \<Longrightarrow> (k, rg_etag r) \<in> V \<Longrightarrow> serve_step ve se obj V s s'"
| step_invalidate: "serve_step ve se obj V s (remove_from_ram_cache_unified se k s)"
| step_observe:
    "(\<And>n. observes ve (se_json se) (runs_of ve obj V) (obs n)) \<Longrightarrow>
     serve_step ve se obj V s (s \<lparr> sv_obs := obs \<rparr>)"

definition serve_init ::
    "VersionEnv \<Rightarrow> ServeEnv \<Rightarrow> (string \<Rightarrow> string \<Rightarrow> string) \<Rightarrow> (string \<times> string) set \<Rightarrow> ServeState \<Rightarrow> bool" where
  "serve_init ve se obj V s \<longleftrightarrow>
     (\<forall>c. sv_ram s = Some c \<longrightarrow> (\<exists>tot n alg. ram_init tot n alg c)) \<and>
     (\<forall>n. observes ve (se_json se) (runs_of ve obj V) (sv_obs s n))"

text \<open>The loader and the writers of one process use the same hash and codec.\<close>

definition same_process :: "VersionEnv \<Rightarrow> ServeEnv \<Rightarrow> (string \<times> string) set \<Rightarrow> bool" where
  "same_process ve se V \<longleftrightarrow> se_blake3 se = we_blake3 ve \<and> crates_ok ve (se_dec se) V"

lemma runs_inv:
  assumes "crates_ok ve dec V" shows "\<forall>sy \<in> runs_of ve obj V. sys_inv ve dec obj V sy"
  using sys.reach_inv assms unfolding runs_of_def by blast

lemma observes_run_ok:
  assumes "same_process ve se V" "observes ve (se_json se) (runs_of ve obj V) ob"
  shows "lookup_ok (se_blake3 se) (we_pct ve) (se_json se) V (so_env ob)"
    "files_ok (se_blake3 se) (we_pct ve) (se_dec se) obj V (so_fs ob)"
proof -
  have s: "se_blake3 se = we_blake3 ve" and "crates_ok ve (se_dec se) V" using assms(1) by (simp_all add: same_process_def)
  note inv = runs_inv [OF this(2), of obj]
  show "lookup_ok (se_blake3 se) (we_pct ve) (se_json se) V (so_env ob)"
    "files_ok (se_blake3 se) (we_pct ve) (se_dec se) obj V (so_fs ob)"
    using observes_lookup [OF assms(2) inv] observes_files [OF assms(2) inv] by (simp_all add: s)
qed

lemma ram_new_empty: "ram_init tot n alg c \<Longrightarrow> ram_ok blake3 lay c \<and> ram_view blake3 c k = None"
  using ram_new_inv [of tot n alg c blake3 lay]
  by (auto simp: ram_inv_def ram_init_def ram_view_def ram_lookup_def shard_for_def ram_new_def Let_def shard_new_def
      ram_ok_def shard_index_def)

lemma remove_ram_inv:
  assumes "serve_inv se pct obj V s"
  shows "serve_inv se pct obj V (remove_from_ram_cache_unified se k s)"
proof (cases "sv_ram s")
  case (Some c)
  let ?c1 = "ram_invalidate (se_blake3 se) (se_layout se) k c"
  let ?c2 = "snd (ram_invalidate_by_prefix (se_layout se) (k @ '':range:'') ?c1)"
  have ok: "ram_ok (se_blake3 se) (se_layout se) c" using assms Some by (simp add: serve_inv_def)
  note i = ram_invalidate_ok [OF ok, of k]
  note p = ram_invalidate_by_prefix_ok [OF i(1), of "k @ '':range:''"]
  have "ram_view (se_blake3 se) c key = Some v" if "ram_view (se_blake3 se) ?c2 key = Some v" for key v
    using that unfolding ram_view_def p(2) i(2) by (auto simp: restrict_map_def split: if_splits)
  then have "serve_inv se pct obj V (s \<lparr> sv_ram := Some ?c2 \<rparr>)"
    using assms Some p(1) by (simp add: serve_inv_def)
  then show ?thesis using Some assms by (simp add: remove_from_ram_cache_unified_def)
qed (use assms in \<open>simp add: remove_from_ram_cache_unified_def serve_inv_def\<close>)

interpretation served: transition_invariant "serve_init ve se obj V" "serve_step ve se obj V"
    "\<lambda>s. same_process ve se V \<longrightarrow> serving se (we_pct ve) obj V s" for ve se obj V
proof
  fix s assume init: "serve_init ve se obj V s"
  show "same_process ve se V \<longrightarrow> serving se (we_pct ve) obj V s"
  proof
    assume p: "same_process ve se V"
    have "ram_ok (se_blake3 se) (se_layout se) c \<and> ram_view (se_blake3 se) c key = None" if "sv_ram s = Some c" for c key
      using init that ram_new_empty unfolding serve_init_def by blast
    moreover have "observes ve (se_json se) (runs_of ve obj V) (sv_obs s n)" for n
      using init by (simp add: serve_init_def)
    note observes_run_ok [OF p this]
    ultimately show "serving se (we_pct ve) obj V s"
      using p by (simp add: serving_def serve_inv_def same_process_def crates_ok_def)
  qed
next
  fix s s' assume inv: "same_process ve se V \<longrightarrow> serving se (we_pct ve) obj V s" and step: "serve_step ve se obj V s s'"
  show "same_process ve se V \<longrightarrow> serving se (we_pct ve) obj V s'"
  proof
    assume p: "same_process ve se V"
    with inv have s: "serving se (we_pct ve) obj V s" by blast
    from step show "serving se (we_pct ve) obj V s'"
    proof cases
      case (step_load k r res)
      then show ?thesis using serve.load_inv [OF s] by blast
    next
      case (step_invalidate k)
      then show ?thesis using s remove_ram_inv by (simp add: serving_def)
    next
      case (step_observe obs)
      have "lookup_ok (se_blake3 se) (we_pct ve) (se_json se) V (so_env (obs n)) \<and>
        files_ok (se_blake3 se) (we_pct ve) (se_dec se) obj V (so_fs (obs n))" for n
        using observes_run_ok [OF p step_observe(2)] by blast
      then show ?thesis using s step_observe(1) by (simp add: serving_def serve_inv_def)
    qed
  qed
qed

section \<open>A sample run\<close>

text \<open>A run that stores five bytes of an object, and a response served from it.\<close>

abbreviation sample_versions :: "(string \<times> string) set" where
  "sample_versions \<equiv> {(''b/k'', ''v'')}"

definition sample_view_codec :: "JournalEntry \<Rightarrow> JsonCodec" where
  "sample_view_codec e = \<lparr> jc_metadata = (\<lambda>_. None), jc_object = (\<lambda>_. None),
     jc_view = (\<lambda>line. if line = ''{e}'' then Some (entry_view e) else None), jc_key = (\<lambda>_. []) \<rparr>"

definition sample_serve_env :: "JournalEntry \<Rightarrow> ServeEnv" where
  "sample_serve_env e = \<lparr> se_blake3 = zero_digest, se_dec = read_stored_frame (\<lambda>_. 0),
     se_json = sample_view_codec e, se_layout = (8, 8), se_ram_cache_enabled = False \<rparr>"

definition sample_serve_obs :: "fs \<Rightarrow> ServeObs" where
  "sample_serve_obs fs = \<lparr> so_env = \<lparr> le_now = 0, le_cap = 100, le_shared = True,
       le_metadata = (\<lambda>_. \<lparr> mi_exists = False, mi_permit = True, mi_joined = True, mi_obs = sample_obs [] \<rparr>),
       le_journals = Some [\<lparr> jf_name = ''h:1.journal'', jf_is_file = True,
         jf_content = Some (''{e}'' @ [CHR 0x0A]) \<rparr>] \<rparr>,
     so_fs = fs, so_now = 0, so_now_ms = 0, so_unlocked = True, so_eligible = False \<rparr>"

definition sample_serve_state :: "Disk \<Rightarrow> ServeState" where
  "sample_serve_state disk = \<lparr> sv_ram = None, sv_stats = dk_stats disk, sv_ram_stats = stats_default,
     sv_ram_cache_size = 0, sv_ram_cache_hit_rate = 0, sv_obs = (\<lambda>_. sample_serve_obs (dk_fs disk)) \<rparr>"

lemma sample_same_process: "same_process (sample_version_env e) (sample_serve_env e) sample_versions"
  using store_codec_ok zero_digest_ok percent_encode_bytes_ok one_entry_codec_ok
  by (simp add: same_process_def crates_ok_def sample_version_env_def sample_serve_env_def versions_ok_def)

lemma sample_run:
  obtains e sy spec where
    "sy \<in> runs_of (sample_version_env e) (\<lambda>_ _. ''hello'') sample_versions"
    "ms_journals (sy_store sy) = [(''h:1.journal'', ''{e}'' @ [CHR 0x0A])]"
    "je_cache_key e = ''b/k''" "je_operation e = Add" "cr_start (je_range_spec e) = 0" "cr_end (je_range_spec e) = 4"
    "je_object_metadata e = Some (ObjectMetadata_default \<lparr> om_etag := ''v'' \<rparr>)"
    "load_range_data_for_version zero_digest (read_stored_frame (\<lambda>_. 0)) (cs_disk (sy_store sy)) (je_range_spec e)
       ''b/k'' ''v'' = (Inr ''hello'', cs_disk (sy_store sy))"
proof -
  obtain e w0 disk1 w disk spec st' where run:
    "begin_incremental_range_write zero_digest percent_encode_bytes concat 100 io_ok empty_disk ''u''
       ''b/k'' 0 4 False = (Inr w0, disk1)"
    "write_chunks (\<lambda>_. 0) (store_encoder (\<lambda>_. 0)) w0 disk1 [(io_ok, ''he''), (io_ok, ''llo'')] =
       (Inr (), w, disk)"
    "commit_incremental_range (sample_version_env e) (sample_version_io StatNotFound) w
       (ObjectMetadata_default \<lparr> om_etag := ''v'' \<rparr>) 60 (sample_cache_store disk) = Some (Inr (), st')"
    "finalize_incremental_range zero_digest percent_encode_bytes (\<lambda>_. 0) (store_encoder (\<lambda>_. 0)) io_ok
       0 w disk None ''v'' = (Inr (spec, False), cs_disk st')"
    and e: "je_cache_key e = ''b/k''" "je_operation e = Add" "same_file (je_range_spec e) spec"
      "je_object_metadata e = Some (ObjectMetadata_default \<lparr> om_etag := ''v'' \<rparr>)"
    and js: "ms_journals st' = [(''h:1.journal'', ''{e}'' @ [CHR 0x0A])]"
    by (rule sample_commit)
  let ?ve = "sample_version_env e" and ?obj = "\<lambda>_ _. ''hello''"
  let ?reach = "reach sys_init (sys_step ?ve ?obj sample_versions)"
  have env: "we_blake3 ?ve = zero_digest" "we_pct ?ve = percent_encode_bytes" "ve_dbg ?ve = concat"
    "ve_xxh32 ?ve = (\<lambda>_. 0)" "ve_enc ?ve = store_encoder (\<lambda>_. 0)" by (simp_all add: sample_version_env_def)
  note frame = write_chunks_frame [OF run(2)] begin_inv [OF run(1)]
  have key: "iw_cache_key w = ''b/k''" "iw_start w = 0" "iw_end w = 4" using frame by simp_all
  let ?st = "\<lambda>d ws. \<lparr> sy_store = sample_cache_store d, sy_writers = ws \<rparr>"
  have st: "set_disk d (\<lparr> sy_store = sample_cache_store d', sy_writers = ws \<rparr>) = ?st d ws" for d d' ws
    by (simp add: set_disk_def sample_cache_store_def)
  have disk: "cs_disk (sample_cache_store d) = d" for d by (simp add: sample_cache_store_def)
  have "?reach (?st empty_disk [])"
    by (rule reach_init) (simp add: sys_init_def sample_cache_store_def empty_disk_def)
  moreover have "sys_step ?ve ?obj sample_versions (?st empty_disk []) (?st disk1 [(w0, ''v'', [])])"
    using step_begin [where sy = "?st empty_disk []" and ve = ?ve and t = "''v''" and V = sample_versions,
        unfolded env] run(1) by (simp add: st disk)
  moreover obtain w1 d1 where chunks:
    "write_range_chunk (\<lambda>_. 0) (store_encoder (\<lambda>_. 0)) io_ok w0 disk1 ''he'' = (Inr (), w1, d1)"
    "write_range_chunk (\<lambda>_. 0) (store_encoder (\<lambda>_. 0)) io_ok w1 d1 ''llo'' = (Inr (), w, disk)"
    using run(2) by (auto split: prod.splits sum.splits)
  have w1: "iw_cache_key w1 = ''b/k''" "iw_start w1 = 0" "iw_end w1 = 4" "iw_cache_key w0 = ''b/k''"
    "iw_start w0 = 0" "iw_end w0 = 4"
    using frame write_range_chunk_frame [OF chunks(1)] by simp_all
  have chunk: "sys_step ?ve ?obj sample_versions (?st d [(a, ''v'', acc)]) (?st d' [(a', ''v'', acc @ c)])"
    if "write_range_chunk (\<lambda>_. 0) (store_encoder (\<lambda>_. 0)) io_ok a d c = (Inr (), a', d')"
      "acc @ c = take (length (acc @ c)) (object_bytes ''hello'' (iw_start a) (iw_end a))" for a d acc a' d' c
  proof -
    have "sys_step ?ve ?obj sample_versions (?st d [(a, ''v'', acc)])
        (set_disk d' ((?st d [(a, ''v'', acc)]) \<lparr> sy_writers := [] @ (a', ''v'', acc @ c) # [] \<rparr>))"
    proof (rule step_chunk [where io = io_ok and w = a and acc = acc])
      show "write_range_chunk (ve_xxh32 ?ve) (ve_enc ?ve) io_ok a (cs_disk (sy_store (?st d [(a, ''v'', acc)]))) c =
          (Inr (), a', d')" using that(1) by (simp add: env disk)
    qed (simp, rule that(2))
    then show ?thesis by (simp add: st)
  qed
  have "sys_step ?ve ?obj sample_versions (?st disk1 [(w0, ''v'', [])]) (?st d1 [(w1, ''v'', ''he'')])"
    using chunk [OF chunks(1), of "[]"] w1 by (simp add: Rust_Prelude.slice_def)
  moreover have "sys_step ?ve ?obj sample_versions (?st d1 [(w1, ''v'', ''he'')]) (?st disk [(w, ''v'', ''hello'')])"
    using chunk [OF chunks(2), of "''he''"] w1 by (simp add: Rust_Prelude.slice_def)
  moreover have "sys_step ?ve ?obj sample_versions (?st disk [(w, ''v'', ''hello'')]) \<lparr> sy_store = st', sy_writers = [] \<rparr>"
  proof -
    let ?sy = "?st disk [(w, ''v'', ''hello'')]"
    have "commit_incremental_range ?ve (sample_version_io StatNotFound) w (ObjectMetadata_default \<lparr> om_etag := ''v'' \<rparr>) 60
        (sy_store ?sy) = Some (Inr (), st')" using run(3) by simp
    from step_commit [where sy = ?sy and as = "[]" and bs = "[]", OF _ _ _ this]
    have "sys_step ?ve ?obj sample_versions ?sy (?sy \<lparr> sy_store := st', sy_writers := [] @ [] \<rparr>)"
      using sample_read_version(1) by simp
    then show ?thesis by simp
  qed
  ultimately have "?reach \<lparr> sy_store = st', sy_writers = [] \<rparr>" by (blast intro: reach_step)
  then have sy: "\<lparr> sy_store = st', sy_writers = [] \<rparr> \<in> runs_of ?ve ?obj sample_versions" by (simp add: runs_of_def)
  have "writer_inv (read_stored_frame (\<lambda>_. 0)) w disk ''hello''"
    using write_chunks_inv [OF store_codec_ok frame(2) run(2)] by simp
  from finalize_ok [OF store_codec_ok zero_digest_ok percent_encode_bytes_ok this _ _ _ _ run(4)]
  have f: "cr_start spec = 0" "cr_end spec = 4"
    "holds_body zero_digest (read_stored_frame (\<lambda>_. 0)) (cs_disk st') spec (Some (''b/k'', ''v'')) ''hello''"
    using frame key by simp_all
  from holds_body_load [OF holds_body_same_file [OF e(3) f(3)]]
  have "load_range_data_for_version zero_digest (read_stored_frame (\<lambda>_. 0)) (cs_disk st') (je_range_spec e)
      ''b/k'' ''v'' = (Inr ''hello'', cs_disk st')" by (simp add: load_range_data_for_version_def)
  then show thesis using that [OF sy] js e f by (simp add: same_file_def)
qed

lemma sample_resolve:
  assumes "je_cache_key e = ''b/k''" "je_operation e = Add" "cr_start (je_range_spec e) = 0" "cr_end (je_range_spec e) = 4"
    and "range_file_belongs_to (je_range_spec e) (object_version_id zero_digest ''v'')"
    and "je_object_metadata e = Some (ObjectMetadata_default \<lparr> om_etag := ''v'' \<rparr>)"
  shows "resolve_range_spec zero_digest (sample_view_codec e) (so_env (sample_serve_obs fs)) ''b/k'' (sample_range 0 4) =
    Inr (je_range_spec e)"
proof -
  have "str_lines (''{e}'' @ [CHR 0x0A]) = [''{e}'']" "trim ''{e}'' \<noteq> []" "contains_str [] ''{e}''"
    "ends_with ''.journal'' ''h:1.journal''" by code_simp+
  then have "find_pending_journal_ranges zero_digest (sample_view_codec e) True
      (Some [\<lparr> jf_name = ''h:1.journal'', jf_is_file = True, jf_content = Some (''{e}'' @ [CHR 0x0A]) \<rparr>])
      ''b/k'' 0 4 (Some ''v'') = [je_range_spec e]"
    using assms
    by (simp add: find_pending_journal_ranges_def journal_lines_def pending_range_def sample_view_codec_def
        List.map_filter_def entry_view_def view_matches_def entry_matches_object_version_def)
  then show ?thesis using assms(3,4)
    by (simp add: resolve_range_spec_def sample_serve_obs_def sample_range_def get_metadata_def)
qed

section \<open>The contract\<close>

text \<open>
  C1: The bytes the cache serves are the bytes of the object. Take any run in which writers begin,
  append, fail, abort and commit ranges of object versions, versions replace each other, the
  journal is consolidated and files and metadata are removed, with I/O failing at any point; and
  any run of loads, invalidations and promotions against it, reading the disk at arbitrary moments.
  Whenever the merge of cached ranges and fetched segments of a version succeeds, its data is
  exactly the requested slice of that version, byte for byte, and the two byte counters add up to
  its length.
\<close>

theorem cached_response_bytes:
  assumes "same_process ve se V" "reach (serve_init ve se obj V) (serve_step ve se obj V) s"
    and "merge_range_segments (load_range_data_with_cache se) s k req cached fetched = (Inr res, s')"
    and "sources_ok (obj k etag) etag cached fetched" "(k, etag) \<in> V"
    and "r_start req \<le> r_end req" "r_end req < u64_max"
  shows "rm_data res = object_bytes (obj k etag) (r_start req) (r_end req) \<and>
    length (rm_data res) = r_end req + 1 - r_start req \<and>
    rm_bytes_from_cache res + rm_bytes_from_s3 res = length (rm_data res)"
proof -
  have "serving se (we_pct ve) obj V s" using served.reach_inv [OF assms(2)] assms(1) by blast
  from serve.merge_body [OF assms(3) this assms(4,6,7,5)] show ?thesis by blast
qed

theorem cached_response_bytes_witness:
  "\<exists>e s res s'. reach (serve_init (sample_version_env e) (sample_serve_env e) (\<lambda>_ _. ''hello'') sample_versions)
       (serve_step (sample_version_env e) (sample_serve_env e) (\<lambda>_ _. ''hello'') sample_versions) s \<and>
     merge_range_segments (load_range_data_with_cache (sample_serve_env e)) s ''b/k'' (mk_range 1 3)
       [sample_range 0 4] [] = (Inr res, s') \<and> rm_data res = ''ell''"
proof -
  obtain e sy where sy: "sy \<in> runs_of (sample_version_env e) (\<lambda>_ _. ''hello'') sample_versions"
    and js: "ms_journals (sy_store sy) = [(''h:1.journal'', ''{e}'' @ [CHR 0x0A])]"
    and e: "je_cache_key e = ''b/k''" "je_operation e = Add" "cr_start (je_range_spec e) = 0" "cr_end (je_range_spec e) = 4"
      "je_object_metadata e = Some (ObjectMetadata_default \<lparr> om_etag := ''v'' \<rparr>)"
    and load: "load_range_data_for_version zero_digest (read_stored_frame (\<lambda>_. 0)) (cs_disk (sy_store sy))
       (je_range_spec e) ''b/k'' ''v'' = (Inr ''hello'', cs_disk (sy_store sy))"
    by (rule sample_run)
  let ?ve = "sample_version_env e" and ?se = "sample_serve_env e" and ?obj = "\<lambda>_ _. ''hello''"
  let ?disk = "cs_disk (sy_store sy)"
  let ?s = "sample_serve_state ?disk"
  have lines: "str_lines (''{e}'' @ [CHR 0x0A]) = [''{e}'']" by code_simp
  have "observes ?ve (se_json ?se) (runs_of ?ve ?obj sample_versions) (sample_serve_obs (dk_fs ?disk))"
  proof -
    have env: "se_json ?se = sample_view_codec e" "we_journal ?ve = one_entry_codec e"
      by (simp_all add: sample_serve_env_def sample_version_env_def)
    show ?thesis unfolding observes_def env
    proof (intro conjI allI impI)
      fix files f c assume "le_journals (so_env (sample_serve_obs (dk_fs ?disk))) = Some files" "f \<in> set files"
        "jf_content f = Some c"
      then have f: "jf_name f = ''h:1.journal''" "c = ''{e}'' @ [CHR 0x0A]" by (auto simp: sample_serve_obs_def)
      show "\<exists>sy \<in> runs_of ?ve ?obj sample_versions. (jf_name f, c) \<in> set (ms_journals (sy_store sy))"
        using sy js f by (intro bexI [of _ sy]) simp_all
      show "\<forall>line \<in> set (str_lines c). \<forall>v. jc_view (sample_view_codec e) line = Some v \<longrightarrow>
          (\<exists>e'. js_parse (one_entry_codec e) line = Some e' \<and> v = entry_view e')"
        unfolding f(2) lines by (simp add: sample_view_codec_def one_entry_codec_def)
    next
      fix p show "\<exists>sy' \<in> runs_of ?ve ?obj sample_versions. so_fs (sample_serve_obs (dk_fs ?disk)) p = sy_fs sy' p"
        using sy by (intro bexI [of _ sy]) (simp_all add: sample_serve_obs_def)
    qed (simp_all add: sample_serve_obs_def get_metadata_def sample_view_codec_def one_entry_codec_def)
  qed
  then have "serve_init ?ve ?se ?obj sample_versions ?s" by (simp add: serve_init_def sample_serve_state_def)
  then have reach: "reach (serve_init ?ve ?se ?obj sample_versions) (serve_step ?ve ?se ?obj sample_versions) ?s"
    by (rule reach_init)
  have eta: "\<lparr> dk_fs = dk_fs d, dk_stats = dk_stats d \<rparr> = d" for d :: Disk by simp
  have "load_range_data_from_new_storage zero_digest (read_stored_frame (\<lambda>_. 0)) (sample_view_codec e)
      (so_env (sample_serve_obs fs)) ?disk ''b/k'' (sample_range 0 4) = (Inr ''hello'', ?disk)" for fs
    using sample_resolve [OF e(1-4) load_belongs [OF load] e(5)] load
    by (simp add: load_range_data_from_new_storage_def sample_range_def)
  then have "\<exists>s'. load_range_data_with_cache ?se ?s ''b/k'' (sample_range 0 4) = (Inr (''hello'', False), s')"
    by (simp add: load_range_data_with_cache_def Let_def sample_serve_env_def sample_serve_state_def
        ram_lookup_range_def sample_serve_obs_def eta)
  then obtain s' where "load_range_data_with_cache ?se ?s ''b/k'' (sample_range 0 4) = (Inr (''hello'', False), s')" by blast
  then obtain res where merge: "merge_range_segments (load_range_data_with_cache ?se) ?s ''b/k'' (mk_range 1 3)
      [sample_range 0 4] [] = (Inr res, s')"
    by (simp add: merge_range_segments_def merge_plan_def List.map_filter_def cached_segment_def calculate_overlap_def
        validate_plan_def merge_segment_def append_cached_def extract_bytes_from_cached_range_def sample_range_def
        u64_simps Let_def range_len_def)
  have "sources_ok ''hello'' ''v'' [sample_range 0 4] []" by (simp add: sources_ok_def sample_range_def)
  from cached_response_bytes [OF sample_same_process reach merge this] 
  have "rm_data res = ''ell''" by (simp add: Rust_Prelude.slice_def)
  with reach merge show ?thesis by blast
qed

end
