(* ===== verification/Aws_Chunked.thy ===== *)
theory Aws_Chunked
  imports Rust_Prelude
begin

text \<open>
  The aws-chunked decoders of \<open>src/src/aws_chunked_decoder.rs\<close>: the whole-buffer decoder, the
  incremental one that the streaming write path runs on its cache branch, and the encoder. Bodies
  are lists of bytes. A grammar of the wire format, \<open>framed\<close>, is the common specification: both
  decoders accept exactly the bodies it describes, within their length limits, and return their
  content.
\<close>

section \<open>Error texts of the standard library\<close>

text \<open>The \<open>Display\<close> form of \<open>Utf8Error\<close>: where the first bad sequence starts and how long it is.\<close>

function utf8_valid_up_to :: "nat list \<Rightarrow> nat" where
  "utf8_valid_up_to xs =
     (let k = utf8_head xs in if xs = [] \<or> k = 0 then 0 else k + utf8_valid_up_to (drop k xs))"
  by pat_completeness auto
termination
  by (relation "measure length") (auto simp: Let_def)

definition utf8_error_len :: "nat list \<Rightarrow> nat option" where
  "utf8_error_len xs =
     (case xs of
        [] \<Rightarrow> None
      | a # ys \<Rightarrow>
          if 194 \<le> a \<and> a \<le> 223 then (if ys = [] then None else Some 1)
          else if 224 \<le> a \<and> a \<le> 239 then
            (case ys of
               [] \<Rightarrow> None
             | b # zs \<Rightarrow>
                 if \<not> ((if a = 224 then 160 else 128) \<le> b \<and> b \<le> (if a = 237 then 159 else 191)) then Some 1
                 else if zs = [] then None else Some 2)
          else if 240 \<le> a \<and> a \<le> 244 then
            (case ys of
               [] \<Rightarrow> None
             | b # zs \<Rightarrow>
                 if \<not> ((if a = 240 then 144 else 128) \<le> b \<and> b \<le> (if a = 244 then 143 else 191)) then Some 1
                 else (case zs of
                         [] \<Rightarrow> None
                       | c # us \<Rightarrow>
                           if \<not> utf8_cont c then Some 2 else if us = [] then None else Some 3))
          else Some 1)"

definition show_utf8_error :: "string \<Rightarrow> string" where
  "show_utf8_error s =
     (let xs = map of_char s; i = utf8_valid_up_to xs
      in case utf8_error_len (drop i xs) of
           Some n \<Rightarrow> ''invalid utf-8 sequence of '' @ show_nat n @ '' bytes from index '' @ show_nat i
         | None \<Rightarrow> ''incomplete utf-8 byte sequence from index '' @ show_nat i)"

text \<open>The \<open>Display\<close> form of \<open>ParseIntError\<close>.\<close>

fun digits_error :: "nat \<Rightarrow> nat \<Rightarrow> nat \<Rightarrow> string \<Rightarrow> string" where
  "digits_error radix mx acc [] = []"
| "digits_error radix mx acc (c # cs) =
     (case to_digit radix c of
        None \<Rightarrow> ''invalid digit found in string''
      | Some d \<Rightarrow>
          (let v = acc * radix + d
           in if v > mx then ''number too large to fit in target type'' else digits_error radix mx v cs))"

definition show_parse_int_error :: "nat \<Rightarrow> nat \<Rightarrow> string \<Rightarrow> string" where
  "show_parse_int_error radix mx s =
     (case s of
        [] \<Rightarrow> ''cannot parse integer from empty string''
      | c # cs \<Rightarrow>
          if c = CHR ''+'' then
            (if cs = [] then ''invalid digit found in string'' else digits_error radix mx 0 cs)
          else digits_error radix mx 0 s)"

section \<open>Headers\<close>

definition MAX_TRAILER_SECTION_BYTES :: usize where
  "MAX_TRAILER_SECTION_BYTES = 8192"

datatype AwsChunkedError =
  InvalidChunkHeader string
| InvalidChunkSize string
| UnexpectedEof
| LengthMismatch u64 u64
| TrailerTooLarge usize usize

fun show_chunked_error :: "AwsChunkedError \<Rightarrow> string" where
  "show_chunked_error (InvalidChunkHeader msg) = ''Invalid chunk header: '' @ msg"
| "show_chunked_error (InvalidChunkSize msg) = ''Invalid chunk size: '' @ msg"
| "show_chunked_error UnexpectedEof = ''Unexpected end of input while parsing aws-chunked body''"
| "show_chunked_error (LengthMismatch expected actual) =
     ''Decoded length mismatch: expected '' @ show_nat expected @ '' bytes, got '' @ show_nat actual @ '' bytes''"
| "show_chunked_error (TrailerTooLarge sz mx) =
     ''Trailer section too large: '' @ show_nat sz @ '' bytes exceeds '' @ show_nat mx @ '' byte limit''"

definition streaming_sentinels :: "string list" where
  "streaming_sentinels =
     [''STREAMING-AWS4-HMAC-SHA256-PAYLOAD'', ''STREAMING-AWS4-ECDSA-P256-SHA256-PAYLOAD'',
      ''STREAMING-UNSIGNED-PAYLOAD-TRAILER'', ''STREAMING-AWS4-HMAC-SHA256-PAYLOAD-TRAILER'',
      ''STREAMING-AWS4-ECDSA-P256-SHA256-PAYLOAD-TRAILER'']"

text \<open>
  \<open>str::to_lowercase\<close> as far as a search for an ASCII word without the letter \<open>i\<close> can tell: the
  Kelvin sign is the only other character whose lower case form has an ASCII letter.
\<close>

fun lowercase_view :: "string \<Rightarrow> string" where
  "lowercase_view [] = []"
| "lowercase_view (c # cs) =
     (if c = CHR 0xE2 \<and> take 2 cs = [CHR 0x84, CHR 0xAA] then CHR ''k'' # lowercase_view (drop 2 cs)
      else ascii_lower c # lowercase_view cs)"

definition is_aws_chunked :: "(string \<times> string) list \<Rightarrow> bool" where
  "is_aws_chunked headers =
     ((case map_of headers ''content-encoding'' of
         Some content_encoding \<Rightarrow> contains_str ''aws-chunked'' (lowercase_view content_encoding)
       | None \<Rightarrow> False) \<or>
      (case map_of headers ''x-amz-content-sha256'' of
         Some sha256 \<Rightarrow> sha256 \<in> set streaming_sentinels
       | None \<Rightarrow> False))"

definition get_decoded_content_length :: "(string \<times> string) list \<Rightarrow> u64 option" where
  "get_decoded_content_length headers =
     (case map_of headers ''x-amz-decoded-content-length'' of Some v \<Rightarrow> parse_u64 v | None \<Rightarrow> None)"

section \<open>The whole-buffer decoder\<close>

abbreviation cr :: char where
  "cr \<equiv> CHR 0x0D"

abbreviation lf :: char where
  "lf \<equiv> CHR 0x0A"

abbreviation crlf :: string where
  "crlf \<equiv> [cr, lf]"

record AwsChunkedDecodeResult =
  ar_data :: string
  ar_trailers :: "(string \<times> string) list"

definition find_crlf :: "string \<Rightarrow> usize \<Rightarrow> usize option" where
  "find_crlf data start =
     (if start \<ge> length data then None
      else find (\<lambda>i. data ! i = cr \<and> data ! (i + 1) = lf) [start..<length data - 1])"

definition parse_chunk_size :: "string \<Rightarrow> AwsChunkedError + usize" where
  "parse_chunk_size header =
     (let size_str = trim (hd (split_char (CHR '';'') header))
      in if size_str = [] then Inl (InvalidChunkSize ''Empty chunk size'')
         else (case from_str_radix 16 u64_max size_str of
                 Some n \<Rightarrow> Inr n
               | None \<Rightarrow>
                   Inl (InvalidChunkSize (''Invalid hex value '' @ [CHR 0x27] @ size_str @ [CHR 0x27] @ '': '' @
                          show_parse_int_error 16 u64_max size_str))))"

definition header_chunk_size :: "string \<Rightarrow> AwsChunkedError + usize" where
  "header_chunk_size header_bytes =
     (if \<not> from_utf8_ok header_bytes then Inl (InvalidChunkHeader (show_utf8_error header_bytes))
      else parse_chunk_size header_bytes)"

definition trailer_line :: "string \<Rightarrow> AwsChunkedError + (string \<times> string)" where
  "trailer_line line_bytes =
     (if \<not> from_utf8_ok line_bytes then Inl (InvalidChunkHeader (show_utf8_error line_bytes))
      else (case split_once (CHR '':'') line_bytes of
              Some (key, v) \<Rightarrow> Inr (trim key, trim v)
            | None \<Rightarrow>
                Inl (InvalidChunkHeader (''Trailer line missing colon separator: '' @ [CHR 0x27] @
                       line_bytes @ [CHR 0x27]))))"

lemma find_crlf_Some:
  assumes "find_crlf data start = Some i"
  shows "start \<le> i" "i + 1 < length data" "data ! i = cr" "data ! (i + 1) = lf"
    "\<And>j. start \<le> j \<Longrightarrow> j < i \<Longrightarrow> \<not> (data ! j = cr \<and> data ! (j + 1) = lf)"
proof -
  let ?P = "\<lambda>i. data ! i = cr \<and> data ! (i + 1) = lf"
  have f: "find ?P [start..<length data - 1] = Some i" "start < length data"
    using assms by (auto simp: find_crlf_def split: if_splits)
  obtain k where k: "k < length [start..<length data - 1]" "?P ([start..<length data - 1] ! k)"
    "[start..<length data - 1] ! k = i" "\<forall>j<k. \<not> ?P ([start..<length data - 1] ! j)"
    using f(1) by (auto simp: find_Some_iff)
  then have i: "i = start + k" "i < length data - 1" by auto
  then show "start \<le> i" "i + 1 < length data" "data ! i = cr" "data ! (i + 1) = lf" using k(2,3) by auto
  show "\<not> (data ! j = cr \<and> data ! (j + 1) = lf)" if "start \<le> j" "j < i" for j
    using k(1,4) i that by (auto dest!: spec [of _ "j - start"])
qed

lemma find_crlf_bounds: "find_crlf data start = Some i \<Longrightarrow> start \<le> i \<and> i + 1 < length data"
  using find_crlf_Some(1,2) by blast

function parse_trailers_loop ::
    "string \<Rightarrow> usize \<Rightarrow> usize \<Rightarrow> (string \<times> string) list \<Rightarrow>
     AwsChunkedError + ((string \<times> string) list \<times> usize)" where
  "parse_trailers_loop body trailer_start pos trailers =
     (if pos + 2 \<le> length body \<and> body ! pos = cr \<and> body ! (pos + 1) = lf then Inr (trailers, pos + 2)
      else if pos \<ge> length body then Inl UnexpectedEof
      else
        (case find_crlf body pos of
           None \<Rightarrow> Inl UnexpectedEof
         | Some line_end \<Rightarrow>
             let trailer_bytes_consumed = line_end + 2 - trailer_start
             in if trailer_bytes_consumed > MAX_TRAILER_SECTION_BYTES then
                  Inl (TrailerTooLarge trailer_bytes_consumed MAX_TRAILER_SECTION_BYTES)
                else
                  (case trailer_line (take (line_end - pos) (drop pos body)) of
                     Inl e \<Rightarrow> Inl e
                   | Inr t \<Rightarrow> parse_trailers_loop body trailer_start (line_end + 2) (trailers @ [t]))))"
  by pat_completeness auto
termination
  by (relation "measure (\<lambda>(body, _, pos, _). length body - pos)") (auto dest: find_crlf_Some(1))

definition parse_trailers :: "string \<Rightarrow> usize \<Rightarrow> AwsChunkedError + ((string \<times> string) list \<times> usize)" where
  "parse_trailers body pos = parse_trailers_loop body pos pos []"

function decode_loop :: "string \<Rightarrow> usize \<Rightarrow> string \<Rightarrow> AwsChunkedError + AwsChunkedDecodeResult" where
  "decode_loop body pos result =
     (case find_crlf body pos of
        None \<Rightarrow> Inl UnexpectedEof
      | Some header_end \<Rightarrow>
          (case header_chunk_size (take (header_end - pos) (drop pos body)) of
             Inl e \<Rightarrow> Inl e
           | Inr chunk_size \<Rightarrow>
               let pos = header_end + 2
               in if chunk_size = 0 then
                    (case parse_trailers body pos of
                       Inl e \<Rightarrow> Inl e
                     | Inr (trailers, pos) \<Rightarrow>
                         if pos \<noteq> length body then Inl (LengthMismatch pos (length body))
                         else Inr \<lparr> ar_data = result, ar_trailers = trailers \<rparr>)
                  else
                    (case checked_add pos chunk_size of
                       None \<Rightarrow> Inl UnexpectedEof
                     | Some chunk_end \<Rightarrow>
                         if chunk_end > length body then Inl UnexpectedEof
                         else
                           let result = result @ take (chunk_end - pos) (drop pos body)
                           in (case checked_add chunk_end 2 of
                                 None \<Rightarrow> Inl UnexpectedEof
                               | Some trailer_end \<Rightarrow>
                                   if trailer_end > length body then Inl UnexpectedEof
                                   else if take (trailer_end - chunk_end) (drop chunk_end body) \<noteq> crlf then
                                     Inl (InvalidChunkHeader ''Missing CRLF after chunk data'')
                                   else decode_loop body trailer_end result))))"
  by pat_completeness auto
termination
  by (relation "measure (\<lambda>(body, pos, _). length body - pos)")
    (auto simp: checked_add_Some dest!: find_crlf_bounds)

definition decode_aws_chunked :: "string \<Rightarrow> AwsChunkedError + AwsChunkedDecodeResult" where
  "decode_aws_chunked body = decode_loop body 0 []"

section \<open>The encoder\<close>

definition placeholder_sig :: string where
  "placeholder_sig = replicate 64 (CHR ''0'')"

definition chunk_header :: "usize \<Rightarrow> string" where
  "chunk_header n = show_radix 16 n @ '';chunk-signature='' @ placeholder_sig"

function encode_chunks :: "string \<Rightarrow> usize \<Rightarrow> string" where
  "encode_chunks data chunk_size =
     (if data = [] \<or> chunk_size = 0 then []
      else
        let current_chunk_size = min (length data) chunk_size
        in chunk_header current_chunk_size @ crlf @ take current_chunk_size data @ crlf @
           encode_chunks (drop current_chunk_size data) chunk_size)"
  by pat_completeness auto
termination
  by (relation "measure (length \<circ> fst)") (auto simp: min_def)

text \<open>\<open>None\<close> is the panic of the assertion.\<close>

definition encode_aws_chunked_with_trailers ::
    "string \<Rightarrow> usize \<Rightarrow> (string \<times> string) list \<Rightarrow> string option" where
  "encode_aws_chunked_with_trailers data chunk_size trailers =
     (if chunk_size = 0 then None
      else Some (encode_chunks data chunk_size @ ''0;chunk-signature='' @ placeholder_sig @ crlf @
                 concat (map (\<lambda>(key, v). key @ '':'' @ v @ crlf) trailers) @ crlf))"

definition encode_aws_chunked :: "string \<Rightarrow> usize \<Rightarrow> string option" where
  "encode_aws_chunked data chunk_size = encode_aws_chunked_with_trailers data chunk_size []"

section \<open>The incremental decoder\<close>

record AwsChunkedTrailers =
  at_trailers :: "(string \<times> string) list"
  at_decoded_len :: u64

datatype DecoderState = Header | Data usize | DataCrlf bool | Trailers | Done

record IncrementalAwsChunkedDecoder =
  dc_state :: DecoderState
  dc_line_buf :: string
  dc_decoded_len :: u64
  dc_trailers :: "(string \<times> string) list"
  dc_total_raw :: u64

definition decoder_new :: IncrementalAwsChunkedDecoder where
  "decoder_new = \<lparr> dc_state = Header, dc_line_buf = [], dc_decoded_len = 0, dc_trailers = [], dc_total_raw = 0 \<rparr>"

definition take_byte :: "char \<Rightarrow> IncrementalAwsChunkedDecoder \<Rightarrow> IncrementalAwsChunkedDecoder" where
  "take_byte b d = d \<lparr> dc_total_raw := u64_add (dc_total_raw d) 1, dc_line_buf := dc_line_buf d @ [b] \<rparr>"

fun feed_line ::
    "IncrementalAwsChunkedDecoder \<Rightarrow> string \<Rightarrow>
     (AwsChunkedError + bool) \<times> IncrementalAwsChunkedDecoder \<times> string" where
  "feed_line d [] = (Inr False, d, [])"
| "feed_line d (b # input) =
     (let d = take_byte b d;
          n = length (dc_line_buf d)
      in if n \<ge> 2 \<and> drop (n - 2) (dc_line_buf d) = crlf then
           (Inr True, d \<lparr> dc_line_buf := take (n - 2) (dc_line_buf d) \<rparr>, input)
         else if n > MAX_TRAILER_SECTION_BYTES then
           (Inl (InvalidChunkHeader ''Chunk header line exceeds maximum size''), d, input)
         else feed_line d input)"

fun feed_trailers ::
    "IncrementalAwsChunkedDecoder \<Rightarrow> string \<Rightarrow>
     (AwsChunkedError + bool) \<times> IncrementalAwsChunkedDecoder \<times> string" where
  "feed_trailers d [] = (Inr False, d, [])"
| "feed_trailers d (b # input) =
     (let d = take_byte b d;
          n = length (dc_line_buf d)
      in if dc_line_buf d = crlf \<or> n \<ge> 4 \<and> drop (n - 4) (dc_line_buf d) = crlf @ crlf then
           (Inr True, d, input)
         else if n > MAX_TRAILER_SECTION_BYTES then
           (Inl (TrailerTooLarge n MAX_TRAILER_SECTION_BYTES), d, input)
         else feed_trailers d input)"

lemma feed_line_rest: "feed_line d input = (r, d', rest) \<Longrightarrow> input \<noteq> [] \<Longrightarrow> length rest < length input"
  by (induction d input rule: feed_line.induct) (fastforce simp: Let_def split: if_splits)+

lemma feed_trailers_rest: "feed_trailers d input = (r, d', rest) \<Longrightarrow> input \<noteq> [] \<Longrightarrow> length rest < length input"
  by (induction d input rule: feed_trailers.induct) (fastforce simp: Let_def split: if_splits)+

definition push_rank :: "DecoderState \<Rightarrow> nat" where
  "push_rank s = (case s of Data _ \<Rightarrow> 1 | _ \<Rightarrow> 0)"

function push_loop ::
    "IncrementalAwsChunkedDecoder \<Rightarrow> string \<Rightarrow> string \<Rightarrow>
     (AwsChunkedError + string) \<times> IncrementalAwsChunkedDecoder" where
  "push_loop d input out =
     (if input = [] then (Inr out, d)
      else
        (case dc_state d of
           Header \<Rightarrow>
             (case feed_line d input of
                (Inl e, d, _) \<Rightarrow> (Inl e, d)
              | (Inr full, d, rest) \<Rightarrow>
                  if \<not> full then (Inr out, d)
                  else
                    (case header_chunk_size (dc_line_buf d) of
                       Inl e \<Rightarrow> (Inl e, d)
                     | Inr chunk_size \<Rightarrow>
                         push_loop
                           (d \<lparr> dc_line_buf := [],
                                dc_state := (if chunk_size = 0 then Trailers else Data chunk_size) \<rparr>)
                           rest out))
         | Data remaining \<Rightarrow>
             (let n = min remaining (length input);
                  left = remaining - n
              in push_loop
                   (d \<lparr> dc_total_raw := u64_add (dc_total_raw d) n,
                        dc_decoded_len := u64_add (dc_decoded_len d) n,
                        dc_state := (if left = 0 then DataCrlf False else Data left) \<rparr>)
                   (drop n input) (out @ take n input))
         | DataCrlf seen_cr \<Rightarrow>
             (let d = d \<lparr> dc_total_raw := u64_add (dc_total_raw d) 1 \<rparr>
              in if hd input \<noteq> (if seen_cr then lf else cr) then
                   (Inl (InvalidChunkHeader ''Missing CRLF after chunk data''), d)
                 else
                   push_loop (d \<lparr> dc_state := (if seen_cr then Header else DataCrlf True) \<rparr>) (tl input) out)
         | Trailers \<Rightarrow>
             (case feed_trailers d input of
                (Inl e, d, _) \<Rightarrow> (Inl e, d)
              | (Inr full, d, rest) \<Rightarrow>
                  if \<not> full then (Inr out, d)
                  else
                    (case parse_trailers (dc_line_buf d) 0 of
                       Inl e \<Rightarrow> (Inl e, d)
                     | Inr (trailers, _) \<Rightarrow>
                         push_loop (d \<lparr> dc_trailers := trailers, dc_line_buf := [], dc_state := Done \<rparr>) rest out))
         | Done \<Rightarrow>
             (Inl (LengthMismatch (dc_total_raw d) (u64_add (dc_total_raw d) (length input))), d)))"
  by pat_completeness auto
termination
proof (relation "measures [\<lambda>(_, input, _). length input, \<lambda>(d, _, _). push_rank (dc_state d)]", goal_cases)
qed (auto simp: push_rank_def min_def dest!: feed_line_rest feed_trailers_rest dest: sym)

definition push :: "IncrementalAwsChunkedDecoder \<Rightarrow> string \<Rightarrow>
    (AwsChunkedError + string) \<times> IncrementalAwsChunkedDecoder" where
  "push d input = push_loop d input []"

definition finish :: "IncrementalAwsChunkedDecoder \<Rightarrow> AwsChunkedError + AwsChunkedTrailers" where
  "finish d =
     (case dc_state d of
        Done \<Rightarrow> Inr \<lparr> at_trailers = dc_trailers d, at_decoded_len = dc_decoded_len d \<rparr>
      | _ \<Rightarrow> Inl UnexpectedEof)"

text \<open>Feeding the slices of a body one after the other, as the documented usage does.\<close>

fun push_all ::
    "IncrementalAwsChunkedDecoder \<Rightarrow> string list \<Rightarrow> (AwsChunkedError + string) \<times> IncrementalAwsChunkedDecoder" where
  "push_all d [] = (Inr [], d)"
| "push_all d (part # parts) =
     (case push d part of
        (Inl e, d) \<Rightarrow> (Inl e, d)
      | (Inr out, d) \<Rightarrow>
          (case push_all d parts of
             (Inl e, d) \<Rightarrow> (Inl e, d)
           | (Inr rest, d) \<Rightarrow> (Inr (out @ rest), d)))"

declare utf8_valid_up_to.simps [simp del] parse_trailers_loop.simps [simp del] decode_loop.simps [simp del]
  encode_chunks.simps [simp del] push_loop.simps [simp del]

section \<open>The wire format\<close>

definition crlf_free :: "string \<Rightarrow> bool" where
  "crlf_free s \<longleftrightarrow> \<not> contains_str crlf s"

inductive trailer_section :: "string \<Rightarrow> (string \<times> string) list \<Rightarrow> bool" where
  ts_end: "trailer_section crlf []"
| ts_line: "line \<noteq> [] \<Longrightarrow> crlf_free line \<Longrightarrow> trailer_line line = Inr t \<Longrightarrow> trailer_section rest ts \<Longrightarrow>
    trailer_section (line @ crlf @ rest) (t # ts)"

lemma trailer_section_Nil: "trailer_section sec [] \<Longrightarrow> sec = crlf"
  by (erule trailer_section.cases) simp_all

lemma trailer_section_length: "trailer_section sec ts \<Longrightarrow> 2 \<le> length sec"
  by (erule trailer_section.cases) simp_all

text \<open>A body with header lines of at most \<open>H\<close> bytes and a trailer section of at most \<open>T\<close> bytes.\<close>

inductive framed :: "nat \<Rightarrow> nat \<Rightarrow> string \<Rightarrow> string \<Rightarrow> (string \<times> string) list \<Rightarrow> bool" for H T where
  fr_end: "length line \<le> H \<Longrightarrow> crlf_free line \<Longrightarrow> header_chunk_size line = Inr 0 \<Longrightarrow>
    trailer_section sec ts \<Longrightarrow> length sec \<le> T \<Longrightarrow> framed H T (line @ crlf @ sec) [] ts"
| fr_chunk: "length line \<le> H \<Longrightarrow> crlf_free line \<Longrightarrow> header_chunk_size line = Inr (length chunk) \<Longrightarrow> chunk \<noteq> [] \<Longrightarrow>
    framed H T rest data ts \<Longrightarrow> framed H T (line @ crlf @ chunk @ crlf @ rest) (chunk @ data) ts"

lemma framed_mono: "framed H T s data ts \<Longrightarrow> H \<le> H' \<Longrightarrow> T \<le> T' \<Longrightarrow> framed H' T' s data ts"
proof (induction rule: framed.induct)
  case (fr_end line sec ts)
  show ?case by (rule framed.fr_end) (use fr_end in auto)
next
  case (fr_chunk line chunk rest data ts)
  show ?case by (rule framed.fr_chunk) (use fr_chunk in auto)
qed

subsection \<open>The first line break\<close>

lemma crlf_free_iff: "crlf_free s \<longleftrightarrow> (\<forall>u v. s \<noteq> u @ crlf @ v)"
  by (auto simp: crlf_free_def contains_str_iff)

lemma crlf_free_Nil [simp]: "crlf_free []"
  by (simp add: crlf_free_iff)

lemma crlf_free_nth: "crlf_free s \<longleftrightarrow> (\<forall>j. Suc j < length s \<longrightarrow> \<not> (s ! j = cr \<and> s ! Suc j = lf))"
proof
  assume free: "crlf_free s"
  show "\<forall>j. Suc j < length s \<longrightarrow> \<not> (s ! j = cr \<and> s ! Suc j = lf)"
  proof (intro allI impI notI)
    fix j assume j: "Suc j < length s" "s ! j = cr \<and> s ! Suc j = lf"
    then have "drop j s = crlf @ drop (Suc (Suc j)) s" by (simp add: Cons_nth_drop_Suc [symmetric])
    then have "s = take j s @ crlf @ drop (Suc (Suc j)) s" by (metis append_take_drop_id)
    with free show False unfolding crlf_free_iff by blast
  qed
next
  assume nth: "\<forall>j. Suc j < length s \<longrightarrow> \<not> (s ! j = cr \<and> s ! Suc j = lf)"
  show "crlf_free s"
    unfolding crlf_free_iff
  proof (intro allI notI)
    fix u v assume "s = u @ crlf @ v"
    then have "Suc (length u) < length s" "s ! length u = cr" "s ! Suc (length u) = lf" by (simp_all add: nth_append)
    with nth show False by blast
  qed
qed

text \<open>A line break in \<open>line @ crlf @ rest\<close> is the one after the line, or comes later.\<close>

lemma line_break_later:
  assumes "crlf_free line" "line @ crlf @ rest = u @ crlf @ v"
  shows "u = line \<and> v = rest \<or> (\<exists>u'. u = line @ crlf @ u' \<and> rest = u' @ crlf @ v)"
proof -
  have "\<not> length u < length line"
  proof
    assume "length u < length line"
    then obtain w where w: "line = u @ w" "w \<noteq> []"
      using assms(2) by (metis append_eq_append_conv_if append_take_drop_id drop_eq_Nil leD less_or_eq_imp_le)
    then have "w @ crlf @ rest = crlf @ v" using assms(2) by simp
    then show False using w assms(1) by (cases w; cases "tl w") (auto simp: crlf_free_iff)
  qed
  then obtain w where u: "u = line @ w"
    using assms(2) by (metis append_eq_append_conv_if append_take_drop_id linorder_not_less)
  then have "crlf @ rest = w @ crlf @ v" using assms(2) by simp
  then show ?thesis using u by (cases w; cases "tl w") auto
qed

lemma line_unique:
  "crlf_free a \<Longrightarrow> crlf_free b \<Longrightarrow> a @ crlf @ x = b @ crlf @ y \<Longrightarrow> a = b \<and> x = y"
  using line_break_later [of a x b y] by (auto simp: crlf_free_iff)

lemma find_crlf_line:
  assumes "find_crlf body pos = Some i"
  shows "drop pos body = take (i - pos) (drop pos body) @ crlf @ drop (i + 2) body"
    "crlf_free (take (i - pos) (drop pos body))"
proof -
  note f = find_crlf_Some [OF assms]
  have "drop i body = crlf @ drop (i + 2) body"
    using f(2-4) by (metis (no_types, lifting) Cons_nth_drop_Suc Suc_eq_plus1 add_2_eq_Suc' append_Cons append_Nil
        Suc_lessD)
  moreover have "drop (i - pos) (drop pos body) = drop i body" using f(1) by simp
  ultimately show "drop pos body = take (i - pos) (drop pos body) @ crlf @ drop (i + 2) body"
    by (metis append_take_drop_id)
  show "crlf_free (take (i - pos) (drop pos body))"
    unfolding crlf_free_nth using f by (auto simp: less_diff_conv)
qed

lemma find_crlf_compute:
  assumes "drop pos body = line @ crlf @ rest" "crlf_free line"
  shows "find_crlf body pos = Some (pos + length line)" "drop (pos + length line + 2) body = rest"
proof -
  have "length body - pos = length line + 2 + length rest"
    using arg_cong [OF assms(1), of length] by simp
  then have len: "pos < length body" "length body = pos + length line + 2 + length rest" by linarith+
  have nth: "body ! (pos + j) = (line @ crlf @ rest) ! j" if "pos + j < length body" for j
    using that assms(1) by (metis add.commute nth_drop order.strict_implies_order len(1))
  show "drop (pos + length line + 2) body = rest"
    using arg_cong [OF assms(1), of "drop (length line + 2)"] by (simp add: add.commute add.left_commute)
  obtain i where i: "find_crlf body pos = Some i"
  proof -
    have "find (\<lambda>i. body ! i = cr \<and> body ! (i + 1) = lf) [pos..<length body - 1] \<noteq> None"
      unfolding find_None_iff using len nth [of "length line"] nth [of "length line + 1"]
      by (auto simp: nth_append intro!: bexI [of _ "pos + length line"])
    then show thesis using that len(1) by (auto simp: find_crlf_def)
  qed
  have "take (i - pos) (drop pos body) = line"
    using line_unique [OF find_crlf_line(2) [OF i] assms(2)] find_crlf_line(1) [OF i] assms(1) by metis
  then have "length line = i - pos" using find_crlf_Some(1,2) [OF i] by auto
  then show "find_crlf body pos = Some (pos + length line)" using i find_crlf_Some(1) [OF i] by simp
qed

subsection \<open>The whole-buffer decoder\<close>

lemma trailers_loop_sound:
  assumes "parse_trailers_loop body st pos acc = Inr (trs, pos')" "st \<le> pos"
  shows "\<exists>sec ts. drop pos body = sec @ drop pos' body \<and> trailer_section sec ts \<and> trs = acc @ ts \<and>
    pos' = pos + length sec \<and> (ts \<noteq> [] \<longrightarrow> pos' - st \<le> MAX_TRAILER_SECTION_BYTES + 2)"
  using assms
proof (induction body st pos acc rule: parse_trailers_loop.induct)
  case (1 body st pos acc)
  show ?case
  proof (cases "pos + 2 \<le> length body \<and> body ! pos = cr \<and> body ! (pos + 1) = lf")
    case True
    then have "drop pos body = crlf @ drop (pos + 2) body" by (simp add: Cons_nth_drop_Suc [symmetric])
    moreover have "trs = acc" "pos' = pos + 2"
      using "1.prems"(1) True by (simp_all add: parse_trailers_loop.simps [of body st pos acc])
    ultimately show ?thesis using ts_end by (intro exI [of _ crlf] exI [of _ "[]"]) simp
  next
    case stop: False
    then obtain i t where i: "find_crlf body pos = Some i" "i + 2 - st \<le> MAX_TRAILER_SECTION_BYTES"
      "trailer_line (take (i - pos) (drop pos body)) = Inr t" "pos < length body"
      and rec: "parse_trailers_loop body st (i + 2) (acc @ [t]) = Inr (trs, pos')"
      using "1.prems"(1) unfolding parse_trailers_loop.simps [of body st pos acc] Let_def
      by (auto simp: not_less split: if_splits option.splits sum.splits)
    let ?line = "take (i - pos) (drop pos body)"
    note b = find_crlf_Some [OF i(1)] and l = find_crlf_line [OF i(1)]
    have len: "length ?line = i - pos" using b by simp
    have "?line \<noteq> []"
    proof
      assume "?line = []"
      then have "i - pos = 0" using len by (simp only: list.size)
      then have "i = pos" using b(1) by linarith
      then have "pos + 2 \<le> length body" "body ! pos = cr" "body ! (pos + 1) = lf" using b(2-4) by simp_all
      then show False using stop by blast
    qed
    moreover obtain sec ts where sec: "drop (i + 2) body = sec @ drop pos' body" "trailer_section sec ts"
      "trs = (acc @ [t]) @ ts" "pos' = i + 2 + length sec"
      "ts \<noteq> [] \<longrightarrow> pos' - st \<le> MAX_TRAILER_SECTION_BYTES + 2"
      using "1.IH" [OF stop _ i(1) refl _ i(3) rec] i(2,4) b(1) "1.prems"(2) by (auto simp: not_less)
    ultimately have "trailer_section (?line @ crlf @ sec) (t # ts)" using ts_line [OF _ l(2) i(3)] by blast
    moreover have "drop pos body = (?line @ crlf @ sec) @ drop pos' body" using l(1) sec(1) by simp
    moreover have "pos' - st \<le> MAX_TRAILER_SECTION_BYTES + 2"
    proof (cases ts)
      case Nil
      then have "sec = crlf" using sec(2) trailer_section_Nil by blast
      then show ?thesis using sec(4) i(2) by simp
    qed (use sec(5) in simp)
    ultimately show ?thesis using sec(3,4) len b(1) by (intro exI [of _ "?line @ crlf @ sec"] exI [of _ "t # ts"]) simp
  qed
qed

lemma trailers_loop_complete:
  assumes "trailer_section sec ts" "drop pos body = sec @ rest" "st \<le> pos"
    and "pos - st + length sec \<le> MAX_TRAILER_SECTION_BYTES + 2"
  shows "parse_trailers_loop body st pos acc = Inr (acc @ ts, pos + length sec)"
  using assms
proof (induction arbitrary: pos acc rule: trailer_section.induct)
  case ts_end
  from arg_cong [OF ts_end(1), of length] have "length body - pos = 2 + length rest" by simp
  then have "pos + 2 \<le> length body" by linarith
  moreover have "body ! pos = cr" "body ! Suc pos = lf"
    using ts_end(1) nth_drop [of pos body 0] nth_drop [of pos body 1] calculation by simp_all
  ultimately show ?case by (simp add: parse_trailers_loop.simps [of body st pos acc])
next
  case (ts_line line t sec ts)
  have d: "drop pos body = line @ crlf @ sec @ rest" using ts_line(6) by simp
  note f = find_crlf_compute [OF d ts_line(2)]
  have line: "take (pos + length line - pos) (drop pos body) = line" using d by simp
  have "length body - pos = length line + 2 + length (sec @ rest)" using arg_cong [OF d, of length] by simp
  then have pos: "pos < length body" by linarith
  have "\<not> (pos + 2 \<le> length body \<and> body ! pos = cr \<and> body ! (pos + 1) = lf)"
    using find_crlf_Some(5) [OF f(1), of pos] ts_line(1) by simp
  moreover have "2 \<le> length sec" by (rule trailer_section_length [OF ts_line(4)])
  then have "pos + length line + 2 - st \<le> MAX_TRAILER_SECTION_BYTES" using ts_line(7,8) by simp
  moreover have "parse_trailers_loop body st (pos + length line + 2) (acc @ [t]) =
      Inr ((acc @ [t]) @ ts, pos + length line + 2 + length sec)"
    by (rule ts_line(5)) (use ts_line(7,8) f(2) in auto)
  ultimately show ?case
    using f(1) pos ts_line(3) line unfolding parse_trailers_loop.simps [of body st pos acc] Let_def by simp
qed

lemma decode_loop_end:
  assumes "find_crlf body pos = Some i" "header_chunk_size (take (i - pos) (drop pos body)) = Inr 0"
  shows "decode_loop body pos result =
    (case parse_trailers body (i + 2) of
       Inl e \<Rightarrow> Inl e
     | Inr (trailers, pos) \<Rightarrow>
         if pos \<noteq> length body then Inl (LengthMismatch pos (length body))
         else Inr \<lparr> ar_data = result, ar_trailers = trailers \<rparr>)"
  unfolding decode_loop.simps [of body pos result] assms option.case sum.case Let_def by simp

lemma decode_loop_chunk:
  assumes "find_crlf body pos = Some i" "header_chunk_size (take (i - pos) (drop pos body)) = Inr n" "n \<noteq> 0"
  shows "decode_loop body pos result =
    (case checked_add (i + 2) n of
       None \<Rightarrow> Inl UnexpectedEof
     | Some chunk_end \<Rightarrow>
         if chunk_end > length body then Inl UnexpectedEof
         else
           (case checked_add chunk_end 2 of
              None \<Rightarrow> Inl UnexpectedEof
            | Some trailer_end \<Rightarrow>
                if trailer_end > length body then Inl UnexpectedEof
                else if take (trailer_end - chunk_end) (drop chunk_end body) \<noteq> crlf then
                  Inl (InvalidChunkHeader ''Missing CRLF after chunk data'')
                else decode_loop body trailer_end (result @ take (chunk_end - (i + 2)) (drop (i + 2) body))))"
  unfolding decode_loop.simps [of body pos result] assms(1,2) option.case sum.case Let_def if_not_P [OF assms(3)] ..

text \<open>A chunk that the loop passes over.\<close>

lemma decode_loop_pass:
  assumes "find_crlf body pos = Some i" "header_chunk_size (take (i - pos) (drop pos body)) = Inr n" "n \<noteq> 0"
    and "decode_loop body pos result = Inr r"
  shows "i + 2 + n + 2 \<le> length body" "take 2 (drop (i + 2 + n) body) = crlf" "i + 2 + n + 2 < u64_mod"
    "decode_loop body (i + 2 + n + 2) (result @ take n (drop (i + 2) body)) = Inr r"
proof -
  note eq = assms(4) [unfolded decode_loop_chunk [OF assms(1-3)]]
  obtain c where c: "checked_add (i + 2) n = Some c" using eq by (cases "checked_add (i + 2) n") simp_all
  then have c': "c = i + 2 + n" by (simp add: checked_add_Some)
  have le: "\<not> c > length body" using eq c by (cases "c > length body") simp_all
  obtain t where t: "checked_add c 2 = Some t" using eq c le by (cases "checked_add c 2") simp_all
  then have t': "t = c + 2" "c + 2 < u64_mod" by (simp_all add: checked_add_Some)
  have le': "\<not> t > length body" using eq c le t by (cases "t > length body") simp_all
  have crlf: "take (t - c) (drop c body) = crlf" using eq c le t le' by (cases "take (t - c) (drop c body) = crlf") simp_all
  show "i + 2 + n + 2 \<le> length body" "take 2 (drop (i + 2 + n) body) = crlf" "i + 2 + n + 2 < u64_mod"
    using le' t' c' crlf by simp_all
  have "decode_loop body t (result @ take (c - (i + 2)) (drop (i + 2) body)) = Inr r"
    using eq c le t le' crlf by simp
  then show "decode_loop body (i + 2 + n + 2) (result @ take n (drop (i + 2) body)) = Inr r"
    using t'(1) c' by simp
qed

lemma decode_loop_sound:
  assumes "decode_loop body pos result = Inr r"
  shows "\<exists>data. ar_data r = result @ data \<and>
    framed (length body) (MAX_TRAILER_SECTION_BYTES + 2) (drop pos body) data (ar_trailers r)"
  using assms
proof (induction "length body - pos" arbitrary: pos result rule: less_induct)
  case less
  obtain i where i: "find_crlf body pos = Some i"
    using less.prems unfolding decode_loop.simps [of body pos result] by (cases "find_crlf body pos") simp_all
  obtain n where n: "header_chunk_size (take (i - pos) (drop pos body)) = Inr n"
    using less.prems unfolding decode_loop.simps [of body pos result] i option.case
    by (cases "header_chunk_size (take (i - pos) (drop pos body))") simp_all
  let ?line = "take (i - pos) (drop pos body)"
  note b = find_crlf_bounds [OF i] and l = find_crlf_line [OF i]
  have line: "length ?line \<le> length body" by simp
  show ?case
  proof (cases "n = 0")
    case True
    obtain trs p where t: "parse_trailers body (i + 2) = Inr (trs, p)"
      using less.prems unfolding decode_loop_end [OF i n [unfolded True]]
      by (cases "parse_trailers body (i + 2)") auto
    then have r: "p = length body" "r = \<lparr> ar_data = result, ar_trailers = trs \<rparr>"
      using less.prems unfolding decode_loop_end [OF i n [unfolded True]] by (auto split: if_splits)
    obtain sec ts where s: "drop (i + 2) body = sec @ drop p body" "trailer_section sec ts" "trs = ts"
      "p = i + 2 + length sec" "ts \<noteq> [] \<longrightarrow> p - (i + 2) \<le> MAX_TRAILER_SECTION_BYTES + 2"
      using trailers_loop_sound [OF t [unfolded parse_trailers_def] order.refl] by auto
    have "length sec \<le> MAX_TRAILER_SECTION_BYTES + 2"
    proof (cases "ts = []")
      case True
      then have "sec = crlf" using s(2) trailer_section_Nil by blast
      then show ?thesis by simp
    qed (use s(4,5) in simp)
    from fr_end [OF line l(2) n [unfolded True] s(2) this]
    have "framed (length body) (MAX_TRAILER_SECTION_BYTES + 2) (drop pos body) [] trs"
      using l(1) s(1,3) r(1) by simp
    then show ?thesis using r(2) by simp
  next
    case False
    note c = decode_loop_pass [OF i n False less.prems]
    let ?chunk = "take n (drop (i + 2) body)"
    have len: "length ?chunk = n" using c(1) by simp
    have "drop (i + 2 + n) body = crlf @ drop (i + 2 + n + 2) body"
      using c(2) append_take_drop_id [of 2 "drop (i + 2 + n) body"] by (simp add: add.commute)
    then have rest: "drop (i + 2) body = ?chunk @ crlf @ drop (i + 2 + n + 2) body"
      using append_take_drop_id [of n "drop (i + 2) body"] by (simp add: add.commute)
    have "length body - (i + 2 + n + 2) < length body - pos" using b c(1) by linarith
    from less.hyps [OF this c(4)] obtain data where data: "ar_data r = (result @ ?chunk) @ data"
      "framed (length body) (MAX_TRAILER_SECTION_BYTES + 2) (drop (i + 2 + n + 2) body) data (ar_trailers r)"
      by blast
    have "?chunk \<noteq> []" using len False by auto
    from fr_chunk [OF line l(2) _ this data(2)] n len
    have "framed (length body) (MAX_TRAILER_SECTION_BYTES + 2)
        (?line @ crlf @ ?chunk @ crlf @ drop (i + 2 + n + 2) body) (?chunk @ data) (ar_trailers r)" by simp
    moreover have "?line @ crlf @ ?chunk @ crlf @ drop (i + 2 + n + 2) body = drop pos body"
      using trans [OF l(1) arg_cong [OF rest, of "\<lambda>x. ?line @ crlf @ x"]] by (rule sym)
    ultimately have "framed (length body) (MAX_TRAILER_SECTION_BYTES + 2) (drop pos body) (?chunk @ data) (ar_trailers r)"
      by (rule subst [rotated])
    then show ?thesis using data(1) by (intro exI [of _ "?chunk @ data"]) simp
  qed
qed

lemma decode_loop_complete:
  assumes "framed H (MAX_TRAILER_SECTION_BYTES + 2) s data ts" "drop pos body = s" "length body < u64_mod"
  shows "decode_loop body pos result = Inr \<lparr> ar_data = result @ data, ar_trailers = ts \<rparr>"
  using assms
proof (induction arbitrary: pos result rule: framed.induct)
  case (fr_end line sec ts)
  note f = find_crlf_compute [OF fr_end(6,2)]
  have line: "header_chunk_size (take (pos + length line - pos) (drop pos body)) = Inr 0"
    using fr_end(3,6) by simp
  have "length body - pos = length line + 2 + length sec" using arg_cong [OF fr_end(6), of length] by simp
  then have len: "length body = pos + length line + 2 + length sec" using trailer_section_length [OF fr_end(4)] by linarith
  have "parse_trailers_loop body (pos + length line + 2) (pos + length line + 2) [] =
      Inr ([] @ ts, pos + length line + 2 + length sec)"
    by (rule trailers_loop_complete [OF fr_end(4), where rest = "[]"]) (use f(2) fr_end(5) in simp_all)
  then show ?case unfolding decode_loop_end [OF f(1) line] parse_trailers_def using len by simp
next
  case (fr_chunk line chunk rest data ts)
  let ?i = "pos + length line" and ?n = "length chunk"
  note f = find_crlf_compute [OF fr_chunk(7,2)]
  have line: "header_chunk_size (take (?i - pos) (drop pos body)) = Inr ?n" using fr_chunk(3,7) by simp
  have n: "?n \<noteq> 0" using fr_chunk(4) by simp
  have "length body - pos = length line + 2 + ?n + 2 + length rest" using arg_cong [OF fr_chunk(7), of length] by simp
  then have len: "length body = ?i + 2 + ?n + 2 + length rest" using n by linarith
  have d1: "drop (?i + 2) body = chunk @ crlf @ rest" by (rule f(2))
  have "drop ?n (drop (?i + 2) body) = crlf @ rest" unfolding d1 by simp
  then have d2: "drop (?i + 2 + ?n) body = crlf @ rest" by (simp only: drop_drop add.commute [of ?n])
  have "drop 2 (drop (?i + 2 + ?n) body) = rest" unfolding d2 by simp
  then have d3: "drop (?i + 2 + ?n + 2) body = rest" by (simp only: drop_drop add.commute [of 2])
  note d = d1 d2 d3
  have "checked_add (?i + 2) ?n = Some (?i + 2 + ?n)" "checked_add (?i + 2 + ?n) 2 = Some (?i + 2 + ?n + 2)"
    using len fr_chunk(8) by (simp_all add: checked_add_Some)
  moreover have "take (?i + 2 + ?n - (?i + 2)) (drop (?i + 2) body) = chunk"
    "take (?i + 2 + ?n + 2 - (?i + 2 + ?n)) (drop (?i + 2 + ?n) body) = crlf" using d by simp_all
  ultimately have "decode_loop body pos result = decode_loop body (?i + 2 + ?n + 2) (result @ chunk)"
    unfolding decode_loop_chunk [OF f(1) line n] using len by simp
  then show ?case using fr_chunk(6) [OF d(3) fr_chunk(8), of "result @ chunk"] by simp
qed

end
