(* ===== verification/Chunked_Equivalence.thy ===== *)
theory Chunked_Equivalence
  imports Aws_Chunked
begin

text \<open>
  The two decoders of \<open>Aws_Chunked\<close> against the wire format, and against each other. Feeding a body
  in slices is feeding it at once, so the incremental decoder is compared on the whole input: its
  line and trailer buffers stop at the same line breaks that the whole-buffer decoder finds.
\<close>

section \<open>Buffers\<close>

text \<open>What \<open>feed_line\<close> and \<open>feed_trailers\<close> have in common: bytes move to a buffer until it is complete.\<close>

fun scan :: "(string \<Rightarrow> bool) \<Rightarrow> string \<Rightarrow> string \<Rightarrow> bool option \<times> string \<times> string" where
  "scan full buf [] = (Some False, buf, [])"
| "scan full buf (b # s) =
     (let buf = buf @ [b]
      in if full buf then (Some True, buf, s)
         else if length buf > MAX_TRAILER_SECTION_BYTES then (None, buf, s) else scan full buf s)"

definition line_done :: "string \<Rightarrow> bool" where
  "line_done p \<longleftrightarrow> length p \<ge> 2 \<and> drop (length p - 2) p = crlf"

definition section_done :: "string \<Rightarrow> bool" where
  "section_done p \<longleftrightarrow> p = crlf \<or> length p \<ge> 4 \<and> drop (length p - 4) p = crlf @ crlf"

definition first_done :: "(string \<Rightarrow> bool) \<Rightarrow> string \<Rightarrow> bool" where
  "first_done full p \<longleftrightarrow> p \<noteq> [] \<and> full p \<and> (\<forall>p1 p2. p = p1 @ p2 \<longrightarrow> p1 \<noteq> [] \<longrightarrow> p2 \<noteq> [] \<longrightarrow> \<not> full p1)"

lemma drop_suffix_iff: "length q \<le> length p \<and> drop (length p - length q) p = q \<longleftrightarrow> (\<exists>u. p = u @ q)"
  by (metis append_take_drop_id append_eq_conv_conj diff_diff_cancel length_append length_drop le_add2 add_diff_cancel_right')

lemma line_done_iff: "line_done p \<longleftrightarrow> (\<exists>u. p = u @ crlf)"
  unfolding line_done_def using drop_suffix_iff [of crlf p] by (simp add: eval_nat_numeral)

lemma section_done_iff: "section_done p \<longleftrightarrow> p = crlf \<or> (\<exists>u. p = u @ crlf @ crlf)"
  unfolding section_done_def using drop_suffix_iff [of "crlf @ crlf" p] by (simp add: eval_nat_numeral)

lemma feed_line_scan:
  "\<exists>t. feed_line d s = (case scan line_done (dc_line_buf d) s of
      (None, buf, r) \<Rightarrow> (Inl (InvalidChunkHeader ''Chunk header line exceeds maximum size''),
         d \<lparr> dc_total_raw := t, dc_line_buf := buf \<rparr>, r)
    | (Some True, buf, r) \<Rightarrow> (Inr True, d \<lparr> dc_total_raw := t, dc_line_buf := take (length buf - 2) buf \<rparr>, r)
    | (Some False, buf, r) \<Rightarrow> (Inr False, d \<lparr> dc_total_raw := t, dc_line_buf := buf \<rparr>, r))"
proof (induction s arbitrary: d)
  case Nil
  show ?case by (rule exI [of _ "dc_total_raw d"]) simp
next
  case (Cons b s)
  let ?d = "take_byte b d"
  have buf: "dc_line_buf ?d = dc_line_buf d @ [b]" by (simp add: take_byte_def)
  have feed: "feed_line d (b # s) =
      (if line_done (dc_line_buf ?d) then
         (Inr True, ?d \<lparr> dc_line_buf := take (length (dc_line_buf ?d) - 2) (dc_line_buf ?d) \<rparr>, s)
       else if length (dc_line_buf ?d) > MAX_TRAILER_SECTION_BYTES then
         (Inl (InvalidChunkHeader ''Chunk header line exceeds maximum size''), ?d, s)
       else feed_line ?d s)"
    unfolding feed_line.simps Let_def line_done_def ..
  obtain t where t: "feed_line ?d s = (case scan line_done (dc_line_buf ?d) s of
      (None, buf, r) \<Rightarrow> (Inl (InvalidChunkHeader ''Chunk header line exceeds maximum size''),
         ?d \<lparr> dc_total_raw := t, dc_line_buf := buf \<rparr>, r)
    | (Some True, buf, r) \<Rightarrow> (Inr True, ?d \<lparr> dc_total_raw := t, dc_line_buf := take (length buf - 2) buf \<rparr>, r)
    | (Some False, buf, r) \<Rightarrow> (Inr False, ?d \<lparr> dc_total_raw := t, dc_line_buf := buf \<rparr>, r))"
    using Cons by blast
  show ?case unfolding feed scan.simps Let_def buf [symmetric] t
    by (auto simp: take_byte_def split: prod.split option.split bool.split)
qed

lemma feed_trailers_scan:
  "\<exists>t. feed_trailers d s = (case scan section_done (dc_line_buf d) s of
      (None, buf, r) \<Rightarrow> (Inl (TrailerTooLarge (length buf) MAX_TRAILER_SECTION_BYTES),
         d \<lparr> dc_total_raw := t, dc_line_buf := buf \<rparr>, r)
    | (Some full, buf, r) \<Rightarrow> (Inr full, d \<lparr> dc_total_raw := t, dc_line_buf := buf \<rparr>, r))"
proof (induction s arbitrary: d)
  case Nil
  show ?case by (rule exI [of _ "dc_total_raw d"]) simp
next
  case (Cons b s)
  let ?d = "take_byte b d"
  have buf: "dc_line_buf ?d = dc_line_buf d @ [b]" by (simp add: take_byte_def)
  have feed: "feed_trailers d (b # s) =
      (if section_done (dc_line_buf ?d) then (Inr True, ?d, s)
       else if length (dc_line_buf ?d) > MAX_TRAILER_SECTION_BYTES then
         (Inl (TrailerTooLarge (length (dc_line_buf ?d)) MAX_TRAILER_SECTION_BYTES), ?d, s)
       else feed_trailers ?d s)"
    unfolding feed_trailers.simps Let_def section_done_def ..
  obtain t where t: "feed_trailers ?d s = (case scan section_done (dc_line_buf ?d) s of
      (None, buf, r) \<Rightarrow> (Inl (TrailerTooLarge (length buf) MAX_TRAILER_SECTION_BYTES),
         ?d \<lparr> dc_total_raw := t, dc_line_buf := buf \<rparr>, r)
    | (Some full, buf, r) \<Rightarrow> (Inr full, ?d \<lparr> dc_total_raw := t, dc_line_buf := buf \<rparr>, r))"
    using Cons by blast
  show ?case unfolding feed scan.simps Let_def buf [symmetric] t
    by (auto simp: take_byte_def split: prod.split option.split)
qed

definition scans :: "(string \<Rightarrow> bool) \<Rightarrow> string \<Rightarrow> string \<Rightarrow> bool" where
  "scans full buf c \<longleftrightarrow> c \<noteq> [] \<and> full (buf @ c) \<and>
     (\<forall>c1 c2. c = c1 @ c2 \<longrightarrow> c1 \<noteq> [] \<longrightarrow> c2 \<noteq> [] \<longrightarrow>
        \<not> full (buf @ c1) \<and> length (buf @ c1) \<le> MAX_TRAILER_SECTION_BYTES)"

lemma scans_single: "scans full buf [b] \<longleftrightarrow> full (buf @ [b])"
  by (auto simp: scans_def Cons_eq_append_conv)

lemma scans_Cons:
  assumes "c \<noteq> []"
  shows "scans full buf (b # c) \<longleftrightarrow>
    \<not> full (buf @ [b]) \<and> length (buf @ [b]) \<le> MAX_TRAILER_SECTION_BYTES \<and> scans full (buf @ [b]) c"
proof
  assume s: "scans full buf (b # c)"
  have "\<not> full (buf @ c1) \<and> length (buf @ c1) \<le> MAX_TRAILER_SECTION_BYTES"
    if "b # c = c1 @ c2" "c1 \<noteq> []" "c2 \<noteq> []" for c1 c2 using s that unfolding scans_def by blast
  from this [of "[b]" c] this [of "b # x" y for x y] s assms
  show "\<not> full (buf @ [b]) \<and> length (buf @ [b]) \<le> MAX_TRAILER_SECTION_BYTES \<and> scans full (buf @ [b]) c"
    unfolding scans_def by simp
next
  assume s: "\<not> full (buf @ [b]) \<and> length (buf @ [b]) \<le> MAX_TRAILER_SECTION_BYTES \<and> scans full (buf @ [b]) c"
  show "scans full buf (b # c)"
    unfolding scans_def
  proof (intro conjI allI impI)
    show "full (buf @ b # c)" using s by (simp add: scans_def)
    fix c1 c2 assume c: "b # c = c1 @ c2" "c1 \<noteq> []" "c2 \<noteq> []"
    then obtain x where x: "c1 = b # x" "c = x @ c2" by (auto simp: Cons_eq_append_conv)
    show "\<not> full (buf @ c1)" "length (buf @ c1) \<le> MAX_TRAILER_SECTION_BYTES"
      using s x c(3) unfolding scans_def by (cases "x = []"; simp)+
  qed simp
qed

lemma scan_True:
  "scan full buf s = (Some True, buf', r) \<longleftrightarrow> (\<exists>c. s = c @ r \<and> buf' = buf @ c \<and> scans full buf c)"
proof (induction s arbitrary: buf)
  case (Cons b s)
  show ?case
  proof (cases "full (buf @ [b])")
    case True
    have "c = [b]" if "b # s = c @ r" "scans full buf c" for c
    proof (cases c)
      case (Cons x y)
      then show ?thesis using that True scans_Cons [of y full buf x] by (cases "y = []") auto
    qed (use that in \<open>simp add: scans_def\<close>)
    then show ?thesis using True scans_single [of full buf b] by (auto simp: Let_def)
  next
    case False
    have "(\<exists>c. b # s = c @ r \<and> buf' = buf @ c \<and> scans full buf c) \<longleftrightarrow>
        length (buf @ [b]) \<le> MAX_TRAILER_SECTION_BYTES \<and>
        (\<exists>c. s = c @ r \<and> buf' = (buf @ [b]) @ c \<and> scans full (buf @ [b]) c)" (is "?l \<longleftrightarrow> ?r")
    proof
      assume ?l
      then obtain c where c: "b # s = c @ r" "buf' = buf @ c" "scans full buf c" by blast
      then obtain y where y: "c = b # y" by (cases c) (auto simp: scans_def)
      then have "y \<noteq> []" using c(3) False scans_single by metis
      then show ?r using c y scans_Cons [of y full buf b] by auto
    next
      assume ?r
      then obtain c where c: "length (buf @ [b]) \<le> MAX_TRAILER_SECTION_BYTES" "s = c @ r" "buf' = (buf @ [b]) @ c"
        "scans full (buf @ [b]) c" by blast
      then have "scans full buf (b # c)" using scans_Cons [of c full buf b] False by (auto simp: scans_def)
      then show ?l using c by (intro exI [of _ "b # c"]) simp
    qed
    then show ?thesis using Cons [of "buf @ [b]"] False by (auto simp: Let_def)
  qed
qed (simp add: scans_def)

lemma scan_False:
  "scan full buf s = (Some False, buf', r) \<Longrightarrow> r = [] \<and> buf' = buf @ s"
  by (induction s arbitrary: buf) (fastforce simp: Let_def split: if_splits)+

text \<open>From an empty buffer.\<close>

lemma scan_first:
  "scan full [] s = (Some True, p, r) \<longleftrightarrow>
     s = p @ r \<and> first_done full p \<and> length p \<le> MAX_TRAILER_SECTION_BYTES + 1"
proof -
  have "(\<forall>c1 c2. p = c1 @ c2 \<longrightarrow> c1 \<noteq> [] \<longrightarrow> c2 \<noteq> [] \<longrightarrow> length c1 \<le> MAX_TRAILER_SECTION_BYTES) \<longleftrightarrow>
      length p \<le> MAX_TRAILER_SECTION_BYTES + 1" if ne: "p \<noteq> []"
  proof
    assume all: "\<forall>c1 c2. p = c1 @ c2 \<longrightarrow> c1 \<noteq> [] \<longrightarrow> c2 \<noteq> [] \<longrightarrow> length c1 \<le> MAX_TRAILER_SECTION_BYTES"
    obtain q x where q: "p = q @ [x]" using ne by (cases p rule: rev_cases) auto
    then have "q = [] \<or> length q \<le> MAX_TRAILER_SECTION_BYTES" using all by blast
    then show "length p \<le> MAX_TRAILER_SECTION_BYTES + 1" using q by auto
  next
    assume len: "length p \<le> MAX_TRAILER_SECTION_BYTES + 1"
    show "\<forall>c1 c2. p = c1 @ c2 \<longrightarrow> c1 \<noteq> [] \<longrightarrow> c2 \<noteq> [] \<longrightarrow> length c1 \<le> MAX_TRAILER_SECTION_BYTES"
    proof (intro allI impI)
      fix c1 c2 :: string assume "p = c1 @ c2" "c2 \<noteq> []"
      then show "length c1 \<le> MAX_TRAILER_SECTION_BYTES" using len by (cases c2) simp_all
    qed
  qed
  then have "scans full [] p \<longleftrightarrow> first_done full p \<and> length p \<le> MAX_TRAILER_SECTION_BYTES + 1"
    unfolding scans_def first_done_def append_Nil by blast
  then show ?thesis unfolding scan_True append_Nil by blast
qed

lemma first_line: "first_done line_done p \<longleftrightarrow> (\<exists>line. crlf_free line \<and> p = line @ crlf)"
proof
  assume f: "first_done line_done p"
  then obtain line where line: "p = line @ crlf" unfolding first_done_def line_done_iff by blast
  have "crlf_free line"
    unfolding crlf_free_iff
  proof (intro allI notI)
    fix u v assume "line = u @ crlf @ v"
    then have "p = (u @ crlf) @ (v @ crlf)" using line by simp
    then have "\<not> line_done (u @ crlf)" using f unfolding first_done_def by blast
    then show False unfolding line_done_iff by blast
  qed
  with line show "\<exists>line. crlf_free line \<and> p = line @ crlf" by blast
next
  assume "\<exists>line. crlf_free line \<and> p = line @ crlf"
  then obtain line where line: "crlf_free line" "p = line @ crlf" by blast
  have "\<not> line_done p1" if "p = p1 @ p2" "p2 \<noteq> []" for p1 p2
  proof
    assume "line_done p1"
    then obtain u where "p1 = u @ crlf" unfolding line_done_iff by blast
    then have "line @ crlf @ [] = u @ crlf @ p2" using line(2) that(1) by simp
    from line_break_later [OF line(1) this] show False using that(2) by simp
  qed
  then show "first_done line_done p" using line(2) unfolding first_done_def line_done_iff by blast
qed

lemma trailer_section_starts: "trailer_section (crlf @ v) ts \<Longrightarrow> v = []"
proof (erule trailer_section.cases)
  fix line t rest ts'
  assume line: "crlf @ v = line @ crlf @ rest" "line \<noteq> []" "crlf_free line"
  have "line @ crlf @ rest = [] @ crlf @ v" using line(1) by simp
  from line_break_later [OF line(3) this] line(2) show "v = []" by simp
qed simp

lemma trailer_section_done: "trailer_section sec ts \<Longrightarrow> section_done sec"
proof (induction rule: trailer_section.induct)
  case (ts_line line t rest ts)
  from ts_line(5) [unfolded section_done_iff] show ?case
  proof
    assume "rest = crlf"
    then show ?thesis unfolding section_done_iff by (intro disjI2 exI [of _ line]) simp
  next
    assume "\<exists>u. rest = u @ crlf @ crlf"
    then obtain u where "rest = u @ crlf @ crlf" by blast
    then show ?thesis unfolding section_done_iff by (intro disjI2 exI [of _ "line @ crlf @ u"]) simp
  qed
qed (simp add: section_done_iff)

lemma trailer_section_first: "trailer_section sec ts \<Longrightarrow> sec = p1 @ p2 \<Longrightarrow> section_done p1 \<Longrightarrow> p2 = []"
proof (induction arbitrary: p1 rule: trailer_section.induct)
  case ts_end
  from ts_end(2) [unfolded section_done_iff] show ?case
  proof
    assume "\<exists>u. p1 = u @ crlf @ crlf"
    then show ?thesis using arg_cong [OF ts_end(1), of length] by auto
  qed (use ts_end in simp)
next
  case (ts_line line t rest ts)
  from ts_line(7) [unfolded section_done_iff] show ?case
  proof
    assume "p1 = crlf"
    then have "line @ crlf @ rest = [] @ crlf @ p2" using ts_line(6) by simp
    from line_break_later [OF ts_line(2) this] ts_line(1) show ?thesis by simp
  next
    assume "\<exists>u. p1 = u @ crlf @ crlf"
    then obtain u where "p1 = u @ crlf @ crlf" by blast
    then have "line @ crlf @ rest = u @ crlf @ crlf @ p2" using ts_line(6) by simp
    from line_break_later [OF ts_line(2) this] show ?thesis
    proof (elim disjE conjE exE)
      assume "crlf @ p2 = rest"
      then show ?thesis using ts_line(4) trailer_section_starts by blast
    next
      fix u' assume "rest = u' @ crlf @ crlf @ p2"
      then have "rest = (u' @ crlf @ crlf) @ p2" by simp
      then show ?thesis by (rule ts_line(5)) (auto simp: section_done_iff)
    qed
  qed
qed

lemma first_section:
  assumes "trailer_section sec ts"
  shows "first_done section_done sec"
  unfolding first_done_def
proof (intro conjI allI impI notI)
  show "section_done sec" by (rule trailer_section_done [OF assms])
  show "sec = [] \<Longrightarrow> False" using trailer_section_length [OF assms] by simp
  show "\<And>p1 p2. sec = p1 @ p2 \<Longrightarrow> p2 \<noteq> [] \<Longrightarrow> section_done p1 \<Longrightarrow> False"
    using trailer_section_first [OF assms] by blast
qed

lemma parse_first_section:
  assumes "first_done section_done p" "parse_trailers p 0 = Inr (ts, pos)"
  shows "trailer_section p ts"
proof -
  obtain sec where sec: "p = sec @ drop pos p" "trailer_section sec ts" "pos = length sec"
    using trailers_loop_sound [OF assms(2) [unfolded parse_trailers_def]] by auto
  have "sec \<noteq> []" using trailer_section_length [OF sec(2)] by auto
  then have "drop pos p = []"
    using assms(1) trailer_section_done [OF sec(2)] sec(1) unfolding first_done_def by blast
  then show ?thesis using sec(1,2) by simp
qed

lemma parse_section:
  assumes "trailer_section sec ts" "length sec \<le> MAX_TRAILER_SECTION_BYTES + 2"
  shows "parse_trailers sec 0 = Inr (ts, length sec)"
  using trailers_loop_complete [OF assms(1), of 0 sec "[]" 0 "[]"] assms(2) by (simp add: parse_trailers_def)

section \<open>Feeding in slices\<close>

lemma u64_add_assoc: "u64_add (u64_add a b) c = u64_add a (b + c)"
  by (simp add: u64_add_def mod_simps add.assoc)

lemma feed_line_append:
  "feed_line d (a @ b) = (case feed_line d a of
     (Inr False, d', _) \<Rightarrow> feed_line d' b
   | (res, d', r) \<Rightarrow> (res, d', r @ b))"
  by (induction d a rule: feed_line.induct) (simp_all add: Let_def)

lemma feed_trailers_append:
  "feed_trailers d (a @ b) = (case feed_trailers d a of
     (Inr False, d', _) \<Rightarrow> feed_trailers d' b
   | (res, d', r) \<Rightarrow> (res, d', r @ b))"
  by (induction d a rule: feed_trailers.induct) (simp_all add: Let_def)

lemma feed_line_state: "feed_line d s = (r, d', rest) \<Longrightarrow> dc_state d' = dc_state d"
  by (induction d s rule: feed_line.induct) (auto simp: Let_def take_byte_def split: if_splits)

lemma feed_trailers_state: "feed_trailers d s = (r, d', rest) \<Longrightarrow> dc_state d' = dc_state d"
  by (induction d s rule: feed_trailers.induct) (auto simp: Let_def take_byte_def split: if_splits)

lemma push_loop_Nil [simp]: "push_loop d [] out = (Inr out, d)"
  by (simp add: push_loop.simps)

lemma push_header:
  assumes "dc_state d = Header" "s \<noteq> []"
  shows "push_loop d s out =
    (case feed_line d s of
       (Inl e, d, _) \<Rightarrow> (Inl e, d)
     | (Inr full, d, rest) \<Rightarrow>
         if \<not> full then (Inr out, d)
         else
           (case header_chunk_size (dc_line_buf d) of
              Inl e \<Rightarrow> (Inl e, d)
            | Inr n \<Rightarrow>
                push_loop (d \<lparr> dc_line_buf := [], dc_state := (if n = 0 then Trailers else Data n) \<rparr>) rest out))"
  using assms by (simp add: push_loop.simps [of d s out])

lemma push_data:
  assumes "dc_state d = Data m" "s \<noteq> []"
  shows "push_loop d s out =
    push_loop (d \<lparr> dc_total_raw := u64_add (dc_total_raw d) (min m (length s)),
                   dc_decoded_len := u64_add (dc_decoded_len d) (min m (length s)),
                   dc_state := (if m - min m (length s) = 0 then DataCrlf False else Data (m - min m (length s))) \<rparr>)
      (drop (min m (length s)) s) (out @ take (min m (length s)) s)"
  using assms by (simp add: push_loop.simps [of d s out] Let_def)

lemma push_crlf:
  assumes "dc_state d = DataCrlf seen"
  shows "push_loop d (b # s) out =
    (let d = d \<lparr> dc_total_raw := u64_add (dc_total_raw d) 1 \<rparr>
     in if b \<noteq> (if seen then lf else cr) then
          (Inl (InvalidChunkHeader ''Missing CRLF after chunk data''), d)
        else push_loop (d \<lparr> dc_state := (if seen then Header else DataCrlf True) \<rparr>) s out)"
  using assms by (simp add: push_loop.simps [of d "b # s" out] Let_def)

lemma push_trailers:
  assumes "dc_state d = Trailers" "s \<noteq> []"
  shows "push_loop d s out =
    (case feed_trailers d s of
       (Inl e, d, _) \<Rightarrow> (Inl e, d)
     | (Inr full, d, rest) \<Rightarrow>
         if \<not> full then (Inr out, d)
         else
           (case parse_trailers (dc_line_buf d) 0 of
              Inl e \<Rightarrow> (Inl e, d)
            | Inr (trailers, _) \<Rightarrow>
                push_loop (d \<lparr> dc_trailers := trailers, dc_line_buf := [], dc_state := Done \<rparr>) rest out))"
  using assms by (simp add: push_loop.simps [of d s out])

lemma push_done:
  assumes "dc_state d = Done" "s \<noteq> []"
  shows "push_loop d s out = (Inl (LengthMismatch (dc_total_raw d) (u64_add (dc_total_raw d) (length s))), d)"
  using assms by (simp add: push_loop.simps [of d s out])

text \<open>An error stays an error when more follows, and a slice that was taken leaves the rest to the next.\<close>

definition follows ::
    "(AwsChunkedError + string) \<times> IncrementalAwsChunkedDecoder \<Rightarrow> string \<Rightarrow>
     (AwsChunkedError + string) \<times> IncrementalAwsChunkedDecoder \<Rightarrow> bool" where
  "follows res b res' \<longleftrightarrow>
     (case res of
        (Inr out, d) \<Rightarrow> res' = push_loop d b out
      | (Inl _, _) \<Rightarrow> \<exists>e d. res' = (Inl e, d))"

lemma follows_error: "follows (Inl e, d) b (Inl e', d')"
  by (simp add: follows_def)

lemma push_loop_append: "follows (push_loop d a out) b (push_loop d (a @ b) out)"
proof (induction d a out rule: push_loop.induct)
  case (1 d a out)
  show ?case
  proof (cases "a = []")
    case True
    then show ?thesis by (simp add: follows_def)
  next
    case a: False
    show ?thesis
    proof (cases "dc_state d")
      case Header
      obtain res d1 r where f: "feed_line d a = (res, d1, r)" by (metis prod_cases3)
      show ?thesis
      proof (cases res)
        case (Inl e)
        then show ?thesis
          using f a push_header [OF Header] by (simp add: feed_line_append follows_def)
      next
        case (Inr full)
        show ?thesis
        proof (cases full)
          case False
          then have "push_loop d a out = (Inr out, d1)" using f Inr a push_header [OF Header] by simp
          moreover have "push_loop d (a @ b) out = push_loop d1 b out"
          proof (cases "b = []")
            case True
            then show ?thesis using calculation by simp
          next
            case b: False
            have "feed_line d (a @ b) = feed_line d1 b" using f Inr False by (simp add: feed_line_append)
            then show ?thesis
              using push_header [OF Header, of "a @ b"] push_header [OF feed_line_state [OF f, unfolded Header] b] a by simp
          qed
          ultimately show ?thesis by (simp add: follows_def)
        next
          case True
          have f': "feed_line d (a @ b) = (Inr True, d1, r @ b)" using f Inr True by (simp add: feed_line_append)
          show ?thesis
          proof (cases "header_chunk_size (dc_line_buf d1)")
            case (Inl e)
            then show ?thesis
              using f f' Inr True a push_header [OF Header] \<open>res = Inr full\<close> by (simp add: follows_def)
          next
            case n: (Inr n)
            have "follows (push_loop (d1 \<lparr> dc_line_buf := [], dc_state := (if n = 0 then Trailers else Data n) \<rparr>) r out)
                b (push_loop (d1 \<lparr> dc_line_buf := [], dc_state := (if n = 0 then Trailers else Data n) \<rparr>) (r @ b) out)"
              using "1.IH"(1) [OF a Header f [symmetric] Inr refl _ n] True by simp
            then show ?thesis
              using f f' Inr True n a push_header [OF Header] by simp
          qed
        qed
      qed
    next
      case (Data m)
      note pd = push_data [OF Data]
      let ?d = "\<lambda>k st. d \<lparr> dc_total_raw := u64_add (dc_total_raw d) k, dc_decoded_len := u64_add (dc_decoded_len d) k,
          dc_state := st \<rparr>"
      show ?thesis
      proof (cases "m \<le> length a")
        case True
        have "follows (push_loop (?d m (DataCrlf False)) (drop m a) (out @ take m a)) b
            (push_loop (?d m (DataCrlf False)) (drop m a @ b) (out @ take m a))"
          using "1.IH"(2) [OF a Data refl refl] True by (simp add: min_def)
        then show ?thesis using pd [OF a, of out] pd [of "a @ b" out] True a by (simp add: min_def)
      next
        case False
        then have one: "push_loop d a out = (Inr (out @ a), ?d (length a) (Data (m - length a)))"
          using pd [OF a, of out] by (simp add: min_def)
        have "push_loop d (a @ b) out = push_loop (?d (length a) (Data (m - length a))) b (out @ a)"
        proof (cases "b = []")
          case True
          then show ?thesis using one by simp
        next
          case b: False
          define k where "k = min (m - length a) (length b)"
          have k: "min m (length (a @ b)) = length a + k" using False unfolding k_def length_append by linarith
          have "push_loop (?d (length a) (Data (m - length a))) b (out @ a) =
              push_loop (?d (length a + k) (if m - length a - k = 0 then DataCrlf False else Data (m - length a - k)))
                (drop k b) ((out @ a) @ take k b)"
            using push_data [of "?d (length a) (Data (m - length a))" "m - length a" b "out @ a"] b
            unfolding k_def [symmetric] by (simp add: u64_add_assoc)
          moreover have "push_loop d (a @ b) out =
              push_loop (?d (length a + k) (if m - (length a + k) = 0 then DataCrlf False else Data (m - (length a + k))))
                (drop k b) (out @ a @ take k b)"
            using pd [of "a @ b" out] a unfolding k by simp
          ultimately show ?thesis by simp
        qed
        then show ?thesis unfolding follows_def one by simp
      qed
    next
      case (DataCrlf seen)
      obtain x y where xy: "a = x # y" using a by (cases a) auto
      show ?thesis
      proof (cases "x = (if seen then lf else cr)")
        case True
        let ?d = "(d \<lparr> dc_total_raw := u64_add (dc_total_raw d) 1 \<rparr>) \<lparr> dc_state := (if seen then Header else DataCrlf True) \<rparr>"
        have "follows (push_loop ?d y out) b (push_loop ?d (y @ b) out)"
          using "1.IH"(3) [OF a DataCrlf refl] True xy by simp
        moreover have "push_loop d a out = push_loop ?d y out" "push_loop d (a @ b) out = push_loop ?d (y @ b) out"
          unfolding xy append_Cons push_crlf [OF DataCrlf] Let_def using True by simp_all
        ultimately show ?thesis by simp
      next
        case False
        then show ?thesis unfolding xy append_Cons push_crlf [OF DataCrlf] Let_def by (simp add: follows_def)
      qed
    next
      case Trailers
      obtain res d1 r where f: "feed_trailers d a = (res, d1, r)" by (metis prod_cases3)
      show ?thesis
      proof (cases res)
        case (Inl e)
        then show ?thesis
          using f a push_trailers [OF Trailers] by (simp add: feed_trailers_append follows_def)
      next
        case (Inr full)
        show ?thesis
        proof (cases full)
          case False
          then have "push_loop d a out = (Inr out, d1)" using f Inr a push_trailers [OF Trailers] by simp
          moreover have "push_loop d (a @ b) out = push_loop d1 b out"
          proof (cases "b = []")
            case True
            then show ?thesis using calculation by simp
          next
            case b: False
            have "feed_trailers d (a @ b) = feed_trailers d1 b" using f Inr False by (simp add: feed_trailers_append)
            then show ?thesis
              using push_trailers [OF Trailers, of "a @ b"]
                push_trailers [OF feed_trailers_state [OF f, unfolded Trailers] b] a by simp
          qed
          ultimately show ?thesis by (simp add: follows_def)
        next
          case True
          have f': "feed_trailers d (a @ b) = (Inr True, d1, r @ b)" using f Inr True by (simp add: feed_trailers_append)
          show ?thesis
          proof (cases "parse_trailers (dc_line_buf d1) 0")
            case (Inl e)
            then show ?thesis
              using f f' True a push_trailers [OF Trailers] \<open>res = Inr full\<close> by (simp add: follows_def)
          next
            case n: (Inr q)
            obtain ts p where q: "q = (ts, p)" by fastforce
            have "follows (push_loop (d1 \<lparr> dc_trailers := ts, dc_line_buf := [], dc_state := Done \<rparr>) r out)
                b (push_loop (d1 \<lparr> dc_trailers := ts, dc_line_buf := [], dc_state := Done \<rparr>) (r @ b) out)"
              using "1.IH"(4) [OF a Trailers f [symmetric] Inr refl _ n] True q by simp
            then show ?thesis
              using f f' Inr True n q a push_trailers [OF Trailers] by simp
          qed
        qed
      qed
    next
      case Done
      then show ?thesis using a push_done [OF Done] by (simp add: follows_def)
    qed
  qed
qed

lemma push_loop_out:
  "push_loop d s (x @ out) = (case push_loop d s out of (Inr o', d') \<Rightarrow> (Inr (x @ o'), d') | (Inl e, d') \<Rightarrow> (Inl e, d'))"
proof (induction d s out rule: push_loop.induct)
  case (1 d s out)
  show ?case
  proof (cases "s = []")
    case s: False
    show ?thesis
    proof (cases "dc_state d")
      case Header
      then show ?thesis using "1.IH"(1) [OF s Header] s unfolding push_header [OF Header s]
        by (auto split: prod.splits sum.splits)
    next
      case (Data m)
      then show ?thesis using "1.IH"(2) [OF s Data refl refl] s unfolding push_data [OF Data s] by simp
    next
      case (DataCrlf seen)
      obtain a b where "s = a # b" using s by (cases s) auto
      then show ?thesis using "1.IH"(3) [OF s DataCrlf refl] by (simp add: push_crlf [OF DataCrlf] Let_def)
    next
      case Trailers
      then show ?thesis using "1.IH"(4) [OF s Trailers] s unfolding push_trailers [OF Trailers s]
        by (auto split: prod.splits sum.splits)
    next
      case Done
      then show ?thesis using s by (simp add: push_done)
    qed
  qed simp
qed

lemma push_all_concat:
  "push_all d ps = (Inr out, d') \<longleftrightarrow> push_loop d (concat ps) [] = (Inr out, d')"
proof (induction ps arbitrary: d out)
  case (Cons p ps)
  have f: "follows (push_loop d p []) (concat ps) (push_loop d (concat (p # ps)) [])"
    using push_loop_append by simp
  obtain r d1 where r: "push_loop d p [] = (r, d1)" by fastforce
  show ?case
  proof (cases r)
    case (Inl e)
    then have "push_all d (p # ps) = (Inl e, d1)" using r by (simp add: push_def)
    moreover obtain e' d2 where "push_loop d (concat (p # ps)) [] = (Inl e', d2)"
      using f r Inl by (auto simp: follows_def)
    ultimately show ?thesis by simp
  next
    case (Inr o1)
    then have l: "push_loop d (concat (p # ps)) [] =
        (case push_loop d1 (concat ps) [] of (Inr o', d') \<Rightarrow> (Inr (o1 @ o'), d') | (Inl e, d') \<Rightarrow> (Inl e, d'))"
      using f r push_loop_out [of d1 "concat ps" o1 "[]"] by (simp add: follows_def)
    have a: "push_all d (p # ps) =
        (case push_all d1 ps of (Inr o', d') \<Rightarrow> (Inr (o1 @ o'), d') | (Inl e, d') \<Rightarrow> (Inl e, d'))"
      using r Inr by (simp add: push_def split: prod.split sum.split)
    obtain q d2 q' d3 where q: "push_loop d1 (concat ps) [] = (q, d2)" "push_all d1 ps = (q', d3)" by fastforce
    show ?thesis using Cons [of d1] unfolding l a q by (cases q; cases q') auto
  qed
qed auto

section \<open>One body\<close>

abbreviation at_header :: "IncrementalAwsChunkedDecoder \<Rightarrow> bool" where
  "at_header d \<equiv> dc_state d = Header \<and> dc_line_buf d = []"

text \<open>The limits of the incremental decoder.\<close>

abbreviation framed_inc :: "string \<Rightarrow> string \<Rightarrow> (string \<times> string) list \<Rightarrow> bool" where
  "framed_inc \<equiv> framed (MAX_TRAILER_SECTION_BYTES - 1) (MAX_TRAILER_SECTION_BYTES + 1)"

lemma feed_line_iff:
  assumes "dc_line_buf d = []"
  shows "(\<exists>t. feed_line d s = (Inr True, d \<lparr> dc_total_raw := t, dc_line_buf := line \<rparr>, rest)) \<longleftrightarrow>
    s = line @ crlf @ rest \<and> crlf_free line \<and> length line \<le> MAX_TRAILER_SECTION_BYTES - 1"
    "feed_line d s = (Inr True, d', rest) \<Longrightarrow> \<exists>t line. d' = d \<lparr> dc_total_raw := t, dc_line_buf := line \<rparr>"
proof -
  obtain t where t: "feed_line d s = (case scan line_done [] s of
      (None, buf, r) \<Rightarrow> (Inl (InvalidChunkHeader ''Chunk header line exceeds maximum size''),
         d \<lparr> dc_total_raw := t, dc_line_buf := buf \<rparr>, r)
    | (Some True, buf, r) \<Rightarrow> (Inr True, d \<lparr> dc_total_raw := t, dc_line_buf := take (length buf - 2) buf \<rparr>, r)
    | (Some False, buf, r) \<Rightarrow> (Inr False, d \<lparr> dc_total_raw := t, dc_line_buf := buf \<rparr>, r))"
    using feed_line_scan [of d s] assms by auto
  obtain res buf r where sc: "scan line_done [] s = (res, buf, r)" by (metis prod_cases3)
  have full: "feed_line d s = (Inr True, d', rest') \<Longrightarrow>
      res = Some True \<and> r = rest' \<and> d' = d \<lparr> dc_total_raw := t, dc_line_buf := take (length buf - 2) buf \<rparr>" for d' rest'
    using t sc by (auto split: option.splits bool.splits)
  then show "feed_line d s = (Inr True, d', rest) \<Longrightarrow> \<exists>t line. d' = d \<lparr> dc_total_raw := t, dc_line_buf := line \<rparr>" by blast
  show "(\<exists>t. feed_line d s = (Inr True, d \<lparr> dc_total_raw := t, dc_line_buf := line \<rparr>, rest)) \<longleftrightarrow>
    s = line @ crlf @ rest \<and> crlf_free line \<and> length line \<le> MAX_TRAILER_SECTION_BYTES - 1" (is "?l \<longleftrightarrow> ?r")
  proof
    assume ?l
    then obtain t' where "feed_line d s = (Inr True, d \<lparr> dc_total_raw := t', dc_line_buf := line \<rparr>, rest)" by blast
    from full [OF this] have eq: "res = Some True" "r = rest" "line = take (length buf - 2) buf"
      by (auto dest: arg_cong [of _ _ dc_line_buf])
    then have "s = buf @ rest" "first_done line_done buf" "length buf \<le> MAX_TRAILER_SECTION_BYTES + 1"
      using scan_first [of line_done s buf rest] sc by auto
    moreover obtain l where "crlf_free l" "buf = l @ crlf" using calculation(2) first_line by blast
    ultimately show ?r using eq(3) by (simp add: MAX_TRAILER_SECTION_BYTES_def)
  next
    assume r: ?r
    then have "first_done line_done (line @ crlf)" using first_line by blast
    then have "scan line_done [] s = (Some True, line @ crlf, rest)"
      using r unfolding scan_first by (simp add: MAX_TRAILER_SECTION_BYTES_def)
    then show ?l using t by auto
  qed
qed

lemma feed_trailers_iff:
  assumes "dc_line_buf d = []"
  shows "(\<exists>t. feed_trailers d s = (Inr True, d \<lparr> dc_total_raw := t, dc_line_buf := sec \<rparr>, rest)) \<longleftrightarrow>
    s = sec @ rest \<and> first_done section_done sec \<and> length sec \<le> MAX_TRAILER_SECTION_BYTES + 1"
    "feed_trailers d s = (Inr True, d', rest) \<Longrightarrow> \<exists>t sec. d' = d \<lparr> dc_total_raw := t, dc_line_buf := sec \<rparr>"
proof -
  obtain t where t: "feed_trailers d s = (case scan section_done [] s of
      (None, buf, r) \<Rightarrow> (Inl (TrailerTooLarge (length buf) MAX_TRAILER_SECTION_BYTES),
         d \<lparr> dc_total_raw := t, dc_line_buf := buf \<rparr>, r)
    | (Some full, buf, r) \<Rightarrow> (Inr full, d \<lparr> dc_total_raw := t, dc_line_buf := buf \<rparr>, r))"
    using feed_trailers_scan [of d s] assms by auto
  obtain res buf r where sc: "scan section_done [] s = (res, buf, r)" by (metis prod_cases3)
  have full: "feed_trailers d s = (Inr True, d', rest') \<Longrightarrow>
      res = Some True \<and> r = rest' \<and> d' = d \<lparr> dc_total_raw := t, dc_line_buf := buf \<rparr>" for d' rest'
    using t sc by (auto split: option.splits)
  then show "feed_trailers d s = (Inr True, d', rest) \<Longrightarrow> \<exists>t sec. d' = d \<lparr> dc_total_raw := t, dc_line_buf := sec \<rparr>" by blast
  show "(\<exists>t. feed_trailers d s = (Inr True, d \<lparr> dc_total_raw := t, dc_line_buf := sec \<rparr>, rest)) \<longleftrightarrow>
    s = sec @ rest \<and> first_done section_done sec \<and> length sec \<le> MAX_TRAILER_SECTION_BYTES + 1" (is "?l \<longleftrightarrow> ?r")
  proof
    assume ?l
    then obtain t' where "feed_trailers d s = (Inr True, d \<lparr> dc_total_raw := t', dc_line_buf := sec \<rparr>, rest)" by blast
    from full [OF this] have "res = Some True" "r = rest" "sec = buf"
      by (auto dest: arg_cong [of _ _ dc_line_buf])
    then show ?r using scan_first [of section_done s buf rest] sc by auto
  next
    assume ?r
    then have "scan section_done [] s = (Some True, sec, rest)" unfolding scan_first by blast
    then show ?l using t by auto
  qed
qed

lemma decoder_update_swap:
  "d \<lparr> dc_decoded_len := a, dc_total_raw := b, dc_state := s \<rparr> = d \<lparr> dc_total_raw := b, dc_decoded_len := a, dc_state := s \<rparr>"
  "d \<lparr> dc_total_raw := b, dc_decoded_len := a, dc_state := s, dc_total_raw := b', dc_state := s' \<rparr> =
   d \<lparr> dc_total_raw := b', dc_decoded_len := a, dc_state := s' \<rparr>"
  for d :: IncrementalAwsChunkedDecoder
  by simp_all

lemma push_data_Done:
  assumes "dc_state d = Data n" "0 < n" "push_loop d s out = (Inr o', d')" "dc_state d' = Done"
  shows "\<exists>chunk rest t. s = chunk @ crlf @ rest \<and> length chunk = n \<and>
    push_loop (d \<lparr> dc_total_raw := t, dc_decoded_len := u64_add (dc_decoded_len d) n, dc_state := Header \<rparr>) rest
      (out @ chunk) = (Inr o', d')"
proof -
  have s: "s \<noteq> []" using assms by auto
  let ?d = "\<lambda>t st. d \<lparr> dc_total_raw := t, dc_decoded_len := u64_add (dc_decoded_len d) n, dc_state := st \<rparr>"
  have len: "n \<le> length s"
  proof (rule ccontr)
    assume "\<not> n \<le> length s"
    then have "dc_state d' = Data (n - length s)"
      using assms(3) unfolding push_data [OF assms(1) s] by (auto simp: min_def)
    then show False using assms(4) by simp
  qed
  obtain t where one: "push_loop (?d t (DataCrlf False)) (drop n s) (out @ take n s) = (Inr o', d')"
    using assms(3) len unfolding push_data [OF assms(1) s] by (auto simp: min_def)
  obtain a u where au: "drop n s = a # u" using one assms(4) by (cases "drop n s") auto
  have a: "a = cr" using one unfolding au by (cases "a = cr") (simp_all add: push_crlf Let_def)
  have two: "push_loop (?d (u64_add t 1) (DataCrlf True)) u (out @ take n s) = (Inr o', d')"
    using one push_crlf [of "?d t (DataCrlf False)" False cr u "out @ take n s"] unfolding au a
    by (simp add: Let_def decoder_update_swap)
  obtain b v where bv: "u = b # v" using two assms(4) by (cases u) auto
  have b: "b = lf" using two unfolding bv by (cases "b = lf") (simp_all add: push_crlf Let_def)
  have "push_loop (?d (u64_add (u64_add t 1) 1) Header) v (out @ take n s) = (Inr o', d')"
    using two push_crlf [of "?d (u64_add t 1) (DataCrlf True)" True lf v "out @ take n s"] unfolding bv b
    by (simp add: Let_def decoder_update_swap)
  moreover have "s = take n s @ crlf @ v" using au append_take_drop_id [of n s] unfolding a bv b by simp
  ultimately show ?thesis using len by (intro exI [of _ "take n s"] exI [of _ v] exI conjI) auto
qed

lemma push_data_compute:
  assumes "dc_state d = Data (length chunk)" "chunk \<noteq> []"
  shows "\<exists>t. push_loop d (chunk @ crlf @ rest) out =
    push_loop (d \<lparr> dc_total_raw := t, dc_decoded_len := u64_add (dc_decoded_len d) (length chunk), dc_state := Header \<rparr>)
      rest (out @ chunk)"
  using assms push_data [OF assms(1), of "chunk @ crlf @ rest" out]
  by (intro exI [of _ "u64_add (u64_add (u64_add (dc_total_raw d) (length chunk)) 1) 1"]) (simp add: push_crlf Let_def decoder_update_swap)

lemma push_trailers_Done:
  assumes "dc_state d = Trailers" "dc_line_buf d = []" "push_loop d s out = (Inr o', d')" "dc_state d' = Done"
  shows "trailer_section s (dc_trailers d') \<and> length s \<le> MAX_TRAILER_SECTION_BYTES + 1 \<and> o' = out \<and>
    dc_decoded_len d' = dc_decoded_len d"
proof -
  have s: "s \<noteq> []" using assms by auto
  note p = assms(3) [unfolded push_trailers [OF assms(1) s]]
  obtain res d1 rest where f: "feed_trailers d s = (res, d1, rest)" by (metis prod_cases3)
  obtain full where full: "res = Inr full" using p f by (cases res) auto
  have True: "full"
  proof (rule ccontr)
    assume "\<not> full"
    then have "d' = d1" using p f full by simp
    then show False using feed_trailers_state [OF f] assms(1,4) by simp
  qed
  obtain t sec where d1: "d1 = d \<lparr> dc_total_raw := t, dc_line_buf := sec \<rparr>"
    using feed_trailers_iff(2) [OF assms(2)] f full True by metis
  have sec: "s = sec @ rest" "first_done section_done sec" "length sec \<le> MAX_TRAILER_SECTION_BYTES + 1"
    using feed_trailers_iff(1) [OF assms(2), of s sec rest] f full True d1 by auto
  obtain ts p' where ts: "parse_trailers sec 0 = Inr (ts, p')"
    using p f full True d1 by (cases "parse_trailers sec 0") auto
  let ?d = "d1 \<lparr> dc_trailers := ts, dc_line_buf := [], dc_state := Done \<rparr>"
  have fin: "push_loop ?d rest out = (Inr o', d')" using p f full True d1 ts by simp
  have "rest = []"
  proof (rule ccontr)
    assume "rest \<noteq> []"
    then show False using fin push_done [of ?d rest out] by simp
  qed
  then have "s = sec" "o' = out" "d' = ?d" using fin sec(1) by simp_all
  then show ?thesis using parse_first_section [OF sec(2) ts] sec(3) d1 by simp
qed

lemma push_sound:
  assumes "at_header d" "push_loop d s out = (Inr o', d')" "dc_state d' = Done" "dc_decoded_len d < u64_mod"
  shows "\<exists>data. o' = out @ data \<and> framed_inc s data (dc_trailers d') \<and>
    dc_decoded_len d' = u64_add (dc_decoded_len d) (length data)"
  using assms
proof (induction "length s" arbitrary: d s out rule: less_induct)
  case less
  have hd: "dc_state d = Header" "dc_line_buf d = []" using less.prems(1) by simp_all
  have s: "s \<noteq> []" using less.prems hd(1) by auto
  note p = less.prems(2) [unfolded push_header [OF hd(1) s]]
  obtain res d1 rest where f: "feed_line d s = (res, d1, rest)" by (metis prod_cases3)
  obtain full where full: "res = Inr full" using p f by (cases res) auto
  have True: "full"
  proof (rule ccontr)
    assume "\<not> full"
    then have "d' = d1" using p f full by simp
    then show False using feed_line_state [OF f] hd(1) less.prems(3) by simp
  qed
  obtain t line where d1: "d1 = d \<lparr> dc_total_raw := t, dc_line_buf := line \<rparr>"
    using feed_line_iff(2) [OF hd(2)] f full True by metis
  have line: "s = line @ crlf @ rest" "crlf_free line" "length line \<le> MAX_TRAILER_SECTION_BYTES - 1"
    using feed_line_iff(1) [OF hd(2), of s line rest] f full True d1 by auto
  obtain n where n: "header_chunk_size line = Inr n"
    using p f full True d1 by (cases "header_chunk_size line") auto
  let ?d = "d1 \<lparr> dc_line_buf := [], dc_state := (if n = 0 then Trailers else Data n) \<rparr>"
  have q: "push_loop ?d rest out = (Inr o', d')" using p f full True d1 n by simp
  show ?case
  proof (cases "n = 0")
    case True
    then have t: "trailer_section rest (dc_trailers d')" "length rest \<le> MAX_TRAILER_SECTION_BYTES + 1" "o' = out"
      "dc_decoded_len d' = dc_decoded_len ?d"
      using push_trailers_Done [of ?d rest out o' d'] q less.prems(3) by simp_all
    from fr_end [OF line(3,2) n [unfolded True] t(1,2)] show ?thesis
      using t(3,4) d1 line(1) less.prems(4) by (intro exI [of _ "[]"]) (simp add: u64_add_def)
  next
    case False
    then obtain chunk rest' t' where c: "rest = chunk @ crlf @ rest'" "length chunk = n"
      "push_loop (?d \<lparr> dc_total_raw := t', dc_decoded_len := u64_add (dc_decoded_len ?d) n, dc_state := Header \<rparr>) rest'
         (out @ chunk) = (Inr o', d')"
      using push_data_Done [of ?d n rest out o' d'] q less.prems(3) by auto
    let ?d' = "?d \<lparr> dc_total_raw := t', dc_decoded_len := u64_add (dc_decoded_len ?d) n, dc_state := Header \<rparr>"
    have lt: "length rest' < length s" using line(1) c(1) by simp
    have hd': "at_header ?d'" by simp
    obtain data where data: "o' = (out @ chunk) @ data" "framed_inc rest' data (dc_trailers d')"
      "dc_decoded_len d' = u64_add (dc_decoded_len ?d') (length data)"
      using less.hyps [OF lt hd' c(3) less.prems(3)] u64_add_bound by auto
    have "chunk \<noteq> []" using c(2) False by auto
    from fr_chunk [OF line(3,2) n [folded c(2)] this data(2)]
    have "framed_inc s (chunk @ data) (dc_trailers d')" using line(1) c(1) by simp
    moreover have "dc_decoded_len d' = u64_add (dc_decoded_len d) (length (chunk @ data))"
      using data(3) d1 c(2) by (simp add: u64_add_assoc)
    ultimately show ?thesis using data(1) by (intro exI [of _ "chunk @ data"]) simp
  qed
qed

lemma push_complete:
  assumes "framed_inc s data ts" "at_header d" "dc_decoded_len d < u64_mod"
  shows "\<exists>d'. push_loop d s out = (Inr (out @ data), d') \<and> dc_state d' = Done \<and> dc_trailers d' = ts \<and>
    dc_decoded_len d' = u64_add (dc_decoded_len d) (length data)"
  using assms
proof (induction arbitrary: d out rule: framed.induct)
  case (fr_end line sec ts)
  have hd: "dc_state d = Header" "dc_line_buf d = []" using fr_end by simp_all
  obtain t where f: "feed_line d (line @ crlf @ sec) = (Inr True, d \<lparr> dc_total_raw := t, dc_line_buf := line \<rparr>, sec)"
    using feed_line_iff(1) [OF hd(2)] fr_end(1,2) by blast
  let ?d = "d \<lparr> dc_total_raw := t, dc_line_buf := [], dc_state := Trailers \<rparr>"
  have "push_loop d (line @ crlf @ sec) out = push_loop ?d sec out"
    using push_header [OF hd(1), of "line @ crlf @ sec" out] f fr_end(3) by simp
  moreover obtain t' where "feed_trailers ?d (sec @ []) = (Inr True, ?d \<lparr> dc_total_raw := t', dc_line_buf := sec \<rparr>, [])"
    using feed_trailers_iff(1) [of ?d "sec @ []" sec "[]"] first_section [OF fr_end(4)] fr_end(5) by auto
  moreover have "parse_trailers sec 0 = Inr (ts, length sec)" using parse_section [OF fr_end(4)] fr_end(5) by simp
  moreover have "sec \<noteq> []" using trailer_section_length [OF fr_end(4)] by auto
  ultimately have "push_loop d (line @ crlf @ sec) out =
      (Inr out, ?d \<lparr> dc_total_raw := t', dc_trailers := ts, dc_line_buf := [], dc_state := Done \<rparr>)"
    using push_trailers [of ?d sec out] by simp
  then show ?case using fr_end(7) by (simp add: u64_add_def)
next
  case (fr_chunk line chunk rest data ts)
  have hd: "dc_state d = Header" "dc_line_buf d = []" using fr_chunk by simp_all
  obtain t where f: "feed_line d (line @ crlf @ chunk @ crlf @ rest) =
      (Inr True, d \<lparr> dc_total_raw := t, dc_line_buf := line \<rparr>, chunk @ crlf @ rest)"
    using feed_line_iff(1) [OF hd(2)] fr_chunk(1,2) by blast
  let ?d = "d \<lparr> dc_total_raw := t, dc_line_buf := [], dc_state := Data (length chunk) \<rparr>"
  have "push_loop d (line @ crlf @ chunk @ crlf @ rest) out = push_loop ?d (chunk @ crlf @ rest) out"
    using push_header [OF hd(1), of "line @ crlf @ chunk @ crlf @ rest" out] f fr_chunk(3,4) by simp
  moreover obtain t' where "push_loop ?d (chunk @ crlf @ rest) out =
      push_loop (?d \<lparr> dc_total_raw := t', dc_decoded_len := u64_add (dc_decoded_len ?d) (length chunk), dc_state := Header \<rparr>)
        rest (out @ chunk)"
    using push_data_compute [of ?d chunk rest out] fr_chunk(4) by auto
  moreover let ?d' = "?d \<lparr> dc_total_raw := t', dc_decoded_len := u64_add (dc_decoded_len ?d) (length chunk), dc_state := Header \<rparr>"
  obtain d' where "push_loop ?d' rest (out @ chunk) = (Inr ((out @ chunk) @ data), d')" "dc_state d' = Done"
    "dc_trailers d' = ts" "dc_decoded_len d' = u64_add (dc_decoded_len ?d') (length data)"
    using fr_chunk(6) [of ?d' "out @ chunk"] u64_add_bound by auto
  ultimately show ?case by (intro exI [of _ d']) (simp add: u64_add_assoc)
qed

lemma framed_length: "framed H T s data ts \<Longrightarrow> length data \<le> length s"
  by (induction rule: framed.induct) simp_all

section \<open>Encoded bodies\<close>

lemma show_radix_length: "n < r ^ k \<Longrightarrow> 0 < k \<Longrightarrow> 2 \<le> r \<Longrightarrow> length (show_radix r n) \<le> k"
proof (induction k arbitrary: n)
  case (Suc k)
  show ?case
  proof (cases "n < r")
    case False
    then have "n div r < r ^ k" using Suc.prems by (simp add: less_mult_imp_div_less mult.commute)
    moreover have "k \<noteq> 0" using False Suc.prems by (intro notI) simp
    ultimately have "length (show_radix r (n div r)) \<le> k" using Suc by simp
    then show ?thesis using False Suc.prems by (simp add: show_radix.simps [of r n])
  qed (simp add: show_radix.simps [of r n])
qed simp

lemma graph_crlf_free: "\<forall>c \<in> set s. graph_char c \<Longrightarrow> crlf_free s"
  unfolding crlf_free_iff by (auto simp: graph_char_def)

lemma chunk_header_graph: "\<forall>c \<in> set (chunk_header n). graph_char c"
proof -
  have "graph_char c" if "c \<in> set (show_radix 16 n)" for c using show_radix_graph [OF _ _ that] by simp
  moreover have "\<forall>c \<in> set (chunk_header 0). graph_char c" by code_simp
  ultimately show ?thesis unfolding chunk_header_def by auto
qed

lemma chunk_header_ok:
  assumes "n < u64_mod"
  shows "crlf_free (chunk_header n)" "length (chunk_header n) \<le> MAX_TRAILER_SECTION_BYTES - 1"
    "header_chunk_size (chunk_header n) = Inr n"
proof -
  show "crlf_free (chunk_header n)" by (rule graph_crlf_free [OF chunk_header_graph])
  have "length (show_radix 16 n) \<le> 16" using assms by (intro show_radix_length) simp_all
  then show "length (chunk_header n) \<le> MAX_TRAILER_SECTION_BYTES - 1"
    by (simp add: chunk_header_def placeholder_sig_def MAX_TRAILER_SECTION_BYTES_def)
  have "from_utf8_ok (chunk_header n)" using chunk_header_graph graph_ascii from_utf8_ok_ascii by blast
  moreover have "CHR '';'' \<notin> set (show_radix 16 n)"
  proof
    assume "CHR '';'' \<in> set (show_radix 16 n)"
    then obtain d where "d < 16" "CHR '';'' = digit_char d" using show_radix_digit [of 16 "CHR '';''" n] by auto
    then show False using digit_char_range [of d] by (auto simp: \<open>CHR '';'' = digit_char d\<close> [symmetric])
  qed
  then have "split_char (CHR '';'') (chunk_header n) = show_radix 16 n # split_char (CHR '';'') (''chunk-signature='' @ placeholder_sig)"
    using split_char_sep [of "CHR '';''" "show_radix 16 n" "''chunk-signature='' @ placeholder_sig"]
    by (simp add: chunk_header_def)
  moreover have "from_str_radix 16 u64_max (show_radix 16 n) = Some n" using assms by (intro from_str_show_radix) simp_all
  ultimately show "header_chunk_size (chunk_header n) = Inr n"
    by (simp add: header_chunk_size_def parse_chunk_size_def trim_show_radix Let_def)
qed

lemma encode_chunks_framed:
  assumes "framed_inc rest [] ts" "length data < u64_mod" "0 < k"
  shows "framed_inc (encode_chunks data k @ rest) data ts"
  using assms(2)
proof (induction "length data" arbitrary: data rule: less_induct)
  case less
  show ?case
  proof (cases "data = []")
    case True
    then show ?thesis using assms(1) by (subst encode_chunks.simps) simp
  next
    case False
    let ?n = "min (length data) k"
    have n: "?n < u64_mod" "length (take ?n data) = ?n" "take ?n data \<noteq> []"
      using less.prems False assms(3) by (auto simp: min_def)
    note h = chunk_header_ok [OF n(1)]
    have "length (drop ?n data) < length data" using False assms(3) by (simp add: min_def)
    from less.hyps [OF this] have "framed_inc (encode_chunks (drop ?n data) k @ rest) (drop ?n data) ts"
      using less.prems by simp
    moreover have "header_chunk_size (chunk_header ?n) = Inr (length (take ?n data))" using h(3) n(2) by simp
    ultimately have "framed_inc (chunk_header ?n @ crlf @ take ?n data @ crlf @ encode_chunks (drop ?n data) k @ rest)
        (take ?n data @ drop ?n data) ts"
      by (intro fr_chunk h(1,2) n(3))
    moreover have "encode_chunks data k @ rest =
        chunk_header ?n @ crlf @ take ?n data @ crlf @ encode_chunks (drop ?n data) k @ rest"
      using False assms(3) by (subst encode_chunks.simps) (simp add: Let_def)
    ultimately show ?thesis by (simp only: append_take_drop_id)
  qed
qed

definition trailer_ok :: "string \<times> string \<Rightarrow> bool" where
  "trailer_ok = (\<lambda>(key, v). crlf_free (key @ '':'' @ v) \<and> from_utf8_ok (key @ '':'' @ v) \<and> CHR '':'' \<notin> set key)"

lemma encoded_trailers:
  assumes "\<forall>t \<in> set trailers. trailer_ok t"
  shows "trailer_section (concat (map (\<lambda>(key, v). key @ '':'' @ v @ crlf) trailers) @ crlf)
    (map (\<lambda>(key, v). (trim key, trim v)) trailers)"
  using assms
proof (induction trailers)
  case Nil
  then show ?case using ts_end by simp
next
  case (Cons t trailers)
  obtain key v where t: "t = (key, v)" by fastforce
  let ?line = "key @ '':'' @ v"
  have line: "crlf_free ?line" "from_utf8_ok ?line" "CHR '':'' \<notin> set key" using Cons.prems t by (simp_all add: trailer_ok_def)
  have "trailer_line ?line = Inr (trim key, trim v)"
    using line split_once_sep [of "CHR '':''" key v] by (simp add: trailer_line_def)
  from ts_line [OF _ line(1) this] Cons show ?case using t by simp
qed

lemma encode_framed:
  assumes "encode_aws_chunked_with_trailers data k trailers = Some body" "length data < u64_mod"
    and "\<forall>t \<in> set trailers. trailer_ok t"
    and "length (concat (map (\<lambda>(key, v). key @ '':'' @ v @ crlf) trailers)) < MAX_TRAILER_SECTION_BYTES"
  shows "framed_inc body data (map (\<lambda>(key, v). (trim key, trim v)) trailers)"
proof -
  let ?sec = "concat (map (\<lambda>(key, v). key @ '':'' @ v @ crlf) trailers) @ crlf"
  have k: "0 < k" and body: "body = encode_chunks data k @ (''0;chunk-signature='' @ placeholder_sig) @ crlf @ ?sec"
    using assms(1) by (auto simp: encode_aws_chunked_with_trailers_def split: if_splits)
  have zero: "''0;chunk-signature='' @ placeholder_sig = chunk_header 0" by code_simp
  have h: "crlf_free (chunk_header 0)" "length (chunk_header 0) \<le> MAX_TRAILER_SECTION_BYTES - 1"
    "header_chunk_size (chunk_header 0) = Inr 0" using chunk_header_ok [of 0] by simp_all
  have "framed_inc (chunk_header 0 @ crlf @ ?sec) [] (map (\<lambda>(key, v). (trim key, trim v)) trailers)"
    by (rule fr_end [OF h(2,1,3) encoded_trailers [OF assms(3)]]) (use assms(4) in simp)
  from encode_chunks_framed [OF this assms(2) k] show ?thesis unfolding body zero .
qed

lemma encoded_length:
  "encode_aws_chunked_with_trailers data k trailers = Some body \<Longrightarrow> length data \<le> length body"
proof -
  have "0 < k \<Longrightarrow> length data \<le> length (encode_chunks data k)"
  proof (induction "length data" arbitrary: data rule: less_induct)
    case less
    let ?n = "min (length data) k"
    show ?case
    proof (cases "data = []")
      case False
      have "length (drop ?n data) \<le> length (encode_chunks (drop ?n data) k)"
        using less.hyps [of "drop ?n data"] less.prems False by (simp add: min_def)
      then show ?thesis using False less.prems by (subst encode_chunks.simps) (simp add: Let_def)
    qed simp
  qed
  then show "encode_aws_chunked_with_trailers data k trailers = Some body \<Longrightarrow> length data \<le> length body"
    by (auto simp: encode_aws_chunked_with_trailers_def split: if_splits)
qed

section \<open>The properties\<close>

lemma decode_iff_framed:
  assumes "length body < u64_mod"
  shows "decode_aws_chunked body = Inr r \<longleftrightarrow>
    framed (length body) (MAX_TRAILER_SECTION_BYTES + 2) body (ar_data r) (ar_trailers r)"
proof
  assume "decode_aws_chunked body = Inr r"
  from decode_loop_sound [OF this [unfolded decode_aws_chunked_def]]
  show "framed (length body) (MAX_TRAILER_SECTION_BYTES + 2) body (ar_data r) (ar_trailers r)" by simp
next
  assume "framed (length body) (MAX_TRAILER_SECTION_BYTES + 2) body (ar_data r) (ar_trailers r)"
  from decode_loop_complete [OF this, of 0 body "[]"] assms
  show "decode_aws_chunked body = Inr r" by (simp add: decode_aws_chunked_def)
qed

lemma framed_limit: "framed H T s data ts \<Longrightarrow> framed (length s) T s data ts"
proof (induction rule: framed.induct)
  case (fr_end line sec ts)
  show ?case by (rule framed.fr_end) (use fr_end in auto)
next
  case (fr_chunk line chunk rest data ts)
  have "framed (length (line @ crlf @ chunk @ crlf @ rest)) T rest data ts" by (rule framed_mono [OF fr_chunk(6)]) simp_all
  then show ?case by (rule framed.fr_chunk [rotated 4]) (use fr_chunk in auto)
qed

lemma framed_inc_decode:
  assumes "framed_inc body data ts" "length body < u64_mod"
  shows "decode_aws_chunked body = Inr \<lparr> ar_data = data, ar_trailers = ts \<rparr>"
  using framed_mono [OF framed_limit [OF assms(1)], of "length body" "MAX_TRAILER_SECTION_BYTES + 2"]
  by (simp add: decode_iff_framed [OF assms(2)])

lemma incremental_iff_framed:
  assumes "length (concat parts) < u64_mod"
  shows "(\<exists>d. push_all decoder_new parts = (Inr out, d) \<and> finish d = Inr t) \<longleftrightarrow>
    framed_inc (concat parts) out (at_trailers t) \<and> at_decoded_len t = length out"
proof
  assume "\<exists>d. push_all decoder_new parts = (Inr out, d) \<and> finish d = Inr t"
  then obtain d where d: "push_loop decoder_new (concat parts) [] = (Inr out, d)" "finish d = Inr t"
    unfolding push_all_concat by blast
  then have fin: "dc_state d = Done" "t = \<lparr> at_trailers = dc_trailers d, at_decoded_len = dc_decoded_len d \<rparr>"
    by (cases "dc_state d"; simp add: finish_def)+
  obtain data where data: "out = [] @ data" "framed_inc (concat parts) data (dc_trailers d)"
    "dc_decoded_len d = u64_add (dc_decoded_len decoder_new) (length data)"
    using push_sound [OF _ d(1) fin(1)] by (auto simp: decoder_new_def)
  then show "framed_inc (concat parts) out (at_trailers t) \<and> at_decoded_len t = length out"
    using fin(2) framed_length [OF data(2)] assms by (simp add: decoder_new_def u64_add_exact)
next
  assume r: "framed_inc (concat parts) out (at_trailers t) \<and> at_decoded_len t = length out"
  then obtain d where "push_loop decoder_new (concat parts) [] = (Inr ([] @ out), d)" "dc_state d = Done"
    "dc_trailers d = at_trailers t" "dc_decoded_len d = u64_add (dc_decoded_len decoder_new) (length out)"
    using push_complete [of "concat parts" out "at_trailers t" decoder_new "[]"] by (auto simp: decoder_new_def)
  moreover have "length out < u64_mod" using r framed_length assms by (meson order_le_less_trans)
  ultimately have "push_all decoder_new parts = (Inr out, d) \<and> finish d = Inr t"
    using r unfolding push_all_concat by (simp add: finish_def decoder_new_def u64_add_exact)
  then show "\<exists>d. push_all decoder_new parts = (Inr out, d) \<and> finish d = Inr t" by blast
qed

text \<open>C33: Both chunked decoders implement the same framing of chunk headers, chunk data and trailer
  section. Whatever pieces the body arrives in, the incremental decoder (\<open>push\<close> for every piece, then
  \<open>finish\<close>) succeeds exactly when the concatenated body is framed with header lines of at most 8191
  bytes and a trailer section of at most 8193 bytes; the output, the trailers and the decoded length
  are those of the framing. The whole-buffer decoder succeeds exactly when the body is framed with
  header lines of any length and a trailer section of at most 8194 bytes. So a streamed success is a
  whole-buffer success with the same data and trailers.\<close>

theorem chunked_decoders_agree:
  assumes "length (concat parts) < u64_mod"
  shows "((\<exists>d. push_all decoder_new parts = (Inr out, d) \<and> finish d = Inr t) \<longleftrightarrow>
      framed (MAX_TRAILER_SECTION_BYTES - 1) (MAX_TRAILER_SECTION_BYTES + 1) (concat parts) out (at_trailers t) \<and>
      at_decoded_len t = length out) \<and>
    (decode_aws_chunked (concat parts) = Inr r \<longleftrightarrow>
      framed (length (concat parts)) (MAX_TRAILER_SECTION_BYTES + 2) (concat parts) (ar_data r) (ar_trailers r)) \<and>
    ((\<exists>d. push_all decoder_new parts = (Inr out, d) \<and> finish d = Inr t) \<longrightarrow>
      decode_aws_chunked (concat parts) = Inr \<lparr> ar_data = out, ar_trailers = at_trailers t \<rparr>)"
  using incremental_iff_framed [OF assms] decode_iff_framed [OF assms] framed_inc_decode assms by blast

theorem chunked_decoders_agree_witness:
  "let parts = [chunk_header 5 @ [cr], lf # ''hel'', ''lo'' @ crlf @ chunk_header 0 @ crlf @ ''k: v'' @ [cr], lf # crlf] in
     length (concat parts) < u64_mod \<and>
     (\<exists>d. push_all decoder_new parts = (Inr ''hello'', d) \<and>
        finish d = Inr \<lparr> at_trailers = [(''k'', ''v'')], at_decoded_len = 5 \<rparr>) \<and>
     decode_aws_chunked (concat parts) = Inr \<lparr> ar_data = ''hello'', ar_trailers = [(''k'', ''v'')] \<rparr>"
proof -
  let ?parts = "[chunk_header 5 @ [cr], lf # ''hel'', ''lo'' @ crlf @ chunk_header 0 @ crlf @ ''k: v'' @ [cr], lf # crlf]"
  note h5 = chunk_header_ok [of 5, simplified] and h0 = chunk_header_ok [of 0, simplified]
  have len: "length (concat ?parts) < u64_mod" using h5(2) h0(2) by (simp add: MAX_TRAILER_SECTION_BYTES_def)
  have t: "trailer_section (''k: v'' @ crlf @ crlf) [(''k'', ''v'')]"
  proof (rule ts_line [OF _ _ _ ts_end])
    show "crlf_free ''k: v''" "trailer_line ''k: v'' = Inr (''k'', ''v'')" by code_simp+
  qed simp
  have "framed_inc (chunk_header 0 @ crlf @ ''k: v'' @ crlf @ crlf) [] [(''k'', ''v'')]"
    by (rule fr_end [OF _ h0(1,3) t]) (use h0(2) in \<open>simp_all add: MAX_TRAILER_SECTION_BYTES_def\<close>)
  then have "framed_inc (chunk_header 5 @ crlf @ ''hello'' @ crlf @ chunk_header 0 @ crlf @ ''k: v'' @ crlf @ crlf)
      (''hello'' @ []) [(''k'', ''v'')]"
    by (rule fr_chunk [rotated 4]) (use h5 in simp_all)
  then have "framed_inc (concat ?parts) ''hello'' [(''k'', ''v'')]" by simp
  with chunked_decoders_agree [OF len, of "''hello''" "\<lparr> at_trailers = [(''k'', ''v'')], at_decoded_len = 5 \<rparr>"] len
  show ?thesis unfolding Let_def by simp
qed

text \<open>C34: What \<open>encode_aws_chunked_with_trailers\<close> writes, both decoders read back: for every chunk size
  above zero, every body below the \<open>usize\<close> range and trailers whose lines are UTF-8 without a line
  break or a colon in the key, with a section below the 8 KiB cap, the whole-buffer decoder returns
  the data and the trimmed trailers, and so does the incremental decoder over every split of the
  encoded body, with the decoded length.\<close>

theorem chunked_round_trip:
  assumes "encode_aws_chunked_with_trailers data chunk_size trailers = Some (concat parts)"
    and "length (concat parts) < u64_mod"
    and "\<forall>t \<in> set trailers. trailer_ok t"
    and "length (concat (map (\<lambda>(key, v). key @ '':'' @ v @ crlf) trailers)) < MAX_TRAILER_SECTION_BYTES"
  shows "decode_aws_chunked (concat parts) =
      Inr \<lparr> ar_data = data, ar_trailers = map (\<lambda>(key, v). (trim key, trim v)) trailers \<rparr> \<and>
    (\<exists>d. push_all decoder_new parts = (Inr data, d) \<and>
       finish d = Inr \<lparr> at_trailers = map (\<lambda>(key, v). (trim key, trim v)) trailers, at_decoded_len = length data \<rparr>)"
proof -
  have "length data < u64_mod" using encoded_length [OF assms(1)] assms(2) by simp
  from encode_framed [OF assms(1) this assms(3,4)]
  show ?thesis using incremental_iff_framed [OF assms(2)] framed_inc_decode [OF _ assms(2)] by simp
qed

theorem chunked_round_trip_witness:
  "let body = ''2;chunk-signature='' @ placeholder_sig @ crlf @ ''ab'' @ crlf @ ''1;chunk-signature='' @ placeholder_sig @
         crlf @ ''c'' @ crlf @ ''0;chunk-signature='' @ placeholder_sig @ crlf @ ''k: v'' @ crlf @ crlf in
     encode_aws_chunked_with_trailers ''abc'' 2 [(''k'', '' v'')] = Some (concat [take 5 body, drop 5 body]) \<and>
     trailer_ok (''k'', '' v'') \<and>
     decode_aws_chunked body = Inr \<lparr> ar_data = ''abc'', ar_trailers = [(''k'', ''v'')] \<rparr>"
proof -
  let ?body = "''2;chunk-signature='' @ placeholder_sig @ crlf @ ''ab'' @ crlf @ ''1;chunk-signature='' @ placeholder_sig @
         crlf @ ''c'' @ crlf @ ''0;chunk-signature='' @ placeholder_sig @ crlf @ ''k: v'' @ crlf @ crlf"
  have e: "encode_aws_chunked_with_trailers ''abc'' 2 [(''k'', '' v'')] = Some ?body" by code_simp
  have c: "concat [take 5 ?body, drop 5 ?body] = ?body" by (simp only: concat.simps append_Nil2 append_take_drop_id)
  have l: "length ?body < u64_mod" by (simp add: placeholder_sig_def)
  have t: "trailer_ok (''k'', '' v'')" "trim ''k'' = ''k''" "trim '' v'' = ''v''" by code_simp+
  have "decode_aws_chunked ?body = Inr \<lparr> ar_data = ''abc'', ar_trailers = [(''k'', ''v'')] \<rparr>"
    using chunked_round_trip [of "''abc''" 2 "[(''k'', '' v'')]" "[take 5 ?body, drop 5 ?body]", unfolded c, OF e l] t
    by (simp add: MAX_TRAILER_SECTION_BYTES_def)
  with e t(1) show ?thesis unfolding Let_def c by blast
qed

end
