(* ===== verification/Decoder_State.thy ===== *)
theory Decoder_State
  imports Chunked_Equivalence
begin

text \<open>
  The state of the incremental chunked decoder (\<open>aws_chunked_decoder.rs\<close>, \<open>IncrementalAwsChunkedDecoder\<close>):
  a well-formedness predicate that bounds the carried-over bytes, its preservation by \<open>push\<close>, and the
  meaning of the two byte counters.
\<close>

text \<open>
  The buffer holds at most the cap, it is empty between lines, a chunk under way has bytes left, and
  trailers are only recorded at the end.
\<close>

definition decoder_wf :: "IncrementalAwsChunkedDecoder \<Rightarrow> bool" where
  "decoder_wf d \<longleftrightarrow>
     length (dc_line_buf d) \<le> MAX_TRAILER_SECTION_BYTES \<and> dc_decoded_len d < u64_mod \<and> dc_total_raw d < u64_mod \<and>
     (case dc_state d of
        Header \<Rightarrow> dc_trailers d = []
      | Data remaining \<Rightarrow> 0 < remaining \<and> dc_line_buf d = [] \<and> dc_trailers d = []
      | DataCrlf _ \<Rightarrow> dc_line_buf d = [] \<and> dc_trailers d = []
      | Trailers \<Rightarrow> dc_trailers d = []
      | Done \<Rightarrow> dc_line_buf d = [])"

lemma feed_line_counts:
  assumes "feed_line d s = (Inr full, d', rest)" "length (dc_line_buf d) \<le> MAX_TRAILER_SECTION_BYTES" "dc_total_raw d < u64_mod"
  shows "\<exists>line. d' = d \<lparr> dc_total_raw := dc_total_raw d', dc_line_buf := line \<rparr> \<and>
    length line \<le> MAX_TRAILER_SECTION_BYTES \<and> (\<not> full \<longrightarrow> rest = []) \<and> length rest \<le> length s \<and>
    dc_total_raw d' = u64_add (dc_total_raw d) (length s - length rest)"
  using assms
proof (induction d s rule: feed_line.induct)
  case (1 d)
  then show ?case by (intro exI [of _ "dc_line_buf d"]) (simp add: u64_add_def)
next
  case (2 d b input)
  let ?d = "take_byte b d"
  let ?n = "length (dc_line_buf ?d)"
  have n: "?n \<le> MAX_TRAILER_SECTION_BYTES + 1" and raw: "dc_total_raw ?d = u64_add (dc_total_raw d) 1"
    using "2.prems"(2) by (simp_all add: take_byte_def)
  consider (stop) "?n \<ge> 2 \<and> drop (?n - 2) (dc_line_buf ?d) = crlf"
    | (big) "\<not> (?n \<ge> 2 \<and> drop (?n - 2) (dc_line_buf ?d) = crlf)" "?n > MAX_TRAILER_SECTION_BYTES"
    | (more) "\<not> (?n \<ge> 2 \<and> drop (?n - 2) (dc_line_buf ?d) = crlf)" "\<not> ?n > MAX_TRAILER_SECTION_BYTES" by blast
  then show ?case
  proof cases
    case stop
    then have "full" "d' = ?d \<lparr> dc_line_buf := take (?n - 2) (dc_line_buf ?d) \<rparr>" "rest = input"
      using "2.prems"(1) by (simp_all add: Let_def)
    then show ?thesis using n raw by (intro exI [of _ "take (?n - 2) (dc_line_buf ?d)"]) (simp add: take_byte_def)
  next
    case big
    then show ?thesis using "2.prems"(1) by (auto simp: Let_def)
  next
    case more
    have f: "feed_line ?d input = (Inr full, d', rest)" using "2.prems"(1) more by (simp only: feed_line.simps Let_def if_False)
    have "dc_total_raw ?d < u64_mod" using raw u64_add_bound by simp
    from "2.IH" [OF refl refl more f leI [OF more(2)] this]
    obtain line where "d' = ?d \<lparr> dc_total_raw := dc_total_raw d', dc_line_buf := line \<rparr>"
      "length line \<le> MAX_TRAILER_SECTION_BYTES" "\<not> full \<longrightarrow> rest = []" "length rest \<le> length input"
      "dc_total_raw d' = u64_add (dc_total_raw ?d) (length input - length rest)" by blast
    moreover have "?d \<lparr> dc_total_raw := dc_total_raw d', dc_line_buf := line \<rparr> = d \<lparr> dc_total_raw := dc_total_raw d', dc_line_buf := line \<rparr>"
      by (simp add: take_byte_def)
    ultimately show ?thesis using raw by (intro exI [of _ line]) (simp add: u64_add_assoc Suc_diff_le)
  qed
qed

lemma feed_trailers_counts:
  assumes "feed_trailers d s = (Inr full, d', rest)" "length (dc_line_buf d) \<le> MAX_TRAILER_SECTION_BYTES" "dc_total_raw d < u64_mod"
  shows "\<exists>line. d' = d \<lparr> dc_total_raw := dc_total_raw d', dc_line_buf := line \<rparr> \<and>
    (\<not> full \<longrightarrow> rest = [] \<and> length line \<le> MAX_TRAILER_SECTION_BYTES) \<and> length rest \<le> length s \<and>
    dc_total_raw d' = u64_add (dc_total_raw d) (length s - length rest)"
  using assms
proof (induction d s rule: feed_trailers.induct)
  case (1 d)
  then show ?case by (intro exI [of _ "dc_line_buf d"]) (simp add: u64_add_def)
next
  case (2 d b input)
  let ?d = "take_byte b d"
  let ?n = "length (dc_line_buf ?d)"
  let ?stop = "dc_line_buf ?d = crlf \<or> ?n \<ge> 4 \<and> drop (?n - 4) (dc_line_buf ?d) = crlf @ crlf"
  have raw: "dc_total_raw ?d = u64_add (dc_total_raw d) 1" by (simp add: take_byte_def)
  consider (stop) ?stop | (big) "\<not> ?stop" "?n > MAX_TRAILER_SECTION_BYTES" | (more) "\<not> ?stop" "\<not> ?n > MAX_TRAILER_SECTION_BYTES" by blast
  then show ?case
  proof cases
    case stop
    then have "full" "d' = ?d" "rest = input" using "2.prems"(1) by (simp_all only: feed_trailers.simps Let_def if_True prod.inject sum.inject)
    then show ?thesis using raw by (intro exI [of _ "dc_line_buf ?d"]) (simp add: take_byte_def)
  next
    case big
    then show ?thesis using "2.prems"(1) by (simp only: feed_trailers.simps Let_def if_True if_False prod.inject sum.distinct simp_thms)
  next
    case more
    have f: "feed_trailers ?d input = (Inr full, d', rest)" using "2.prems"(1) more by (simp only: feed_trailers.simps Let_def if_False)
    have "dc_total_raw ?d < u64_mod" using raw u64_add_bound by simp
    from "2.IH" [OF refl refl more f leI [OF more(2)] this]
    obtain line where "d' = ?d \<lparr> dc_total_raw := dc_total_raw d', dc_line_buf := line \<rparr>"
      "\<not> full \<longrightarrow> rest = [] \<and> length line \<le> MAX_TRAILER_SECTION_BYTES" "length rest \<le> length input"
      "dc_total_raw d' = u64_add (dc_total_raw ?d) (length input - length rest)" by blast
    moreover have "?d \<lparr> dc_total_raw := dc_total_raw d', dc_line_buf := line \<rparr> = d \<lparr> dc_total_raw := dc_total_raw d', dc_line_buf := line \<rparr>"
      by (simp add: take_byte_def)
    ultimately show ?thesis using raw by (intro exI [of _ line]) (simp add: u64_add_assoc Suc_diff_le)
  qed
qed

lemma push_loop_counts:
  assumes "push_loop d s out = (Inr out', d')" "decoder_wf d"
  shows "decoder_wf d' \<and> (\<exists>data. out' = out @ data \<and> dc_decoded_len d' = u64_add (dc_decoded_len d) (length data)) \<and>
    dc_total_raw d' = u64_add (dc_total_raw d) (length s)"
  using assms
proof (induction d s out rule: push_loop.induct)
  case (1 d s out)
  show ?case
  proof (cases "s = []")
    case True
    then show ?thesis using "1.prems" by (simp add: push_loop.simps decoder_wf_def u64_add_def)
  next
    case False
    note wf = "1.prems"(2) [unfolded decoder_wf_def]
    show ?thesis
    proof (cases "dc_state d")
      case Header
      obtain r d1 rest where f: "feed_line d s = (r, d1, rest)" by (metis prod_cases3)
      obtain full where r: "r = Inr full" using "1.prems"(1) False Header f by (cases r) (simp_all add: push_loop.simps)
      obtain line where line: "d1 = d \<lparr> dc_total_raw := dc_total_raw d1, dc_line_buf := line \<rparr>"
        "length line \<le> MAX_TRAILER_SECTION_BYTES" "\<not> full \<longrightarrow> rest = []" "length rest \<le> length s"
        "dc_total_raw d1 = u64_add (dc_total_raw d) (length s - length rest)"
        using feed_line_counts [OF f [unfolded r]] wf by blast
      have raw: "dc_total_raw d1 < u64_mod" using line(5) u64_add_bound by simp
      have d1: "dc_state d1 = Header" "dc_trailers d1 = []" "dc_decoded_len d1 = dc_decoded_len d" "dc_line_buf d1 = line"
        by (subst line(1); use wf Header in simp)+
      show ?thesis
      proof (cases full)
        case False
        then have "out' = out" "d' = d1" using "1.prems"(1) \<open>s \<noteq> []\<close> Header f r by (simp_all add: push_loop.simps)
        then show ?thesis using False line wf raw d1 by (simp add: decoder_wf_def u64_add_def)
      next
        case True
        obtain n where n: "header_chunk_size (dc_line_buf d1) = Inr n"
          using "1.prems"(1) \<open>s \<noteq> []\<close> Header f r True by (cases "header_chunk_size (dc_line_buf d1)") (simp_all add: push_loop.simps)
        let ?d = "d1 \<lparr> dc_line_buf := [], dc_state := (if n = 0 then Trailers else Data n) \<rparr>"
        have p: "push_loop ?d rest out = (Inr out', d')"
          using "1.prems"(1) \<open>s \<noteq> []\<close> Header f r True n by (simp add: push_loop.simps [of d])
        have w: "decoder_wf ?d" using raw d1 wf by (simp add: decoder_wf_def)
        have "decoder_wf d' \<and> (\<exists>data. out' = out @ data \<and> dc_decoded_len d' = u64_add (dc_decoded_len ?d) (length data)) \<and>
          dc_total_raw d' = u64_add (dc_total_raw ?d) (length rest)"
          using "1.IH"(1) [OF \<open>s \<noteq> []\<close> Header f [unfolded r, symmetric] refl refl _ n p w] True by simp
        then show ?thesis using d1 line(4,5) by (simp add: u64_add_assoc)
      qed
    next
      case (Data remaining)
      let ?n = "min remaining (length s)"
      let ?d = "d \<lparr> dc_total_raw := u64_add (dc_total_raw d) ?n, dc_decoded_len := u64_add (dc_decoded_len d) ?n,
        dc_state := (if remaining - ?n = 0 then DataCrlf False else Data (remaining - ?n)) \<rparr>"
      have p: "push_loop ?d (drop ?n s) (out @ take ?n s) = (Inr out', d')"
        using "1.prems"(1) False Data by (simp add: push_loop.simps [of d] Let_def)
      have w: "decoder_wf ?d" using wf Data by (simp add: decoder_wf_def u64_add_bound)
      obtain data where "decoder_wf d'" "out' = (out @ take ?n s) @ data"
        "dc_decoded_len d' = u64_add (dc_decoded_len ?d) (length data)" "dc_total_raw d' = u64_add (dc_total_raw ?d) (length (drop ?n s))"
        using "1.IH"(2) [OF False Data refl refl p w] by blast
      then show ?thesis by (auto simp: u64_add_assoc intro!: exI [of _ "take ?n s @ data"])
    next
      case (DataCrlf seen_cr)
      let ?d = "d \<lparr> dc_total_raw := u64_add (dc_total_raw d) 1, dc_state := (if seen_cr then Header else DataCrlf True) \<rparr>"
      have h: "hd s = (if seen_cr then lf else cr)"
        using "1.prems"(1) False DataCrlf by (rule_tac ccontr) (simp add: push_loop.simps [of d] Let_def)
      have p: "push_loop ?d (tl s) out = (Inr out', d')"
        using "1.prems"(1) False DataCrlf h by (simp add: push_loop.simps [of d] Let_def)
      have w: "decoder_wf ?d" using wf DataCrlf by (simp add: decoder_wf_def u64_add_bound)
      have "decoder_wf d' \<and> (\<exists>data. out' = out @ data \<and> dc_decoded_len d' = u64_add (dc_decoded_len ?d) (length data)) \<and>
          dc_total_raw d' = u64_add (dc_total_raw ?d) (length (tl s))"
        using "1.IH"(3) [OF False DataCrlf refl _ _ w] h p by simp
      then show ?thesis using False by (cases s) (simp_all add: u64_add_assoc)
    next
      case Trailers
      obtain r d1 rest where f: "feed_trailers d s = (r, d1, rest)" by (metis prod_cases3)
      obtain full where r: "r = Inr full" using "1.prems"(1) False Trailers f by (cases r) (simp_all add: push_loop.simps)
      obtain line where line: "d1 = d \<lparr> dc_total_raw := dc_total_raw d1, dc_line_buf := line \<rparr>"
        "\<not> full \<longrightarrow> rest = [] \<and> length line \<le> MAX_TRAILER_SECTION_BYTES" "length rest \<le> length s"
        "dc_total_raw d1 = u64_add (dc_total_raw d) (length s - length rest)"
        using feed_trailers_counts [OF f [unfolded r]] wf by blast
      have raw: "dc_total_raw d1 < u64_mod" using line(4) u64_add_bound by simp
      have d1: "dc_state d1 = Trailers" "dc_trailers d1 = []" "dc_decoded_len d1 = dc_decoded_len d" "dc_line_buf d1 = line"
        by (subst line(1); use wf Trailers in simp)+
      show ?thesis
      proof (cases full)
        case False
        then have "out' = out" "d' = d1" using "1.prems"(1) \<open>s \<noteq> []\<close> Trailers f r by (simp_all add: push_loop.simps)
        then show ?thesis using False line wf raw d1 by (simp add: decoder_wf_def u64_add_def)
      next
        case True
        obtain ts k where n: "parse_trailers (dc_line_buf d1) 0 = Inr (ts, k)"
          using "1.prems"(1) \<open>s \<noteq> []\<close> Trailers f r True by (cases "parse_trailers (dc_line_buf d1) 0") (auto simp: push_loop.simps)
        let ?d = "d1 \<lparr> dc_trailers := ts, dc_line_buf := [], dc_state := Done \<rparr>"
        have p: "push_loop ?d rest out = (Inr out', d')"
          using "1.prems"(1) \<open>s \<noteq> []\<close> Trailers f r True n by (simp add: push_loop.simps [of d])
        have w: "decoder_wf ?d" using raw d1 wf by (simp add: decoder_wf_def)
        have "decoder_wf d' \<and> (\<exists>data. out' = out @ data \<and> dc_decoded_len d' = u64_add (dc_decoded_len ?d) (length data)) \<and>
          dc_total_raw d' = u64_add (dc_total_raw ?d) (length rest)"
          using "1.IH"(4) [OF \<open>s \<noteq> []\<close> Trailers f [unfolded r, symmetric] refl refl _ n refl p w] True by simp
        then show ?thesis using d1 line(3,4) by (simp add: u64_add_assoc)
      qed
    next
      case Done
      then show ?thesis using "1.prems"(1) False by (simp add: push_loop.simps)
    qed
  qed
qed

text \<open>C35: The incremental decoder keeps its state well formed whatever slices it is fed: at most 8192
  bytes are carried over between two calls, a chunk under way has bytes left to read, nothing is
  buffered inside chunk data, and trailers exist only in the final state. Its counters are exact: the
  decoded length is the number of bytes emitted and the raw count the number of bytes fed, modulo the
  64-bit range.\<close>

theorem decoder_state_bounded:
  assumes "push_all decoder_new parts = (Inr out, d)"
  shows "decoder_wf d \<and> dc_decoded_len d = length out mod u64_mod \<and> dc_total_raw d = length (concat parts) mod u64_mod"
proof -
  have "decoder_wf decoder_new" by (simp add: decoder_wf_def decoder_new_def)
  from push_loop_counts [OF assms [unfolded push_all_concat] this]
  show ?thesis by (auto simp: decoder_new_def u64_add_def)
qed

theorem decoder_state_bounded_witness:
  "let d = decoder_new \<lparr> dc_line_buf := ''5;'', dc_total_raw := 2 \<rparr> in
     push_all decoder_new [''5'', '';''] = (Inr [], d) \<and> decoder_wf d \<and> dc_total_raw d = 2 mod u64_mod"
proof -
  have p: "push_all decoder_new [''5'', '';''] = (Inr [], decoder_new \<lparr> dc_line_buf := ''5;'', dc_total_raw := 2 \<rparr>)"
    unfolding push_all_concat
    by (simp add: push_loop.simps decoder_new_def take_byte_def Let_def MAX_TRAILER_SECTION_BYTES_def u64_add_def)
  show ?thesis unfolding Let_def using decoder_state_bounded [OF p] p by simp
qed

end
