(* ===== verification/Inflight_Ledger.thy ===== *)
theory Inflight_Ledger
  imports Rust_Prelude
begin

text \<open>
  The account of buffered body bytes (\<open>inflight_ledger.rs\<close>). The ledger is shared by all tasks without a
  lock, so the model goes one atomic access at a time: every claim on the ledger is at a program point
  of \<open>try_reserve\<close> or \<open>try_grow\<close>, and a system step lets one claim make one access. Relaxed loads and the
  value a failed compare-and-exchange returns may be out of date, so they are arbitrary arguments of
  the steps, and \<open>compare_exchange_weak\<close> may fail for no reason.
\<close>

section \<open>The ledger and its reservations\<close>

record InflightLedger =
  il_ceiling :: u64
  il_reserved :: u64
  il_peak :: u64
  il_rejected_total :: u64
  il_aborted_total :: u64
  il_last_rejection_log_secs :: u64

definition ledger_new :: "u64 \<Rightarrow> InflightLedger" where
  "ledger_new ceiling_bytes =
     \<lparr> il_ceiling = ceiling_bytes, il_reserved = 0, il_peak = 0, il_rejected_total = 0, il_aborted_total = 0,
       il_last_rejection_log_secs = 0 \<rparr>"

definition ledger_disabled :: InflightLedger where
  "ledger_disabled = ledger_new 0"

definition ledger_is_disabled :: "InflightLedger \<Rightarrow> bool" where
  "ledger_is_disabled l \<longleftrightarrow> il_ceiling l = 0"

text \<open>\<open>rv_ledger\<close> says whether the reservation has a ledger; without one it accounts nothing.\<close>

record Reservation =
  rv_ledger :: bool
  rv_bytes :: u64

definition reservation_none :: Reservation where
  "reservation_none = \<lparr> rv_ledger = False, rv_bytes = 0 \<rparr>"

definition release :: "InflightLedger \<Rightarrow> u64 \<Rightarrow> InflightLedger" where
  "release l bytes = (if bytes = 0 then l else l \<lparr> il_reserved := u64_sub (il_reserved l) bytes \<rparr>)"

definition drop_reservation :: "InflightLedger \<Rightarrow> Reservation \<Rightarrow> InflightLedger" where
  "drop_reservation l r = (if rv_ledger r then release l (rv_bytes r) else l)"

definition record_aborted_accumulation :: "InflightLedger \<Rightarrow> InflightLedger" where
  "record_aborted_accumulation l = l \<lparr> il_aborted_total := u64_add (il_aborted_total l) 1 \<rparr>"

section \<open>The compare-and-exchange loop\<close>

text \<open>
  The points of the loop: before the exchange with the value last read, before the update of the
  high-water mark, and the two accesses of the rejection log.
\<close>

datatype loop_point = Exchange u64 | Raise_peak u64 | Log_load | Log_exchange u64 u64

datatype loop_result = Continue loop_point | Granted | Rejected

text \<open>What the environment decides about one access: the value read, a spurious failure, the clock.\<close>

record access =
  ac_seen :: u64
  ac_spurious :: bool
  ac_now_secs :: u64

definition admit_total :: "InflightLedger \<Rightarrow> u64 \<Rightarrow> u64 \<Rightarrow> u64 option" where
  "admit_total l current bytes =
     (case checked_add current bytes of
        None \<Rightarrow> None
      | Some new_total \<Rightarrow> if new_total > il_ceiling l then None else Some new_total)"

text \<open>
  The rejection log: the load of the time of the last line, then the exchange that claims the next one
  (\<open>Some\<close> holds the value loaded and the clock). The line itself is output.
\<close>

definition log_rejection_rate_limited ::
    "InflightLedger \<Rightarrow> access \<Rightarrow> (u64 \<times> u64) option \<Rightarrow> InflightLedger \<times> loop_result" where
  "log_rejection_rate_limited l a loaded =
     (case loaded of
        None \<Rightarrow>
          (l, if ac_now_secs a \<ge> u64_add (ac_seen a) 60 then Continue (Log_exchange (ac_seen a) (ac_now_secs a))
              else Rejected)
      | Some (last_secs, now_secs) \<Rightarrow>
          (if il_last_rejection_log_secs l = last_secs then l \<lparr> il_last_rejection_log_secs := now_secs \<rparr> else l,
           Rejected))"

definition reserve_access :: "InflightLedger \<Rightarrow> u64 \<Rightarrow> access \<Rightarrow> loop_point \<Rightarrow> InflightLedger \<times> loop_result" where
  "reserve_access l bytes a p =
     (case p of
        Exchange current \<Rightarrow>
          (case admit_total l current bytes of
             None \<Rightarrow> (l \<lparr> il_rejected_total := u64_add (il_rejected_total l) 1 \<rparr>, Continue Log_load)
           | Some new_total \<Rightarrow>
               if il_reserved l = current \<and> \<not> ac_spurious a
               then (l \<lparr> il_reserved := new_total \<rparr>, Continue (Raise_peak new_total))
               else (l, Continue (Exchange (ac_seen a))))
      | Raise_peak new_total \<Rightarrow> (l \<lparr> il_peak := max (il_peak l) new_total \<rparr>, Granted)
      | Log_load \<Rightarrow> log_rejection_rate_limited l a None
      | Log_exchange last_secs now_secs \<Rightarrow> log_rejection_rate_limited l a (Some (last_secs, now_secs)))"

lemmas reserve_access_defs = reserve_access_def log_rejection_rate_limited_def

section \<open>Claims\<close>

datatype claim =
  Reserving u64 loop_point
| Live Reservation
| Growing Reservation u64 loop_point
| Refused
| Dropped

definition try_reserve :: "InflightLedger \<Rightarrow> u64 \<Rightarrow> u64 \<Rightarrow> claim" where
  "try_reserve l bytes current =
     (if ledger_is_disabled l then Live \<lparr> rv_ledger = False, rv_bytes = 0 \<rparr> else Reserving bytes (Exchange current))"

definition grown :: "Reservation \<Rightarrow> u64 \<Rightarrow> Reservation" where
  "grown r additional = r \<lparr> rv_bytes := u64_add (rv_bytes r) additional \<rparr>"

definition try_grow :: "InflightLedger \<Rightarrow> Reservation \<Rightarrow> u64 \<Rightarrow> u64 \<Rightarrow> claim" where
  "try_grow l r additional current =
     (if \<not> rv_ledger r then Live (grown r additional)
      else if additional = 0 \<or> il_ceiling l = 0 then Live (grown r additional)
      else Growing r additional (Exchange current))"

definition advance_claim :: "InflightLedger \<Rightarrow> access \<Rightarrow> claim \<Rightarrow> InflightLedger \<times> claim" where
  "advance_claim l a c =
     (case c of
        Reserving bytes p \<Rightarrow>
          (case reserve_access l bytes a p of
             (l, Continue p) \<Rightarrow> (l, Reserving bytes p)
           | (l, Granted) \<Rightarrow> (l, Live \<lparr> rv_ledger = True, rv_bytes = bytes \<rparr>)
           | (l, Rejected) \<Rightarrow> (l, Refused))
      | Growing r additional p \<Rightarrow>
          (case reserve_access l additional a p of
             (l, Continue p) \<Rightarrow> (l, Growing r additional p)
           | (l, Granted) \<Rightarrow> (l, Live (grown r additional))
           | (l, Rejected) \<Rightarrow> (l, Live r))
      | c \<Rightarrow> (l, c))"

text \<open>\<open>claim_overlapping\<close>: \<open>Inl\<close> is the caller's claim as it is afterwards, \<open>Inr\<close> a claim of its own.\<close>

definition claim_overlapping :: "InflightLedger \<Rightarrow> u64 \<Rightarrow> Reservation option \<Rightarrow> u64 \<Rightarrow> claim + claim" where
  "claim_overlapping l bytes caller_reservation current =
     (case caller_reservation of
        Some existing \<Rightarrow>
          (let shortfall = saturating_sub bytes (rv_bytes existing)
           in Inl (if shortfall = 0 then Live existing else try_grow l existing shortfall current))
      | None \<Rightarrow> Inr (try_reserve l bytes current))"

section \<open>The system\<close>

record ledger_system =
  ls_ledger :: InflightLedger
  ls_claims :: "claim list"

definition ledger_init :: "u64 \<Rightarrow> ledger_system \<Rightarrow> bool" where
  "ledger_init ceiling_bytes s \<longleftrightarrow> ceiling_bytes < u64_mod \<and> s = \<lparr> ls_ledger = ledger_new ceiling_bytes, ls_claims = [] \<rparr>"

inductive ledger_step :: "ledger_system \<Rightarrow> ledger_system \<Rightarrow> bool" where
  step_reserve: "bytes < u64_mod \<Longrightarrow> claim_overlapping (ls_ledger s) bytes None current = Inr c \<Longrightarrow>
    ledger_step s \<lparr> ls_ledger = ls_ledger s, ls_claims = ls_claims s @ [c] \<rparr>"
| step_overlap: "i < length (ls_claims s) \<Longrightarrow> ls_claims s ! i = Live r \<Longrightarrow> bytes < u64_mod \<Longrightarrow>
    claim_overlapping (ls_ledger s) bytes (Some r) current = Inl c \<Longrightarrow>
    ledger_step s \<lparr> ls_ledger = ls_ledger s, ls_claims = (ls_claims s)[i := c] \<rparr>"
| step_grow: "i < length (ls_claims s) \<Longrightarrow> ls_claims s ! i = Live r \<Longrightarrow> additional < u64_mod \<Longrightarrow>
    ledger_step s \<lparr> ls_ledger = ls_ledger s, ls_claims = (ls_claims s)[i := try_grow (ls_ledger s) r additional current] \<rparr>"
| step_access: "i < length (ls_claims s) \<Longrightarrow> advance_claim (ls_ledger s) a (ls_claims s ! i) = (l, c) \<Longrightarrow>
    ledger_step s \<lparr> ls_ledger = l, ls_claims = (ls_claims s)[i := c] \<rparr>"
| step_drop: "i < length (ls_claims s) \<Longrightarrow> ls_claims s ! i = Live r \<Longrightarrow>
    ledger_step s \<lparr> ls_ledger = drop_reservation (ls_ledger s) r, ls_claims = (ls_claims s)[i := Dropped] \<rparr>"
| step_none: "ledger_step s \<lparr> ls_ledger = ls_ledger s, ls_claims = ls_claims s @ [Live reservation_none] \<rparr>"
| step_aborted: "ledger_step s \<lparr> ls_ledger = record_aborted_accumulation (ls_ledger s), ls_claims = ls_claims s \<rparr>"

section \<open>The invariant\<close>

text \<open>The bytes a claim has in the account, and the total its high-water update is about to record.\<close>

fun held :: "claim \<Rightarrow> nat" where
  "held (Reserving bytes (Raise_peak _)) = bytes"
| "held (Live r) = (if rv_ledger r then rv_bytes r else 0)"
| "held (Growing r additional (Raise_peak _)) = rv_bytes r + additional"
| "held (Growing r _ _) = rv_bytes r"
| "held _ = 0"

fun unrecorded :: "claim \<Rightarrow> nat" where
  "unrecorded (Reserving _ (Raise_peak n)) = n"
| "unrecorded (Growing _ _ (Raise_peak n)) = n"
| "unrecorded _ = 0"

fun has_ledger :: "claim \<Rightarrow> bool" where
  "has_ledger (Reserving _ _) = True"
| "has_ledger (Live r) = rv_ledger r"
| "has_ledger (Growing r _ _) = rv_ledger r"
| "has_ledger _ = False"

definition claim_ok :: "InflightLedger \<Rightarrow> claim \<Rightarrow> bool" where
  "claim_ok l c \<longleftrightarrow> (has_ledger c \<longrightarrow> 0 < il_ceiling l) \<and> unrecorded c \<le> il_ceiling l \<and>
     (case c of Growing r _ _ \<Rightarrow> rv_ledger r | _ \<Rightarrow> True)"

definition ledger_inv :: "ledger_system \<Rightarrow> bool" where
  "ledger_inv s \<longleftrightarrow>
     (let l = ls_ledger s; cs = ls_claims s
      in il_ceiling l < u64_mod \<and> il_reserved l = sum_list (map held cs) \<and> il_reserved l \<le> il_ceiling l \<and>
         il_peak l \<le> il_ceiling l \<and> (\<forall>c \<in> set cs. claim_ok l c) \<and>
         (il_reserved l \<le> il_peak l \<or> (\<exists>c \<in> set cs. il_reserved l \<le> unrecorded c)))"

lemma sum_list_update_claim:
  assumes "i < length cs"
  shows "sum_list (map held (cs[i := c])) + held (cs ! i) = sum_list (map held cs) + held c"
  using assms
proof (induction cs arbitrary: i)
  case (Cons x cs)
  then show ?case by (cases i) (simp_all add: ac_simps)
qed simp

lemma held_le:
  assumes "i < length cs"
  shows "held (cs ! i) \<le> sum_list (map held cs)"
  using assms by (intro member_le_sum_list) auto

text \<open>The high-water mark is the larger of the recorded one and of those about to be recorded.\<close>

definition marked :: "InflightLedger \<Rightarrow> claim list \<Rightarrow> nat \<Rightarrow> bool" where
  "marked l cs n \<longleftrightarrow> n \<le> il_peak l \<or> (\<exists>j < length cs. n \<le> unrecorded (cs ! j))"

lemma ledger_inv_marked:
  "ledger_inv s \<longleftrightarrow>
     il_ceiling (ls_ledger s) < u64_mod \<and> il_reserved (ls_ledger s) = sum_list (map held (ls_claims s)) \<and>
     il_reserved (ls_ledger s) \<le> il_ceiling (ls_ledger s) \<and> il_peak (ls_ledger s) \<le> il_ceiling (ls_ledger s) \<and>
     (\<forall>c \<in> set (ls_claims s). claim_ok (ls_ledger s) c) \<and> marked (ls_ledger s) (ls_claims s) (il_reserved (ls_ledger s))"
  unfolding ledger_inv_def Let_def marked_def in_set_conv_nth Bex_def by blast

lemma marked_update:
  assumes "marked l cs n" "i < length cs" "il_peak l \<le> il_peak l'" "m \<le> n"
    and "n \<le> unrecorded (cs ! i) \<Longrightarrow> m \<le> il_peak l' \<or> m \<le> unrecorded c"
  shows "marked l' (cs[i := c]) m"
proof -
  consider "n \<le> il_peak l" | j where "j < length cs" "n \<le> unrecorded (cs ! j)" using assms(1) unfolding marked_def by blast
  then show ?thesis
  proof cases
    case 1
    then show ?thesis using assms(3,4) unfolding marked_def by linarith
  next
    case (2 j)
    show ?thesis
    proof (cases "j = i")
      case True
      then show ?thesis using assms(2,5) 2(2) unfolding marked_def by auto
    next
      case False
      then have "m \<le> unrecorded (cs[i := c] ! j)" using 2(2) assms(4) by simp
      then show ?thesis using 2(1) unfolding marked_def by auto
    qed
  qed
qed

text \<open>One claim changes, with the ledger: what the invariant asks of the step.\<close>

lemma ledger_inv_update:
  assumes inv: "ledger_inv s" and i: "i < length (ls_claims s)"
    and ceiling: "il_ceiling l = il_ceiling (ls_ledger s)"
    and reserved: "il_reserved l + held (ls_claims s ! i) = il_reserved (ls_ledger s) + held c" "il_reserved l \<le> il_ceiling l"
    and peak: "il_peak l \<le> il_ceiling l" and ok: "claim_ok l c"
    and mark: "marked l ((ls_claims s)[i := c]) (il_reserved l)"
  shows "ledger_inv \<lparr> ls_ledger = l, ls_claims = (ls_claims s)[i := c] \<rparr>"
proof -
  note inv = inv [unfolded ledger_inv_marked]
  have "il_reserved l = sum_list (map held ((ls_claims s)[i := c]))"
    using sum_list_update_claim [OF i, of c] reserved(1) inv by simp
  moreover have "claim_ok l d" if "d \<in> set ((ls_claims s)[i := c])" for d
    using that set_update_subset_insert [of "ls_claims s" i c] ok inv ceiling unfolding claim_ok_def by (metis insert_iff subsetD)
  ultimately show ?thesis using inv ceiling reserved(2) peak mark unfolding ledger_inv_marked by simp
qed

lemma ledger_inv_same:
  assumes inv: "ledger_inv s" and i: "i < length (ls_claims s)" and l: "il_ceiling l = il_ceiling (ls_ledger s)"
      "il_reserved l = il_reserved (ls_ledger s)" "il_peak l = il_peak (ls_ledger s)"
    and c: "held c = held (ls_claims s ! i)" "unrecorded c = unrecorded (ls_claims s ! i)" "claim_ok l c"
  shows "ledger_inv \<lparr> ls_ledger = l, ls_claims = (ls_claims s)[i := c] \<rparr>"
  by (rule ledger_inv_update [OF inv i l(1)])
    (use inv i l c in \<open>auto simp: ledger_inv_marked intro!: marked_update [of "ls_ledger s" _ "il_reserved (ls_ledger s)"]\<close>)

lemma try_grow_keeps:
  assumes inv: "ledger_inv s" and i: "i < length (ls_claims s)" "ls_claims s ! i = Live r"
  shows "ledger_inv \<lparr> ls_ledger = ls_ledger s, ls_claims = (ls_claims s)[i := try_grow (ls_ledger s) r additional current] \<rparr>"
proof -
  let ?l = "ls_ledger s" and ?c = "try_grow (ls_ledger s) r additional current"
  have c: "claim_ok ?l (Live r)" using inv i unfolding ledger_inv_marked by (metis nth_mem)
  have b: "rv_bytes r < u64_mod" if "rv_ledger r"
    using held_le [OF i(1)] i(2) inv that unfolding ledger_inv_marked by simp
  have "held ?c = held (Live r)" "unrecorded ?c = unrecorded (Live r)" "claim_ok ?l ?c"
    using c b by (auto simp: try_grow_def grown_def claim_ok_def u64_add_def)
  with ledger_inv_same [OF inv i(1) refl refl refl, of ?c] i(2)
  show ?thesis by simp
qed

lemma new_claim_keeps:
  assumes "ledger_inv s" "held c = 0" "claim_ok (ls_ledger s) c"
  shows "ledger_inv \<lparr> ls_ledger = ls_ledger s, ls_claims = ls_claims s @ [c] \<rparr>"
  using assms by (auto simp: ledger_inv_marked marked_def nth_append intro: less_SucI)

lemma drop_keeps:
  assumes inv: "ledger_inv s" and i: "i < length (ls_claims s)" "ls_claims s ! i = Live r"
  shows "ledger_inv \<lparr> ls_ledger = drop_reservation (ls_ledger s) r, ls_claims = (ls_claims s)[i := Dropped] \<rparr>"
proof -
  let ?l = "drop_reservation (ls_ledger s) r"
  note I = inv [unfolded ledger_inv_marked]
  have h: "rv_bytes r \<le> il_reserved (ls_ledger s)" if "rv_ledger r" using held_le [OF i(1)] i(2) I that by simp
  have l: "il_ceiling ?l = il_ceiling (ls_ledger s)" "il_peak ?l = il_peak (ls_ledger s)"
    by (simp_all add: drop_reservation_def release_def)
  have r: "il_reserved ?l + held (Live r) = il_reserved (ls_ledger s)"
    using h I by (auto simp: drop_reservation_def release_def u64_sub_exact)
  have "marked ?l ((ls_claims s)[i := Dropped]) (il_reserved ?l)"
  proof (rule marked_update)
    show "marked (ls_ledger s) (ls_claims s) (il_reserved (ls_ledger s))" using I by blast
    show "il_reserved ?l \<le> il_reserved (ls_ledger s)" using r by linarith
    then show "il_reserved ?l \<le> il_peak ?l \<or> il_reserved ?l \<le> unrecorded Dropped"
      if "il_reserved (ls_ledger s) \<le> unrecorded (ls_claims s ! i)" using that i(2) by simp
  qed (use i l(2) in simp_all)
  then show ?thesis
    by (intro ledger_inv_update [OF inv i(1) l(1)]) (use I i l r in \<open>simp_all add: claim_ok_def\<close>)
qed

text \<open>The claims that run the loop, with the bytes they ask for.\<close>

fun in_loop :: "claim \<Rightarrow> u64 \<Rightarrow> loop_point \<Rightarrow> nat \<Rightarrow> bool" where
  "in_loop (Reserving bytes p) bytes' p' base \<longleftrightarrow> bytes = bytes' \<and> p = p' \<and> base = 0"
| "in_loop (Growing r additional p) bytes' p' base \<longleftrightarrow> additional = bytes' \<and> p = p' \<and> base = rv_bytes r"
| "in_loop _ _ _ _ \<longleftrightarrow> False"

lemma in_loop_held:
  "in_loop c bytes p base \<Longrightarrow> held c = base + (case p of Raise_peak _ \<Rightarrow> bytes | _ \<Rightarrow> 0)"
  "in_loop c bytes p base \<Longrightarrow> unrecorded c = (case p of Raise_peak n \<Rightarrow> n | _ \<Rightarrow> 0)"
  by (cases c; cases p; simp)+

lemma admit_total_Some:
  "admit_total l current bytes = Some n \<longleftrightarrow> n = current + bytes \<and> current + bytes < u64_mod \<and> current + bytes \<le> il_ceiling l"
  by (auto simp: admit_total_def checked_add_def split: option.splits if_splits)

lemma access_continue_keeps:
  assumes inv: "ledger_inv s" and i: "i < length (ls_claims s)" and c: "in_loop (ls_claims s ! i) bytes p base"
    and a: "reserve_access (ls_ledger s) bytes a p = (l, Continue p')"
    and c': "in_loop c' bytes p' base" "\<And>l. claim_ok l c' \<longleftrightarrow> has_ledger (ls_claims s ! i) \<and> 0 < il_ceiling l \<and> unrecorded c' \<le> il_ceiling l"
    and h: "has_ledger (ls_claims s ! i)"
  shows "ledger_inv \<lparr> ls_ledger = l, ls_claims = (ls_claims s)[i := c'] \<rparr>"
proof -
  note I = inv [unfolded ledger_inv_marked]
  have pos: "0 < il_ceiling (ls_ledger s)" using I h i unfolding claim_ok_def by (metis nth_mem)
  note held = in_loop_held [OF c] in_loop_held [OF c'(1)]
  show ?thesis
  proof (cases p)
    case (Exchange current)
    show ?thesis
    proof (cases "\<exists>n. admit_total (ls_ledger s) current bytes = Some n \<and> il_reserved (ls_ledger s) = current \<and> \<not> ac_spurious a")
      case True
      then obtain n where m: "admit_total (ls_ledger s) current bytes = Some n" "il_reserved (ls_ledger s) = current"
          "\<not> ac_spurious a" by blast
      then have n: "n = il_reserved (ls_ledger s) + bytes" "n \<le> il_ceiling (ls_ledger s)"
          "l = ls_ledger s \<lparr> il_reserved := n \<rparr>" "p' = Raise_peak n"
        using a Exchange by (simp_all add: reserve_access_defs) (simp_all add: admit_total_Some)
      show ?thesis
        by (rule ledger_inv_update [OF inv i])
          (use I n pos held Exchange c'(2) h i in \<open>auto simp: marked_def\<close>)
    next
      case False
      then have "il_ceiling l = il_ceiling (ls_ledger s)" "il_reserved l = il_reserved (ls_ledger s)"
          "il_peak l = il_peak (ls_ledger s)" "(case p' of Raise_peak _ \<Rightarrow> False | _ \<Rightarrow> True)"
        using a Exchange by (auto simp: reserve_access_defs split: option.splits if_splits)
      then show ?thesis
        by (intro ledger_inv_same [OF inv i]) (use held Exchange c'(2) h pos in \<open>auto split: loop_point.splits\<close>)
    qed
  next
    case Log_load
    then have "l = ls_ledger s" "(case p' of Raise_peak _ \<Rightarrow> False | _ \<Rightarrow> True)"
      using a by (auto simp: reserve_access_defs split: if_splits)
    then show ?thesis
      by (intro ledger_inv_same [OF inv i]) (use held Log_load c'(2) h pos in \<open>auto split: loop_point.splits\<close>)
  qed (use a in \<open>simp_all add: reserve_access_defs\<close>)
qed

lemma access_granted_keeps:
  assumes inv: "ledger_inv s" and i: "i < length (ls_claims s)" and c: "in_loop (ls_claims s ! i) bytes p base"
    and a: "reserve_access (ls_ledger s) bytes a p = (l, Granted)" and h: "has_ledger (ls_claims s ! i)"
  shows "ledger_inv \<lparr> ls_ledger = l, ls_claims = (ls_claims s)[i := Live \<lparr> rv_ledger = True, rv_bytes = base + bytes \<rparr>] \<rparr>"
    "base + bytes < u64_mod"
proof -
  note I = inv [unfolded ledger_inv_marked]
  obtain n where p: "p = Raise_peak n" and l: "l = ls_ledger s \<lparr> il_peak := max (il_peak (ls_ledger s)) n \<rparr>"
    using a by (cases p) (auto simp: reserve_access_defs split: option.splits if_splits)
  note held = in_loop_held [OF c]
  have ok: "claim_ok (ls_ledger s) (ls_claims s ! i)" using I i by simp
  then have "0 < il_ceiling (ls_ledger s)" "n \<le> il_ceiling (ls_ledger s)" using h held p by (auto simp: claim_ok_def)
  then show "ledger_inv \<lparr> ls_ledger = l, ls_claims = (ls_claims s)[i := Live \<lparr> rv_ledger = True, rv_bytes = base + bytes \<rparr>] \<rparr>"
    by (intro ledger_inv_update [OF inv i])
      (use I i held p l in \<open>auto simp: claim_ok_def intro!: marked_update [of "ls_ledger s" _ "il_reserved (ls_ledger s)"]\<close>)
  show "base + bytes < u64_mod" using held_le [OF i] held p I by simp
qed

lemma access_rejected_keeps:
  assumes inv: "ledger_inv s" and i: "i < length (ls_claims s)" and c: "in_loop (ls_claims s ! i) bytes p base"
    and a: "reserve_access (ls_ledger s) bytes a p = (l, Rejected)"
    and c': "held c' = base" "unrecorded c' = 0" "claim_ok (ls_ledger s) c'"
  shows "ledger_inv \<lparr> ls_ledger = l, ls_claims = (ls_claims s)[i := c'] \<rparr>"
proof -
  have p: "(case p of Raise_peak _ \<Rightarrow> False | _ \<Rightarrow> True)" and l: "il_ceiling l = il_ceiling (ls_ledger s)"
      "il_reserved l = il_reserved (ls_ledger s)" "il_peak l = il_peak (ls_ledger s)"
    using a by (cases p; auto simp: reserve_access_defs split: option.splits if_splits)+
  show ?thesis
    by (rule ledger_inv_same [OF inv i l]) (use c' l in_loop_held [OF c] p in \<open>auto simp: claim_ok_def split: loop_point.splits\<close>)
qed

lemma advance_keeps:
  assumes inv: "ledger_inv s" and i: "i < length (ls_claims s)"
    and a: "advance_claim (ls_ledger s) a (ls_claims s ! i) = (l, c)"
  shows "ledger_inv \<lparr> ls_ledger = l, ls_claims = (ls_claims s)[i := c] \<rparr>"
proof (cases "ls_claims s ! i")
  case (Reserving bytes p)
  obtain l' r where r: "reserve_access (ls_ledger s) bytes a p = (l', r)" by fastforce
  have e: "in_loop (ls_claims s ! i) bytes p 0" "has_ledger (ls_claims s ! i)" using Reserving by simp_all
  show ?thesis
  proof (cases r)
    case (Continue p')
    then have cl: "l = l'" "c = Reserving bytes p'" using a r Reserving by (simp_all add: advance_claim_def)
    show ?thesis unfolding cl
      by (rule access_continue_keeps [OF inv i e(1) r [unfolded Continue]]) (simp_all add: Reserving claim_ok_def)
  next
    case Granted
    then have "l = l'" "c = Live \<lparr> rv_ledger = True, rv_bytes = bytes \<rparr>" using a r Reserving by (simp_all add: advance_claim_def)
    then show ?thesis using access_granted_keeps(1) [OF inv i e(1) r [unfolded Granted] e(2)] by simp
  next
    case Rejected
    then have "l = l'" "c = Refused" using a r Reserving by (simp_all add: advance_claim_def)
    then show ?thesis using access_rejected_keeps [OF inv i e(1) r [unfolded Rejected], of Refused] by (simp add: claim_ok_def)
  qed
next
  case (Growing g bytes p)
  obtain l' r where r: "reserve_access (ls_ledger s) bytes a p = (l', r)" by fastforce
  have ok: "claim_ok (ls_ledger s) (ls_claims s ! i)" using inv i unfolding ledger_inv_marked by simp
  then have e: "in_loop (ls_claims s ! i) bytes p (rv_bytes g)" "has_ledger (ls_claims s ! i)" "rv_ledger g"
    "0 < il_ceiling (ls_ledger s)" using Growing by (simp_all add: claim_ok_def)
  show ?thesis
  proof (cases r)
    case (Continue p')
    then have cl: "l = l'" "c = Growing g bytes p'" using a r Growing by (simp_all add: advance_claim_def)
    show ?thesis unfolding cl using e(3)
      by (intro access_continue_keeps [OF inv i e(1) r [unfolded Continue]]) (simp_all add: Growing claim_ok_def)
  next
    case Granted
    note g = access_granted_keeps [OF inv i e(1) r [unfolded Granted] e(2)]
    have "l = l'" "c = Live (grown g bytes)" using a r Growing Granted by (simp_all add: advance_claim_def)
    moreover have "grown g bytes = \<lparr> rv_ledger = True, rv_bytes = rv_bytes g + bytes \<rparr>"
      using g(2) e(3) by (simp add: grown_def u64_add_exact)
    ultimately show ?thesis using g(1) by simp
  next
    case Rejected
    then have "l = l'" "c = Live g" using a r Growing by (simp_all add: advance_claim_def)
    then show ?thesis using access_rejected_keeps [OF inv i e(1) r [unfolded Rejected], of "Live g"] e
      by (simp add: claim_ok_def)
  qed
next
  case Live
  then show ?thesis using a inv i by (simp add: advance_claim_def) (metis ledger_system.surjective list_update_id old.unit.exhaust)
next
  case Refused
  then show ?thesis using a inv i by (simp add: advance_claim_def) (metis ledger_system.surjective list_update_id old.unit.exhaust)
next
  case Dropped
  then show ?thesis using a inv i by (simp add: advance_claim_def) (metis ledger_system.surjective list_update_id old.unit.exhaust)
qed

lemma ledger_step_keeps: "ledger_step s t \<Longrightarrow> ledger_inv s \<Longrightarrow> ledger_inv t"
proof (induction rule: ledger_step.induct)
  case (step_reserve bytes s current c)
  then show ?case by (intro new_claim_keeps)
      (auto simp: claim_overlapping_def try_reserve_def ledger_is_disabled_def claim_ok_def split: if_splits)
next
  case (step_overlap i s r bytes current c)
  show ?case
  proof (cases "saturating_sub bytes (rv_bytes r) = 0")
    case True
    have "claim_ok (ls_ledger s) (Live r)" using step_overlap unfolding ledger_inv_marked by (metis nth_mem)
    then show ?thesis using step_overlap True
      by (intro ledger_inv_same) (auto simp: claim_overlapping_def)
  next
    case False
    then have "c = try_grow (ls_ledger s) r (saturating_sub bytes (rv_bytes r)) current"
      using step_overlap by (simp add: claim_overlapping_def Let_def)
    then show ?thesis using try_grow_keeps step_overlap by simp
  qed
next
  case step_grow
  then show ?case using try_grow_keeps by blast
next
  case step_access
  then show ?case using advance_keeps by blast
next
  case step_drop
  then show ?case using drop_keeps by blast
next
  case (step_none s)
  then show ?case by (intro new_claim_keeps) (simp_all add: reservation_none_def claim_ok_def)
next
  case (step_aborted s)
  then show ?case by (auto simp: ledger_inv_marked record_aborted_accumulation_def claim_ok_def marked_def)
qed

lemma ledger_step_ceiling: "ledger_step s t \<Longrightarrow> il_ceiling (ls_ledger t) = il_ceiling (ls_ledger s)"
  by (induction rule: ledger_step.induct)
    (auto simp: advance_claim_def reserve_access_defs drop_reservation_def release_def record_aborted_accumulation_def
      split: claim.splits loop_point.splits option.splits if_splits loop_result.splits prod.splits)

interpretation ledger: transition_invariant "ledger_init ceiling_bytes" ledger_step
    "\<lambda>s. ledger_inv s \<and> il_ceiling (ls_ledger s) = ceiling_bytes" for ceiling_bytes
proof unfold_locales
  show "ledger_inv s \<and> il_ceiling (ls_ledger s) = ceiling_bytes" if "ledger_init ceiling_bytes s" for s
    using that by (simp add: ledger_init_def ledger_inv_marked ledger_new_def marked_def)
  show "ledger_inv t \<and> il_ceiling (ls_ledger t) = ceiling_bytes"
    if "ledger_inv s \<and> il_ceiling (ls_ledger s) = ceiling_bytes" "ledger_step s t" for s t
    using that ledger_step_keeps ledger_step_ceiling by blast
qed

text \<open>Without interference two accesses decide a claim, by the ceiling alone.\<close>

lemma try_reserve_uncontended:
  assumes "\<not> ledger_is_disabled l" "\<not> ac_spurious a" "il_ceiling l < u64_mod"
    and "advance_claim l a (try_reserve l bytes (il_reserved l)) = (l1, c1)" "advance_claim l1 a' c1 = (l2, c2)"
  shows "if il_reserved l + bytes \<le> il_ceiling l
    then c2 = Live \<lparr> rv_ledger = True, rv_bytes = bytes \<rparr> \<and> il_reserved l2 = il_reserved l + bytes \<and>
      il_peak l2 = max (il_peak l) (il_reserved l + bytes)
    else held c2 = 0 \<and> il_reserved l2 = il_reserved l \<and> il_rejected_total l2 = u64_add (il_rejected_total l) 1"
proof (cases "il_reserved l + bytes \<le> il_ceiling l")
  case True
  then have "admit_total l (il_reserved l) bytes = Some (il_reserved l + bytes)" using assms(3) by (simp add: admit_total_Some)
  then show ?thesis using assms True by (auto simp: try_reserve_def advance_claim_def reserve_access_defs)
next
  case False
  then have "admit_total l (il_reserved l) bytes = None" using admit_total_Some [of l "il_reserved l" bytes]
    by (cases "admit_total l (il_reserved l) bytes") auto
  then show ?thesis using assms False
    by (auto simp: try_reserve_def advance_claim_def reserve_access_defs split: if_splits)
qed

section \<open>The properties\<close>

text \<open>C36: However the accesses of concurrent tasks interleave, with stale reads and spurious failures of
  the exchange, the reserved counter is exactly the sum of the bytes that granted claims hold, this sum
  never exceeds the configured ceiling, the high-water mark never exceeds it either and has reached the
  reserved bytes whenever no grant is between its exchange and its update of the mark, and once every
  claim was refused or dropped the counter is back to zero.\<close>

theorem ledger_ceiling_respected:
  assumes "reach (ledger_init ceiling_bytes) ledger_step s"
  shows "il_reserved (ls_ledger s) = sum_list (map held (ls_claims s)) \<and>
    sum_list (map held (ls_claims s)) \<le> ceiling_bytes \<and> il_peak (ls_ledger s) \<le> ceiling_bytes \<and>
    ((\<forall>c \<in> set (ls_claims s). unrecorded c = 0) \<longrightarrow> il_reserved (ls_ledger s) \<le> il_peak (ls_ledger s)) \<and>
    ((\<forall>c \<in> set (ls_claims s). c = Refused \<or> c = Dropped) \<longrightarrow> il_reserved (ls_ledger s) = 0)"
proof -
  from ledger.reach_inv [OF assms]
  have I: "ledger_inv s" "il_ceiling (ls_ledger s) = ceiling_bytes" by simp_all
  have "sum_list (map held (ls_claims s)) = 0" if "\<forall>c \<in> set (ls_claims s). c = Refused \<or> c = Dropped"
    using that by (auto simp: sum_list_eq_0_iff)
  moreover have "il_reserved (ls_ledger s) \<le> il_peak (ls_ledger s)" if "\<forall>c \<in> set (ls_claims s). unrecorded c = 0"
    using that I(1) unfolding ledger_inv_marked marked_def by (metis le_zero_eq nth_mem zero_le)
  ultimately show ?thesis using I unfolding ledger_inv_marked by simp
qed

theorem ledger_ceiling_respected_witness:
  "let l = ledger_new 10 \<lparr> il_reserved := 4, il_peak := 4 \<rparr>;
       s = \<lparr> ls_ledger = l, ls_claims = [Live \<lparr> rv_ledger = True, rv_bytes = 4 \<rparr>] \<rparr>
   in reach (ledger_init 10) ledger_step s \<and> sum_list (map held (ls_claims s)) = 4 \<and> 4 \<le> (10 :: nat)"
proof -
  let ?l = "ledger_new 10" and ?l1 = "ledger_new 10 \<lparr> il_reserved := 4 \<rparr>"
  let ?a = "\<lparr> ac_seen = 0, ac_spurious = False, ac_now_secs = 0 \<rparr>"
  let ?s = "\<lambda>l c. \<lparr> ls_ledger = l, ls_claims = c \<rparr>"
  let ?r = "Live \<lparr> rv_ledger = True, rv_bytes = 4 \<rparr>"
  have 0: "reach (ledger_init 10) ledger_step (?s ?l [])" by (rule reach_init) (simp add: ledger_init_def)
  have 1: "ledger_step (?s ?l []) (?s ?l [Reserving 4 (Exchange 3)])"
    using step_reserve [of 4 "?s ?l []" 3 "Reserving 4 (Exchange 3)"]
    by (simp add: claim_overlapping_def try_reserve_def ledger_is_disabled_def ledger_new_def)
  have 2: "ledger_step (?s ?l [Reserving 4 (Exchange 3)]) (?s ?l [Reserving 4 (Exchange 0)])"
    using step_access [of 0 "?s ?l [Reserving 4 (Exchange 3)]" ?a ?l "Reserving 4 (Exchange 0)"]
    by (simp add: advance_claim_def reserve_access_defs admit_total_def checked_add_def ledger_new_def)
  have 3: "ledger_step (?s ?l [Reserving 4 (Exchange 0)]) (?s ?l1 [Reserving 4 (Raise_peak 4)])"
    using step_access [of 0 "?s ?l [Reserving 4 (Exchange 0)]" ?a ?l1 "Reserving 4 (Raise_peak 4)"]
    by (simp add: advance_claim_def reserve_access_defs admit_total_def checked_add_def ledger_new_def)
  have 4: "ledger_step (?s ?l1 [Reserving 4 (Raise_peak 4)]) (?s (?l1 \<lparr> il_peak := 4 \<rparr>) [?r])"
    using step_access [of 0 "?s ?l1 [Reserving 4 (Raise_peak 4)]" ?a "?l1 \<lparr> il_peak := 4 \<rparr>" ?r]
    by (simp add: advance_claim_def reserve_access_defs ledger_new_def)
  note r = reach_step [OF reach_step [OF reach_step [OF reach_step [OF 0 1] 2] 3] 4]
  from ledger_ceiling_respected [OF r] r show ?thesis unfolding Let_def by simp
qed

end
