(* ===== verification/Inflight_Tracker.thy ===== *)
theory Inflight_Tracker
  imports Rust_Prelude "HOL-Library.AList"
begin

text \<open>
  Coalescing of concurrent fetches (\<open>inflight_tracker.rs\<close>): flight keys, the map of pending fetches, the
  roles a request is given, and the guard of a fetcher. Every access to the map and every call on a
  broadcast channel is one step of a transition system. The channels are a library, so the model only
  records the calls made on them, in order: a subscription, a send, and the release of the last sender.
\<close>

section \<open>Flight keys\<close>

definition make_full_key :: "string \<Rightarrow> string" where
  "make_full_key cache_key = cache_key"

definition make_range_key :: "string \<Rightarrow> u64 \<Rightarrow> u64 \<Rightarrow> string" where
  "make_range_key cache_key start e = cache_key @ '':'' @ show_nat start @ ''-'' @ show_nat e"

definition make_part_key :: "string \<Rightarrow> nat \<Rightarrow> string" where
  "make_part_key cache_key part_number = cache_key @ '':part'' @ show_nat part_number"

section \<open>The tracker\<close>

type_synonym FetchResult = "string + unit"
type_synonym sender = nat

record FetchGuard =
  fg_flight_key :: string
  fg_sender :: sender
  fg_completed :: bool

type_synonym InFlightTracker = "(string \<times> sender) list"

datatype FetchRole = Fetcher FetchGuard | Waiter sender

text \<open>\<open>try_register\<close> is given the channel that \<open>broadcast::channel\<close> would create.\<close>

definition try_register :: "InFlightTracker \<Rightarrow> sender \<Rightarrow> string \<Rightarrow> FetchRole \<times> InFlightTracker" where
  "try_register pending tx flight_key =
     (case map_of pending flight_key of
        None \<Rightarrow>
          (Fetcher \<lparr> fg_flight_key = flight_key, fg_sender = tx, fg_completed = False \<rparr>,
           AList.update flight_key tx pending)
      | Some tx' \<Rightarrow> (Waiter tx', pending))"

definition try_resubscribe :: "InFlightTracker \<Rightarrow> string \<Rightarrow> sender option" where
  "try_resubscribe pending flight_key = map_of pending flight_key"

definition in_flight_count :: "InFlightTracker \<Rightarrow> usize" where
  "in_flight_count pending = length pending"

text \<open>
  \<open>complete_success\<close> and \<open>complete_error\<close> send first and remove the entry afterwards; the guard is then
  dropped, and its sender with it.
\<close>

definition complete_send :: "FetchGuard \<Rightarrow> FetchGuard" where
  "complete_send g = g \<lparr> fg_completed := True \<rparr>"

definition complete_remove :: "InFlightTracker \<Rightarrow> FetchGuard \<Rightarrow> InFlightTracker" where
  "complete_remove pending g = AList.delete (fg_flight_key g) pending"

definition drop_guard :: "InFlightTracker \<Rightarrow> FetchGuard \<Rightarrow> InFlightTracker" where
  "drop_guard pending g = (if \<not> fg_completed g then AList.delete (fg_flight_key g) pending else pending)"

section \<open>The system\<close>

text \<open>Where the owner of a guard is: before completion, after the send, after the removal, after \<open>drop\<close>, gone.\<close>

datatype guard_phase = Fetching | Notified | Unlinked | Released | Gone

datatype channel_call = Subscribe string sender | Send sender FetchResult | Close sender

record tracker_system =
  tr_pending :: InFlightTracker
  tr_guards :: "(FetchGuard \<times> guard_phase) list"
  tr_calls :: "channel_call list"

definition tracker_init :: "tracker_system \<Rightarrow> bool" where
  "tracker_init s \<longleftrightarrow> s = \<lparr> tr_pending = [], tr_guards = [], tr_calls = [] \<rparr>"

inductive tracker_step :: "tracker_system \<Rightarrow> tracker_system \<Rightarrow> bool" where
  step_fetcher: "try_register (tr_pending s) (length (tr_guards s)) flight_key = (Fetcher g, pending) \<Longrightarrow>
    tracker_step s (s \<lparr> tr_pending := pending, tr_guards := tr_guards s @ [(g, Fetching)] \<rparr>)"
| step_waiter: "try_register (tr_pending s) (length (tr_guards s)) flight_key = (Waiter tx, pending) \<Longrightarrow>
    tracker_step s (s \<lparr> tr_pending := pending, tr_calls := tr_calls s @ [Subscribe flight_key tx] \<rparr>)"
| step_resubscribe: "try_resubscribe (tr_pending s) flight_key = Some tx \<Longrightarrow>
    tracker_step s (s \<lparr> tr_calls := tr_calls s @ [Subscribe flight_key tx] \<rparr>)"
| step_send: "i < length (tr_guards s) \<Longrightarrow> tr_guards s ! i = (g, Fetching) \<Longrightarrow>
    tracker_step s (s \<lparr> tr_guards := (tr_guards s)[i := (complete_send g, Notified)],
      tr_calls := tr_calls s @ [Send (fg_sender g) result] \<rparr>)"
| step_remove: "i < length (tr_guards s) \<Longrightarrow> tr_guards s ! i = (g, Notified) \<Longrightarrow>
    tracker_step s (s \<lparr> tr_pending := complete_remove (tr_pending s) g,
      tr_guards := (tr_guards s)[i := (g, Unlinked)] \<rparr>)"
| step_drop: "i < length (tr_guards s) \<Longrightarrow> tr_guards s ! i = (g, phase) \<Longrightarrow> phase \<in> {Fetching, Unlinked} \<Longrightarrow>
    tracker_step s (s \<lparr> tr_pending := drop_guard (tr_pending s) g,
      tr_guards := (tr_guards s)[i := (g, Released)] \<rparr>)"
| step_close: "i < length (tr_guards s) \<Longrightarrow> tr_guards s ! i = (g, Released) \<Longrightarrow>
    tracker_step s (s \<lparr> tr_guards := (tr_guards s)[i := (g, Gone)], tr_calls := tr_calls s @ [Close (fg_sender g)] \<rparr>)"

section \<open>The invariant\<close>

definition active :: "guard_phase \<Rightarrow> bool" where
  "active p \<longleftrightarrow> p = Fetching \<or> p = Notified"

text \<open>The pending map is the table of the active guards.\<close>

definition pending_ok :: "tracker_system \<Rightarrow> bool" where
  "pending_ok s \<longleftrightarrow> distinct (map fst (tr_pending s)) \<and>
     (\<forall>i < length (tr_guards s). fg_sender (fst (tr_guards s ! i)) = i) \<and>
     (\<forall>k tx. map_of (tr_pending s) k = Some tx \<longleftrightarrow>
        tx < length (tr_guards s) \<and> active (snd (tr_guards s ! tx)) \<and> fg_flight_key (fst (tr_guards s ! tx)) = k)"

definition guard_ok :: "FetchGuard \<times> guard_phase \<Rightarrow> bool" where
  "guard_ok = (\<lambda>(g, p). (p = Fetching \<longrightarrow> \<not> fg_completed g) \<and> (p = Notified \<or> p = Unlinked \<longrightarrow> fg_completed g))"

text \<open>
  The calls so far: a subscription is for the key of its channel's guard and never comes after the
  close, a channel is closed exactly when its guard is gone, and it carries one result at most.
\<close>

definition is_send :: "sender \<Rightarrow> channel_call \<Rightarrow> bool" where
  "is_send tx c = (case c of Send tx' _ \<Rightarrow> tx' = tx | _ \<Rightarrow> False)"

definition calls_ok :: "tracker_system \<Rightarrow> bool" where
  "calls_ok s \<longleftrightarrow>
     (\<forall>tx. Close tx \<in> set (tr_calls s) \<longleftrightarrow> tx < length (tr_guards s) \<and> snd (tr_guards s ! tx) = Gone) \<and>
     (\<forall>tx. length (filter (is_send tx) (tr_calls s)) =
        (if tx < length (tr_guards s) \<and> fg_completed (fst (tr_guards s ! tx)) then 1 else 0)) \<and>
     (\<forall>before k tx after. tr_calls s = before @ Subscribe k tx # after \<longrightarrow>
        tx < length (tr_guards s) \<and> fg_flight_key (fst (tr_guards s ! tx)) = k \<and> Close tx \<notin> set before)"

definition tracker_inv :: "tracker_system \<Rightarrow> bool" where
  "tracker_inv s \<longleftrightarrow> pending_ok s \<and> (\<forall>x \<in> set (tr_guards s). guard_ok x) \<and> calls_ok s"

lemma map_of_delete: "map_of (AList.delete k xs) = (map_of xs)(k := None)"
  by (rule delete_conv')

text \<open>Replacing the guard at a position by one with the same key and sender.\<close>

lemma pending_ok_update:
  assumes "pending_ok s" "i < length (tr_guards s)" "tr_guards s ! i = (g, p)" "fg_flight_key g' = fg_flight_key g" "fg_sender g' = fg_sender g"
    and "if active p' then active p \<and> pending = tr_pending s
      else if active p then pending = AList.delete (fg_flight_key g) (tr_pending s) else pending = tr_pending s"
  shows "pending_ok (s \<lparr> tr_pending := pending, tr_guards := (tr_guards s)[i := (g', p')] \<rparr>)"
proof -
  note ok = assms(1) [unfolded pending_ok_def]
  have own: "map_of (tr_pending s) (fg_flight_key g) = Some i" if "active p" using ok assms(2,3) that by simp
  have d: "distinct (map fst pending)" using ok assms(6) by (auto split: if_splits intro: distinct_delete)
  have "fg_sender (fst ((tr_guards s)[i := (g', p')] ! j)) = j" if "j < length (tr_guards s)" for j
    using ok that assms(2,3,5) by (cases "j = i") auto
  moreover have "map_of pending k = Some tx \<longleftrightarrow> tx < length (tr_guards s) \<and>
      active (snd ((tr_guards s)[i := (g', p')] ! tx)) \<and> fg_flight_key (fst ((tr_guards s)[i := (g', p')] ! tx)) = k" for k tx
  proof (cases "tx = i")
    case True
    then show ?thesis using ok assms(2,3,4,6) own by (auto simp: map_of_delete split: if_splits)
  next
    case False
    then have "map_of pending k = Some tx \<longleftrightarrow> map_of (tr_pending s) k = Some tx"
      using assms(6) own by (auto simp: map_of_delete split: if_splits)
    then show ?thesis using ok False by simp
  qed
  ultimately show ?thesis using d unfolding pending_ok_def by simp
qed

lemma guards_ok_update:
  "\<forall>x \<in> set gs. guard_ok x \<Longrightarrow> guard_ok y \<Longrightarrow> \<forall>x \<in> set (gs[i := y]). guard_ok x"
  using set_update_subset_insert [of gs i y] by blast

text \<open>One more call, and one guard replaced.\<close>

lemma snoc_split:
  "xs @ [y] = before @ Subscribe k tx # after \<longleftrightarrow>
     before = xs \<and> y = Subscribe k tx \<and> after = [] \<or> (\<exists>after'. after = after' @ [y] \<and> xs = before @ Subscribe k tx # after')"
  by (cases after rule: rev_cases) auto

text \<open>What the three parts of \<open>calls_ok\<close> say of the state.\<close>

lemma calls_okD:
  assumes "calls_ok s"
  shows "Close tx \<in> set (tr_calls s) \<longleftrightarrow> tx < length (tr_guards s) \<and> snd (tr_guards s ! tx) = Gone"
    "length (filter (is_send tx) (tr_calls s)) =
       (if tx < length (tr_guards s) \<and> fg_completed (fst (tr_guards s ! tx)) then 1 else 0)"
    "tr_calls s = before @ Subscribe k tx # after \<Longrightarrow>
       tx < length (tr_guards s) \<and> fg_flight_key (fst (tr_guards s ! tx)) = k \<and> Close tx \<notin> set before"
  using assms unfolding calls_ok_def by blast+

lemma calls_ok_same:
  assumes "calls_ok s" "i < length (tr_guards s)" "tr_guards s ! i = (g, p)" "fg_flight_key g' = fg_flight_key g"
    and "fg_completed g' = fg_completed g" "p' = Gone \<longleftrightarrow> p = Gone"
  shows "calls_ok (s \<lparr> tr_pending := pending, tr_guards := (tr_guards s)[i := (g', p')] \<rparr>)"
proof -
  have "snd ((tr_guards s)[i := (g', p')] ! tx) = Gone \<longleftrightarrow> snd (tr_guards s ! tx) = Gone"
    "fg_completed (fst ((tr_guards s)[i := (g', p')] ! tx)) = fg_completed (fst (tr_guards s ! tx))"
    "fg_flight_key (fst ((tr_guards s)[i := (g', p')] ! tx)) = fg_flight_key (fst (tr_guards s ! tx))" for tx
    using assms(2-) by (cases "tx = i"; simp)+
  then show ?thesis using assms(1) unfolding calls_ok_def by simp
qed

lemma calls_ok_send:
  assumes "calls_ok s" "i < length (tr_guards s)" "tr_guards s ! i = (g, Fetching)" "\<not> fg_completed g" "fg_sender g = i"
  shows "calls_ok (s \<lparr> tr_guards := (tr_guards s)[i := (complete_send g, Notified)],
    tr_calls := tr_calls s @ [Send (fg_sender g) result] \<rparr>)"
proof -
  let ?gs = "(tr_guards s)[i := (complete_send g, Notified)]"
  have "snd (?gs ! tx) = Gone \<longleftrightarrow> snd (tr_guards s ! tx) = Gone"
    "fg_flight_key (fst (?gs ! tx)) = fg_flight_key (fst (tr_guards s ! tx))"
    "fg_completed (fst (?gs ! tx)) \<longleftrightarrow> fg_completed (fst (tr_guards s ! tx)) \<or> tx = i" for tx
    using assms(2-3) by (cases "tx = i"; simp add: complete_send_def)+
  moreover have "length (filter (is_send i) (tr_calls s)) = 0" using calls_okD(2) [OF assms(1), of i] assms(2-4) by simp
  ultimately show ?thesis using assms(2,5) calls_okD [OF assms(1)] unfolding calls_ok_def
    by (auto simp: is_send_def snoc_split)
qed

lemma calls_ok_close:
  assumes "calls_ok s" "i < length (tr_guards s)" "tr_guards s ! i = (g, Released)" "fg_sender g = i"
  shows "calls_ok (s \<lparr> tr_guards := (tr_guards s)[i := (g, Gone)], tr_calls := tr_calls s @ [Close (fg_sender g)] \<rparr>)"
proof -
  let ?gs = "(tr_guards s)[i := (g, Gone)]"
  have "snd (?gs ! tx) = Gone \<longleftrightarrow> snd (tr_guards s ! tx) = Gone \<or> tx = i"
    "fg_flight_key (fst (?gs ! tx)) = fg_flight_key (fst (tr_guards s ! tx))"
    "fg_completed (fst (?gs ! tx)) = fg_completed (fst (tr_guards s ! tx))" for tx
    using assms(2-3) by (cases "tx = i"; simp)+
  then show ?thesis using assms(2,4) calls_okD [OF assms(1)] unfolding calls_ok_def
    by (auto simp: is_send_def snoc_split)
qed

lemma calls_ok_subscribe:
  assumes "calls_ok s" "pending_ok s" "map_of (tr_pending s) k = Some tx"
  shows "calls_ok (s \<lparr> tr_calls := tr_calls s @ [Subscribe k tx] \<rparr>)"
proof -
  have "tx < length (tr_guards s)" "active (snd (tr_guards s ! tx))" "fg_flight_key (fst (tr_guards s ! tx)) = k"
    using assms(2,3) unfolding pending_ok_def by blast+
  then show ?thesis using calls_okD [OF assms(1)] unfolding calls_ok_def
    by (auto simp: is_send_def snoc_split active_def)
qed

lemma calls_ok_fetcher:
  assumes "calls_ok s" "\<not> fg_completed g"
  shows "calls_ok (s \<lparr> tr_pending := pending, tr_guards := tr_guards s @ [(g, Fetching)] \<rparr>)"
proof -
  have n: "(tr_guards s @ [(g, Fetching)]) ! tx = (if tx < length (tr_guards s) then tr_guards s ! tx else (g, Fetching))"
    if "tx < Suc (length (tr_guards s))" for tx using that by (auto simp: nth_append)
  show ?thesis using calls_okD [OF assms(1)] assms(2) unfolding calls_ok_def
    by (auto simp: nth_append less_Suc_eq)
qed

lemma pending_ok_fetcher:
  assumes "pending_ok s" "map_of (tr_pending s) k = None" "fg_sender g = length (tr_guards s)" "fg_flight_key g = k"
  shows "pending_ok (s \<lparr> tr_pending := AList.update k (length (tr_guards s)) (tr_pending s),
    tr_guards := tr_guards s @ [(g, Fetching)] \<rparr>)"
proof -
  note ok = assms(1) [unfolded pending_ok_def]
  let ?n = "length (tr_guards s)"
  have "map_of (AList.update k ?n (tr_pending s)) k' = Some tx \<longleftrightarrow> tx < Suc ?n \<and>
      active (snd ((tr_guards s @ [(g, Fetching)]) ! tx)) \<and> fg_flight_key (fst ((tr_guards s @ [(g, Fetching)]) ! tx)) = k'" for k' tx
  proof (cases "tx < ?n")
    case True
    then have "map_of (tr_pending s) k' = Some tx \<longleftrightarrow> active (snd (tr_guards s ! tx)) \<and> fg_flight_key (fst (tr_guards s ! tx)) = k'"
      using ok by blast
    then show ?thesis using True assms(2) by (auto simp: update_conv' nth_append)
  next
    case False
    then have "map_of (tr_pending s) k' \<noteq> Some tx" using ok by blast
    then show ?thesis using False assms(4) by (auto simp: update_conv' nth_append active_def)
  qed
  moreover have "fg_sender (fst ((tr_guards s @ [(g, Fetching)]) ! i)) = i" if "i < Suc ?n" for i
    using that ok assms(3) by (auto simp: nth_append less_Suc_eq)
  ultimately show ?thesis using ok unfolding pending_ok_def by (simp add: distinct_update)
qed

lemma pending_ok_cong:
  "pending_ok s \<Longrightarrow> tr_pending t = tr_pending s \<Longrightarrow> tr_guards t = tr_guards s \<Longrightarrow> pending_ok t"
  unfolding pending_ok_def by simp

lemma tracker_step_keeps: "tracker_step s t \<Longrightarrow> tracker_inv s \<Longrightarrow> tracker_inv t"
proof (induction rule: tracker_step.induct)
  case (step_fetcher s flight_key g pending)
  then have g: "map_of (tr_pending s) flight_key = None" "pending = AList.update flight_key (length (tr_guards s)) (tr_pending s)"
      "fg_sender g = length (tr_guards s)" "fg_flight_key g = flight_key" "\<not> fg_completed g"
    by (auto simp: try_register_def split: option.splits)
  have i: "pending_ok s" "calls_ok s" "\<forall>x \<in> set (tr_guards s). guard_ok x" using step_fetcher(2) unfolding tracker_inv_def by blast+
  show ?case using pending_ok_fetcher [OF i(1) g(1,3,4)] calls_ok_fetcher [OF i(2) g(5)] i(3) g(2,5)
    unfolding tracker_inv_def by (simp add: guard_ok_def)
next
  case (step_waiter s flight_key tx pending)
  then have g: "map_of (tr_pending s) flight_key = Some tx" "pending = tr_pending s"
    by (auto simp: try_register_def split: option.splits)
  have i: "pending_ok s" "calls_ok s" "\<forall>x \<in> set (tr_guards s). guard_ok x" using step_waiter(2) unfolding tracker_inv_def by blast+
  show ?case using calls_ok_subscribe [OF i(2,1) g(1)] i(3) g(2) pending_ok_cong [OF i(1)] unfolding tracker_inv_def by simp
next
  case (step_resubscribe s flight_key tx)
  then have g: "map_of (tr_pending s) flight_key = Some tx" by (simp add: try_resubscribe_def)
  have i: "pending_ok s" "calls_ok s" "\<forall>x \<in> set (tr_guards s). guard_ok x" using step_resubscribe(2) unfolding tracker_inv_def by blast+
  show ?case using calls_ok_subscribe [OF i(2,1) g] i(3) pending_ok_cong [OF i(1)] unfolding tracker_inv_def by simp
next
  case (step_send i s g result)
  have I: "pending_ok s" "calls_ok s" "\<forall>x \<in> set (tr_guards s). guard_ok x" using step_send(3) unfolding tracker_inv_def by blast+
  have g: "guard_ok (g, Fetching)" "fg_sender g = i"
    using I(1,3) step_send(1,2) unfolding pending_ok_def by (metis nth_mem, metis fst_conv)
  have "pending_ok (s \<lparr> tr_pending := tr_pending s, tr_guards := (tr_guards s)[i := (complete_send g, Notified)] \<rparr>)"
    by (rule pending_ok_update [OF I(1) step_send(1,2)]) (simp_all add: complete_send_def active_def)
  from pending_ok_cong [OF this]
  have p: "pending_ok (s \<lparr> tr_guards := (tr_guards s)[i := (complete_send g, Notified)],
      tr_calls := tr_calls s @ [Send (fg_sender g) result] \<rparr>)" by simp
  have u: "\<forall>x \<in> set ((tr_guards s)[i := (complete_send g, Notified)]). guard_ok x"
    by (rule guards_ok_update [OF I(3)]) (simp add: guard_ok_def complete_send_def)
  have "\<not> fg_completed g" using g(1) by (simp add: guard_ok_def)
  from calls_ok_send [OF I(2) step_send(1,2) this g(2)] p u show ?case unfolding tracker_inv_def by simp
next
  case (step_remove i s g)
  have I: "pending_ok s" "calls_ok s" "\<forall>x \<in> set (tr_guards s). guard_ok x" using step_remove(3) unfolding tracker_inv_def by blast+
  have g: "guard_ok (g, Notified)" using I(3) step_remove(1,2) by (metis nth_mem)
  have "pending_ok (s \<lparr> tr_pending := complete_remove (tr_pending s) g, tr_guards := (tr_guards s)[i := (g, Unlinked)] \<rparr>)"
    by (rule pending_ok_update [OF I(1) step_remove(1,2)]) (simp_all add: complete_remove_def active_def)
  moreover have "\<forall>x \<in> set ((tr_guards s)[i := (g, Unlinked)]). guard_ok x"
    by (rule guards_ok_update [OF I(3)]) (use g in \<open>simp add: guard_ok_def\<close>)
  ultimately show ?case using calls_ok_same [OF I(2) step_remove(1,2), of g Unlinked] unfolding tracker_inv_def by simp
next
  case (step_drop i s g phase)
  have I: "pending_ok s" "calls_ok s" "\<forall>x \<in> set (tr_guards s). guard_ok x" using step_drop(4) unfolding tracker_inv_def by blast+
  have g: "guard_ok (g, phase)" using I(3) step_drop(1,2) by (metis nth_mem)
  have "pending_ok (s \<lparr> tr_pending := drop_guard (tr_pending s) g, tr_guards := (tr_guards s)[i := (g, Released)] \<rparr>)"
    by (rule pending_ok_update [OF I(1) step_drop(1,2)])
      (use g step_drop(3) in \<open>auto simp: drop_guard_def active_def guard_ok_def\<close>)
  moreover have "calls_ok (s \<lparr> tr_pending := drop_guard (tr_pending s) g, tr_guards := (tr_guards s)[i := (g, Released)] \<rparr>)"
    by (rule calls_ok_same [OF I(2) step_drop(1,2)]) (use step_drop(3) in auto)
  moreover have "\<forall>x \<in> set ((tr_guards s)[i := (g, Released)]). guard_ok x"
    by (rule guards_ok_update [OF I(3)]) (simp add: guard_ok_def)
  ultimately show ?case unfolding tracker_inv_def by simp
next
  case (step_close i s g)
  have I: "pending_ok s" "calls_ok s" "\<forall>x \<in> set (tr_guards s). guard_ok x" using step_close(3) unfolding tracker_inv_def by blast+
  have g: "fg_sender g = i" using I(1) step_close(1,2) unfolding pending_ok_def by (metis fst_conv)
  have "pending_ok (s \<lparr> tr_pending := tr_pending s, tr_guards := (tr_guards s)[i := (g, Gone)] \<rparr>)"
    by (rule pending_ok_update [OF I(1) step_close(1,2)]) (simp_all add: active_def)
  from pending_ok_cong [OF this]
  have p: "pending_ok (s \<lparr> tr_guards := (tr_guards s)[i := (g, Gone)], tr_calls := tr_calls s @ [Close (fg_sender g)] \<rparr>)" by simp
  have u: "\<forall>x \<in> set ((tr_guards s)[i := (g, Gone)]). guard_ok x"
    by (rule guards_ok_update [OF I(3)]) (simp add: guard_ok_def)
  from calls_ok_close [OF I(2) step_close(1,2) g] p u show ?case unfolding tracker_inv_def by simp
qed

interpretation tracker: transition_invariant tracker_init tracker_step tracker_inv
proof unfold_locales
  show "tracker_inv s" if "tracker_init s" for s
    using that by (simp add: tracker_init_def tracker_inv_def pending_ok_def calls_ok_def)
  show "tracker_inv t" if "tracker_inv s" "tracker_step s t" for s t
    using that tracker_step_keeps by blast
qed

section \<open>Keys\<close>

lemma sep_inject:
  assumes "x @ (d :: char) # a = y @ d # b" "d \<notin> set x" "d \<notin> set y"
  shows "x = y \<and> a = b"
  using arg_cong [OF assms(1), of "split_once d"]
  by (simp only: split_once_sep [OF assms(2)] split_once_sep [OF assms(3)] option.inject prod.inject)

lemma colon_suffix_inject:
  assumes "a @ CHR '':'' # x = b @ CHR '':'' # y" "CHR '':'' \<notin> set x" "CHR '':'' \<notin> set y"
  shows "a = b \<and> x = y"
proof -
  have "rev x @ CHR '':'' # rev a = rev y @ CHR '':'' # rev b" using arg_cong [OF assms(1), of rev] by simp
  from sep_inject [OF this] assms(2,3) show ?thesis by simp
qed

lemma dash_inject:
  assumes "show_nat a @ CHR ''-'' # show_nat b = show_nat c @ CHR ''-'' # show_nat d"
  shows "a = c \<and> b = d"
proof -
  have n: "CHR ''-'' \<notin> set (show_nat k)" for k by (rule show_nat_notin) simp
  from sep_inject [OF assms n n] show ?thesis using parse_show_nat_inj by blast
qed

lemma flight_suffix_no_colon:
  "CHR '':'' \<notin> set (show_nat a @ CHR ''-'' # show_nat b)" "CHR '':'' \<notin> set (''part'' @ show_nat a)"
  using show_nat_notin [of "CHR '':''" a] show_nat_notin [of "CHR '':''" b] by simp_all

lemma range_key_inject:
  assumes "make_range_key k1 s1 e1 = make_range_key k2 s2 e2"
  shows "k1 = k2 \<and> s1 = s2 \<and> e1 = e2"
proof -
  have "k1 @ CHR '':'' # (show_nat s1 @ CHR ''-'' # show_nat e1) = k2 @ CHR '':'' # (show_nat s2 @ CHR ''-'' # show_nat e2)"
    using assms unfolding make_range_key_def by (simp only: append_Cons append_Nil)
  from colon_suffix_inject [OF this flight_suffix_no_colon(1) flight_suffix_no_colon(1)]
  show ?thesis using dash_inject by blast
qed

lemma part_key_inject:
  assumes "make_part_key k1 n1 = make_part_key k2 n2"
  shows "k1 = k2 \<and> n1 = n2"
proof -
  have "k1 @ CHR '':'' # (''part'' @ show_nat n1) = k2 @ CHR '':'' # (''part'' @ show_nat n2)"
    using assms unfolding make_part_key_def by (simp only: append_Cons append_Nil)
  from colon_suffix_inject [OF this flight_suffix_no_colon(2) flight_suffix_no_colon(2)]
  show ?thesis using parse_show_nat_inj by (metis append_same_eq same_append_eq)
qed

lemma range_key_not_part: "make_range_key k1 s1 e1 \<noteq> make_part_key k2 n"
proof
  assume "make_range_key k1 s1 e1 = make_part_key k2 n"
  then have "k1 @ CHR '':'' # (show_nat s1 @ CHR ''-'' # show_nat e1) = k2 @ CHR '':'' # (''part'' @ show_nat n)"
    unfolding make_range_key_def make_part_key_def by (simp only: append_Cons append_Nil)
  from colon_suffix_inject [OF this flight_suffix_no_colon] have e: "show_nat s1 @ CHR ''-'' # show_nat e1 = ''part'' @ show_nat n" by blast
  obtain c cs where c: "show_nat s1 = c # cs" using show_nat_nonempty by (meson neq_Nil_conv)
  then have "c = CHR ''p''" using e by simp
  moreover have "CHR ''p'' \<notin> set (show_nat s1)" by (rule show_nat_notin) simp
  ultimately show False using c by simp
qed

text \<open>A full-object request and a range request of another object can have the same flight key.\<close>

lemma flight_key_collision: "make_full_key ''b/f:0-5'' = make_range_key ''b/f'' 0 5" by code_simp

section \<open>The properties\<close>

lemma pending_count:
  assumes "pending_ok s"
  shows "length (tr_pending s) = length (filter (active \<circ> snd) (tr_guards s))"
proof -
  note ok = assms [unfolded pending_ok_def]
  have m: "(k, tx) \<in> set (tr_pending s) \<longleftrightarrow> tx < length (tr_guards s) \<and> active (snd (tr_guards s ! tx)) \<and>
      fg_flight_key (fst (tr_guards s ! tx)) = k" for k tx
    using ok map_of_eq_Some_iff [of "tr_pending s" k tx] by blast
  have "set (map snd (tr_pending s)) = {i. i < length (tr_guards s) \<and> (active \<circ> snd) (tr_guards s ! i)}"
  proof (intro set_eqI)
    fix i
    have "i \<in> set (map snd (tr_pending s)) \<longleftrightarrow> (\<exists>k. (k, i) \<in> set (tr_pending s))" by force
    then show "i \<in> set (map snd (tr_pending s)) \<longleftrightarrow> i \<in> {i. i < length (tr_guards s) \<and> (active \<circ> snd) (tr_guards s ! i)}"
      unfolding m by simp
  qed
  moreover have "distinct (map snd (tr_pending s))"
    unfolding distinct_map
  proof
    show "distinct (tr_pending s)" using ok by (simp add: distinct_map)
    show "inj_on snd (set (tr_pending s))" by (rule inj_onI) (use m in \<open>metis prod.collapse\<close>)
  qed
  ultimately show ?thesis using distinct_card [of "map snd (tr_pending s)"] by (simp add: length_filter_conv_card)
qed

text \<open>C37: Fetches are coalesced and no request waits for nobody. Whatever the interleaving of
  registrations, completions, abandoned guards and late subscriptions, at most one fetcher is active
  per flight key, and the tracker counts the active fetchers exactly. Every request that was told to
  wait subscribed to the channel of a fetcher of its own key while that channel was open, and the
  channel is closed afterwards exactly when the fetcher's guard is gone, so a waiter is released in
  every case; a channel carries at most one result.\<close>

theorem single_flight:
  assumes "reach tracker_init tracker_step s"
  shows "(\<forall>i j. i < length (tr_guards s) \<and> j < length (tr_guards s) \<and> active (snd (tr_guards s ! i)) \<and>
        active (snd (tr_guards s ! j)) \<and> fg_flight_key (fst (tr_guards s ! i)) = fg_flight_key (fst (tr_guards s ! j)) \<longrightarrow> i = j) \<and>
    in_flight_count (tr_pending s) = length (filter (active \<circ> snd) (tr_guards s)) \<and>
    (\<forall>before k tx after. tr_calls s = before @ Subscribe k tx # after \<longrightarrow>
       tx < length (tr_guards s) \<and> fg_flight_key (fst (tr_guards s ! tx)) = k \<and> Close tx \<notin> set before \<and>
       (Close tx \<in> set after \<longleftrightarrow> snd (tr_guards s ! tx) = Gone)) \<and>
    (\<forall>tx. length (filter (is_send tx) (tr_calls s)) \<le> 1)"
proof -
  from tracker.reach_inv [OF assms] have I: "pending_ok s" "calls_ok s" unfolding tracker_inv_def by blast+
  have one: "i = j" if "i < length (tr_guards s)" "j < length (tr_guards s)" "active (snd (tr_guards s ! i))"
      "active (snd (tr_guards s ! j))" "fg_flight_key (fst (tr_guards s ! i)) = fg_flight_key (fst (tr_guards s ! j))" for i j
  proof -
    let ?k = "fg_flight_key (fst (tr_guards s ! i))"
    have "map_of (tr_pending s) ?k = Some i" "map_of (tr_pending s) ?k = Some j"
      using I(1) that unfolding pending_ok_def by simp_all
    then show ?thesis by simp
  qed
  have sub: "tx < length (tr_guards s) \<and> fg_flight_key (fst (tr_guards s ! tx)) = k \<and> Close tx \<notin> set before \<and>
      (Close tx \<in> set after \<longleftrightarrow> snd (tr_guards s ! tx) = Gone)" if "tr_calls s = before @ Subscribe k tx # after" for before k tx after
    using calls_okD(3) [OF I(2) that] calls_okD(1) [OF I(2), of tx] that by auto
  have send: "length (filter (is_send tx) (tr_calls s)) \<le> 1" for tx using calls_okD(2) [OF I(2), of tx] by simp
  show ?thesis unfolding in_flight_count_def
  proof (intro conjI)
    show "length (tr_pending s) = length (filter (active \<circ> snd) (tr_guards s))" by (rule pending_count [OF I(1)])
  qed (use one sub send in blast)+
qed

lemma late_waiter_run:
  "reach tracker_init tracker_step
     \<lparr> tr_pending = [], tr_guards = [(\<lparr> fg_flight_key = ''k'', fg_sender = 0, fg_completed = True \<rparr>, Gone)],
       tr_calls = [Send 0 (Inr ()), Subscribe ''k'' 0, Close 0] \<rparr>"
proof -
  let ?s = "\<lambda>p g c. \<lparr> tr_pending = p, tr_guards = g, tr_calls = c \<rparr>"
  let ?g = "\<lambda>b. \<lparr> fg_flight_key = ''k'', fg_sender = 0, fg_completed = b \<rparr>"
  let ?p = "[(''k'', 0)]"
  have 0: "reach tracker_init tracker_step (?s [] [] [])" by (rule reach_init) (simp add: tracker_init_def)
  have 1: "tracker_step (?s [] [] []) (?s ?p [(?g False, Fetching)] [])"
    using step_fetcher [of "?s [] [] []" "''k''" "?g False" ?p] by (simp add: try_register_def)
  have 2: "tracker_step (?s ?p [(?g False, Fetching)] []) (?s ?p [(?g True, Notified)] [Send 0 (Inr ())])"
    using step_send [of 0 "?s ?p [(?g False, Fetching)] []" "?g False" "Inr ()"] by (simp add: complete_send_def)
  have 3: "tracker_step (?s ?p [(?g True, Notified)] [Send 0 (Inr ())])
      (?s ?p [(?g True, Notified)] [Send 0 (Inr ()), Subscribe ''k'' 0])"
    using step_waiter [of "?s ?p [(?g True, Notified)] [Send 0 (Inr ())]" "''k''" 0 ?p] by (simp add: try_register_def)
  let ?c = "[Send 0 (Inr ()), Subscribe ''k'' 0]"
  have 4: "tracker_step (?s ?p [(?g True, Notified)] ?c) (?s [] [(?g True, Unlinked)] ?c)"
    using step_remove [of 0 "?s ?p [(?g True, Notified)] ?c" "?g True"] by (simp add: complete_remove_def)
  have 5: "tracker_step (?s [] [(?g True, Unlinked)] ?c) (?s [] [(?g True, Released)] ?c)"
    using step_drop [of 0 "?s [] [(?g True, Unlinked)] ?c" "?g True" Unlinked] by (simp add: drop_guard_def)
  have 6: "tracker_step (?s [] [(?g True, Released)] ?c) (?s [] [(?g True, Gone)] [Send 0 (Inr ()), Subscribe ''k'' 0, Close 0])"
    using step_close [of 0 "?s [] [(?g True, Released)] ?c" "?g True"] by simp
  have r1: "reach tracker_init tracker_step (?s ?p [(?g False, Fetching)] [])" by (rule reach_step [OF 0 1])
  have r2: "reach tracker_init tracker_step (?s ?p [(?g True, Notified)] [Send 0 (Inr ())])"
    by (rule reach_step, rule r1, rule 2)
  have r3: "reach tracker_init tracker_step (?s ?p [(?g True, Notified)] ?c)" by (rule reach_step, rule r2, rule 3)
  have r4: "reach tracker_init tracker_step (?s [] [(?g True, Unlinked)] ?c)" by (rule reach_step, rule r3, rule 4)
  have r5: "reach tracker_init tracker_step (?s [] [(?g True, Released)] ?c)" by (rule reach_step, rule r4, rule 5)
  show ?thesis by (rule reach_step, rule r5, rule 6)
qed

text \<open>
  A request that registers between the send and the removal subscribes after the only result of its
  channel and sees nothing but the close, although the fetch succeeded.
\<close>

lemma late_waiter_misses_result:
  "\<exists>s. reach tracker_init tracker_step s \<and> tr_calls s = [Send 0 (Inr ()), Subscribe ''k'' 0, Close 0]"
  by (rule exI, rule conjI [OF late_waiter_run]) simp

theorem single_flight_witness:
  "let s = \<lparr> tr_pending = [], tr_guards = [(\<lparr> fg_flight_key = ''k'', fg_sender = 0, fg_completed = True \<rparr>, Gone)],
       tr_calls = [Send 0 (Inr ()), Subscribe ''k'' 0, Close 0] \<rparr>
   in reach tracker_init tracker_step s \<and> in_flight_count (tr_pending s) = 0 \<and>
      (Close 0 \<in> set [Close 0] \<longleftrightarrow> snd (tr_guards s ! 0) = Gone)"
proof -
  let ?s = "\<lparr> tr_pending = [], tr_guards = [(\<lparr> fg_flight_key = ''k'', fg_sender = 0, fg_completed = True \<rparr>, Gone)],
       tr_calls = [Send 0 (Inr ()), Subscribe ''k'' 0, Close 0] \<rparr>"
  have "in_flight_count (tr_pending ?s) = length (filter (active \<circ> snd) (tr_guards ?s))"
    by (rule single_flight [OF late_waiter_run, THEN conjunct2, THEN conjunct1])
  then show ?thesis using late_waiter_run unfolding Let_def by (simp add: active_def)
qed

end
