(* ===== verification/Destination_Policy.thy ===== *)
theory Destination_Policy
  imports Rust_Prelude "HOL-Library.Word"
begin

unbundle bit_operations_syntax

text \<open>
  The restriction of outbound connections (\<open>destination_policy.rs\<close>): the classification of addresses,
  the host name allowlist and the decision of \<open>check\<close>. The DNS resolver is a library and an argument.
  The documented networks are stated a second time, as address prefixes, and the octet tests of the
  code are shown to decide them.
\<close>

section \<open>Addresses\<close>

record Ipv4Addr =
  v4_0 :: "8 word"
  v4_1 :: "8 word"
  v4_2 :: "8 word"
  v4_3 :: "8 word"

text \<open>An IPv6 address is its eight segments.\<close>

record Ipv6Addr =
  v6_0 :: "16 word"
  v6_1 :: "16 word"
  v6_2 :: "16 word"
  v6_3 :: "16 word"
  v6_4 :: "16 word"
  v6_5 :: "16 word"
  v6_6 :: "16 word"
  v6_7 :: "16 word"

datatype IpAddr = V4 Ipv4Addr | V6 Ipv6Addr

definition v6_segments :: "Ipv6Addr \<Rightarrow> 16 word list" where
  "v6_segments ip = [v6_0 ip, v6_1 ip, v6_2 ip, v6_3 ip, v6_4 ip, v6_5 ip, v6_6 ip, v6_7 ip]"

text \<open>\<open>to_ipv4_mapped\<close>: the form \<open>::ffff:a.b.c.d\<close> only.\<close>

definition to_ipv4_mapped :: "Ipv6Addr \<Rightarrow> Ipv4Addr option" where
  "to_ipv4_mapped ip =
     (if take 6 (v6_segments ip) = [0, 0, 0, 0, 0, 0xFFFF]
      then Some \<lparr> v4_0 = ucast (drop_bit 8 (v6_6 ip)), v4_1 = ucast (v6_6 ip),
                  v4_2 = ucast (drop_bit 8 (v6_7 ip)), v4_3 = ucast (v6_7 ip) \<rparr>
      else None)"

section \<open>Classification\<close>

definition is_prohibited_v4 :: "Ipv4Addr \<Rightarrow> bool" where
  "is_prohibited_v4 ip \<longleftrightarrow>
     (if v4_0 ip = 0 then True
      else if v4_0 ip = 127 then True
      else if v4_0 ip = 10 then True
      else if v4_0 ip = 172 \<and> (v4_1 ip AND 0xF0) = 16 then True
      else if v4_0 ip = 192 \<and> v4_1 ip = 168 then True
      else if v4_0 ip = 169 \<and> v4_1 ip = 254 then True
      else False)"

definition is_prohibited_v6 :: "Ipv6Addr \<Rightarrow> bool" where
  "is_prohibited_v6 ip \<longleftrightarrow>
     (case to_ipv4_mapped ip of
        Some v4 \<Rightarrow> is_prohibited_v4 v4
      | None \<Rightarrow>
          if v6_segments ip = [0, 0, 0, 0, 0, 0, 0, 0] then True
          else if v6_segments ip = [0, 0, 0, 0, 0, 0, 0, 1] then True
          else if (v6_0 ip AND 0xFFC0) = 0xFE80 then True
          else if (v6_0 ip AND 0xFE00) = 0xFC00 then True
          else False)"

definition is_prohibited :: "IpAddr \<Rightarrow> bool" where
  "is_prohibited ip = (case ip of V4 v4 \<Rightarrow> is_prohibited_v4 v4 | V6 v6 \<Rightarrow> is_prohibited_v6 v6)"

section \<open>The policy\<close>

datatype RejectionReason =
  PortNotAllowed nat nat
| AllowlistMiss string
| IpRangeBlocked string "IpAddr list"
| DnsResolutionFailed string string

text \<open>
  The \<open>Display\<close> form, as parts: the addresses are printed by their \<open>Debug\<close> form, which is an argument.
\<close>

fun show_rejection :: "(IpAddr list \<Rightarrow> string) \<Rightarrow> RejectionReason \<Rightarrow> string" where
  "show_rejection debug (PortNotAllowed requested allowed) =
     ''port '' @ show_nat requested @ '' not allowed (only port '' @ show_nat allowed @ '' permitted)''"
| "show_rejection debug (AllowlistMiss hostname) =
     ''hostname '' @ [CHR 0x27] @ hostname @ [CHR 0x27] @ '' does not match any connect allowlist pattern''"
| "show_rejection debug (IpRangeBlocked hostname ips) =
     ''all resolved IPs for '' @ [CHR 0x27] @ hostname @ [CHR 0x27] @ '' are in prohibited ranges: '' @ debug ips"
| "show_rejection debug (DnsResolutionFailed hostname err) =
     ''DNS resolution failed for '' @ [CHR 0x27] @ hostname @ [CHR 0x27] @ '': '' @ err"

record DestinationPolicy =
  dp_allowed_port :: nat
  dp_connect_allowlist :: "string list option"
  dp_endpoint_override_ips :: "IpAddr list"

definition policy_new :: "nat \<Rightarrow> string list option \<Rightarrow> IpAddr list \<Rightarrow> DestinationPolicy" where
  "policy_new allowed_port connect_allowlist endpoint_override_ips =
     \<lparr> dp_allowed_port = allowed_port, dp_connect_allowlist = connect_allowlist,
       dp_endpoint_override_ips = endpoint_override_ips \<rparr>"

fun hostname_matches_allowlist :: "string \<Rightarrow> string list \<Rightarrow> bool" where
  "hostname_matches_allowlist hostname [] = False"
| "hostname_matches_allowlist hostname (pattern # allowlist) =
     (let hostname_lower = map ascii_lower hostname;
          pattern_lower = map ascii_lower pattern
      in case strip_prefix ''*.'' pattern_lower of
           Some suff \<Rightarrow>
             if ends_with (''.'' @ suff) hostname_lower then True
             else if hostname_lower = suff then True
             else hostname_matches_allowlist hostname allowlist
         | None \<Rightarrow>
             if hostname_lower = pattern_lower then True
             else hostname_matches_allowlist hostname allowlist)"

fun classify_loop :: "DestinationPolicy \<Rightarrow> IpAddr list \<Rightarrow> IpAddr list" where
  "classify_loop p [] = []"
| "classify_loop p (ip # ips) =
     (if \<not> is_prohibited ip then ip # classify_loop p ips
      else if ip \<in> set (dp_endpoint_override_ips p) then ip # classify_loop p ips
      else classify_loop p ips)"

definition classify_ips :: "DestinationPolicy \<Rightarrow> string \<Rightarrow> IpAddr list \<Rightarrow> RejectionReason + IpAddr list" where
  "classify_ips p host resolved_ips =
     (let allowed_ips = classify_loop p resolved_ips
      in if allowed_ips = [] then Inl (IpRangeBlocked host resolved_ips) else Inr allowed_ips)"

definition check_destination ::
    "DestinationPolicy \<Rightarrow> string \<Rightarrow> nat \<Rightarrow> (string \<Rightarrow> string + IpAddr list) \<Rightarrow> RejectionReason + IpAddr list" where
  "check_destination p host port lookup_ip =
     (if port \<noteq> dp_allowed_port p then Inl (PortNotAllowed port (dp_allowed_port p))
      else if (case dp_connect_allowlist p of
                 Some allowlist \<Rightarrow> \<not> hostname_matches_allowlist host allowlist
               | None \<Rightarrow> False) then Inl (AllowlistMiss host)
      else
        (case lookup_ip host of
           Inl e \<Rightarrow> Inl (DnsResolutionFailed host e)
         | Inr resolved_ips \<Rightarrow>
             if resolved_ips = [] then Inl (DnsResolutionFailed host ''no IP addresses returned'')
             else classify_ips p host resolved_ips))"

section \<open>The documented networks\<close>

text \<open>Addresses as numbers, and membership in a network given by a base address and a prefix length.\<close>

definition v4_number :: "Ipv4Addr \<Rightarrow> nat" where
  "v4_number ip = unat (v4_0 ip) * 2 ^ 24 + unat (v4_1 ip) * 2 ^ 16 + unat (v4_2 ip) * 2 ^ 8 + unat (v4_3 ip)"

definition v6_number :: "Ipv6Addr \<Rightarrow> nat" where
  "v6_number ip = foldl (\<lambda>n s. n * 2 ^ 16 + unat s) 0 (v6_segments ip)"

definition in_net :: "nat \<Rightarrow> nat \<Rightarrow> nat \<times> nat \<Rightarrow> bool" where
  "in_net width addr net = (addr div 2 ^ (width - snd net) = fst net div 2 ^ (width - snd net))"

text \<open>\<open>0.0.0.0/8\<close>, \<open>127.0.0.0/8\<close>, \<open>10.0.0.0/8\<close>, \<open>172.16.0.0/12\<close>, \<open>192.168.0.0/16\<close>, \<open>169.254.0.0/16\<close>.\<close>

definition prohibited_nets_v4 :: "(nat \<times> nat) list" where
  "prohibited_nets_v4 =
     [(0, 8), (127 * 2 ^ 24, 8), (10 * 2 ^ 24, 8), (172 * 2 ^ 24 + 16 * 2 ^ 16, 12),
      (192 * 2 ^ 24 + 168 * 2 ^ 16, 16), (169 * 2 ^ 24 + 254 * 2 ^ 16, 16)]"

text \<open>\<open>::/128\<close>, \<open>::1/128\<close>, \<open>fe80::/10\<close>, \<open>fc00::/7\<close>; \<open>::ffff:0:0/96\<close> holds the mapped addresses.\<close>

definition prohibited_nets_v6 :: "(nat \<times> nat) list" where
  "prohibited_nets_v6 = [(0, 128), (1, 128), (0xFE80 * 2 ^ 112, 10), (0xFC00 * 2 ^ 112, 7)]"

definition mapped_net :: "nat \<times> nat" where
  "mapped_net = (0xFFFF * 2 ^ 32, 96)"

fun documented_prohibited :: "IpAddr \<Rightarrow> bool" where
  "documented_prohibited (V4 ip) = list_ex (in_net 32 (v4_number ip)) prohibited_nets_v4"
| "documented_prohibited (V6 ip) =
     (if in_net 128 (v6_number ip) mapped_net
      then list_ex (in_net 32 (v6_number ip mod 2 ^ 32)) prohibited_nets_v4
      else list_ex (in_net 128 (v6_number ip)) prohibited_nets_v6)"

lemma and_high:
  assumes "n < 2 ^ (k + j)"
  shows "n AND push_bit k (mask j) = (n div 2 ^ k) * (2 ^ k :: nat)"
proof -
  have "n AND push_bit k (mask j) = push_bit k (take_bit j (drop_bit k n))"
    by (rule bit_eqI) (auto simp: bit_simps)
  also have "take_bit j (drop_bit k n) = drop_bit k n"
    using assms by (simp add: take_bit_nat_eq_self drop_bit_eq_div less_mult_imp_div_less power_add mult.commute)
  finally show ?thesis by (simp add: push_bit_eq_mult drop_bit_eq_div)
qed

lemma octet_bound: "unat (w :: 8 word) < 256"
  using unsigned_less [of w] by simp

lemma segment_bound: "unat (w :: 16 word) < 65536"
  using unsigned_less [of w] by simp

lemma octet_high: "(w :: 8 word) AND 0xF0 = 16 \<longleftrightarrow> unat w div 16 = 1"
proof -
  have "unat (w AND 0xF0) = unat w AND push_bit 4 (mask 4)" by (simp add: unsigned_and_eq push_bit_eq_mult mask_eq_exp_minus_1)
  also have "\<dots> = (unat w div 16) * 16" using and_high [of "unat w" 4 4] octet_bound [of w] by simp
  finally show ?thesis unfolding word_unat_eq_iff by simp
qed

lemma segment_high:
  "(w :: 16 word) AND 0xFFC0 = 0xFE80 \<longleftrightarrow> unat w div 64 = 1018"
  "(w :: 16 word) AND 0xFE00 = 0xFC00 \<longleftrightarrow> unat w div 512 = 126"
proof -
  have "unat (w AND 0xFFC0) = unat w AND push_bit 6 (mask 10)" by (simp add: unsigned_and_eq push_bit_eq_mult mask_eq_exp_minus_1)
  also have "\<dots> = (unat w div 64) * 64" using and_high [of "unat w" 6 10] segment_bound [of w] by simp
  finally show "(w :: 16 word) AND 0xFFC0 = 0xFE80 \<longleftrightarrow> unat w div 64 = 1018" unfolding word_unat_eq_iff by simp
  have "unat (w AND 0xFE00) = unat w AND push_bit 9 (mask 7)" by (simp add: unsigned_and_eq push_bit_eq_mult mask_eq_exp_minus_1)
  also have "\<dots> = (unat w div 512) * 512" using and_high [of "unat w" 9 7] segment_bound [of w] by simp
  finally show "(w :: 16 word) AND 0xFE00 = 0xFC00 \<longleftrightarrow> unat w div 512 = 126" unfolding word_unat_eq_iff by simp
qed

lemma v4_number_div:
  "v4_number ip div 2 ^ 24 = unat (v4_0 ip)"
  "v4_number ip div 2 ^ 20 = unat (v4_0 ip) * 16 + unat (v4_1 ip) div 16"
  "v4_number ip div 2 ^ 16 = unat (v4_0 ip) * 256 + unat (v4_1 ip)"
proof -
  note b = octet_bound [of "v4_0 ip"] octet_bound [of "v4_1 ip"] octet_bound [of "v4_2 ip"] octet_bound [of "v4_3 ip"]
  show "v4_number ip div 2 ^ 24 = unat (v4_0 ip)"
    unfolding v4_number_def by (rule div_nat_eqI) (use b in simp_all)
  show "v4_number ip div 2 ^ 16 = unat (v4_0 ip) * 256 + unat (v4_1 ip)"
    unfolding v4_number_def by (rule div_nat_eqI) (use b in simp_all)
  show "v4_number ip div 2 ^ 20 = unat (v4_0 ip) * 16 + unat (v4_1 ip) div 16"
    unfolding v4_number_def by (rule div_nat_eqI) (use b in simp_all)
qed

lemma pair_digits: "b < k \<Longrightarrow> d < k \<Longrightarrow> a * k + b = c * k + d \<longleftrightarrow> a = c \<and> b = (d :: nat)"
  by (metis add.commute div_mult_self3 div_less mod_less mod_mult_self3 add_0 not_less0)

lemma is_prohibited_v4_nets: "is_prohibited_v4 ip \<longleftrightarrow> list_ex (in_net 32 (v4_number ip)) prohibited_nets_v4"
proof -
  let ?a = "unat (v4_0 ip)" and ?b = "unat (v4_1 ip)"
  have b: "?b < 256" "?b div 16 < 16" using octet_bound [of "v4_1 ip"] by simp_all
  have "?a * 16 + ?b div 16 = 172 * 16 + 1 \<longleftrightarrow> ?a = 172 \<and> ?b div 16 = 1" by (rule pair_digits) (use b in simp_all)
  moreover have "?a * 256 + ?b = 192 * 256 + 168 \<longleftrightarrow> ?a = 192 \<and> ?b = 168" "?a * 256 + ?b = 169 * 256 + 254 \<longleftrightarrow> ?a = 169 \<and> ?b = 254"
    by (rule pair_digits; use b in simp)+
  ultimately show ?thesis
    unfolding is_prohibited_v4_def prohibited_nets_v4_def in_net_def octet_high
    by (simp add: v4_number_div [simplified] word_unat_eq_iff)
qed

lemma segment_zero: "s < k \<Longrightarrow> c < k \<Longrightarrow> n * k + s = c \<longleftrightarrow> n = 0 \<and> s = (c :: nat)"
  using pair_digits [of s k c n 0] by simp

lemma v6_number_div:
  "v6_number ip div 2 ^ 112 = unat (v6_0 ip)"
  "v6_number ip div 2 ^ 32 = foldl (\<lambda>n s. n * 65536 + unat s) 0 (take 6 (v6_segments ip))"
  "v6_number ip mod 2 ^ 32 = unat (v6_6 ip) * 65536 + unat (v6_7 ip)"
proof -
  note b = segment_bound [of "v6_0 ip"] segment_bound [of "v6_1 ip"] segment_bound [of "v6_2 ip"] segment_bound [of "v6_3 ip"]
    segment_bound [of "v6_4 ip"] segment_bound [of "v6_5 ip"] segment_bound [of "v6_6 ip"] segment_bound [of "v6_7 ip"]
  let ?n = "foldl (\<lambda>n s. n * 65536 + unat s) 0 (take 6 (v6_segments ip))"
  let ?r = "unat (v6_6 ip) * 65536 + unat (v6_7 ip)"
  have n: "v6_number ip = ?n * 2 ^ 32 + ?r" and r: "?r < 2 ^ 32"
    using b by (simp_all add: v6_number_def v6_segments_def)
  show "v6_number ip div 2 ^ 32 = ?n" "v6_number ip mod 2 ^ 32 = ?r" unfolding n using r by simp_all
  have "?n div 2 ^ 80 = unat (v6_0 ip)"
    by (rule div_nat_eqI) (use b in \<open>simp_all add: v6_segments_def\<close>)
  moreover have "v6_number ip div 2 ^ 112 = v6_number ip div 2 ^ 32 div 2 ^ 80"
    unfolding div_mult2_eq [symmetric] by simp
  ultimately show "v6_number ip div 2 ^ 112 = unat (v6_0 ip)" using \<open>v6_number ip div 2 ^ 32 = ?n\<close> by simp
qed

lemma v6_number_high:
  "v6_number ip div 2 ^ 118 = unat (v6_0 ip) div 64" "v6_number ip div 2 ^ 121 = unat (v6_0 ip) div 512"
proof -
  have "v6_number ip div (2 ^ 112 * 2 ^ 6) = unat (v6_0 ip) div 64" "v6_number ip div (2 ^ 112 * 2 ^ 9) = unat (v6_0 ip) div 512"
    unfolding div_mult2_eq v6_number_div by simp_all
  then show "v6_number ip div 2 ^ 118 = unat (v6_0 ip) div 64" "v6_number ip div 2 ^ 121 = unat (v6_0 ip) div 512"
    by simp_all
qed

lemma v6_mapped: "take 6 (v6_segments ip) = [0, 0, 0, 0, 0, 0xFFFF] \<longleftrightarrow> in_net 128 (v6_number ip) mapped_net"
proof -
  have "in_net 128 (v6_number ip) mapped_net \<longleftrightarrow> v6_number ip div 2 ^ 32 = 65535" by (simp add: in_net_def mapped_net_def)
  also have "\<dots> \<longleftrightarrow> take 6 (v6_segments ip) = [0, 0, 0, 0, 0, 0xFFFF]"
    unfolding v6_number_div by (simp add: v6_segments_def segment_zero segment_bound word_unat_eq_iff del: distrib_right_numeral)
  finally show ?thesis by blast
qed

lemma v6_small:
  assumes "c < 65536"
  shows "v6_number ip = c \<longleftrightarrow> v6_segments ip = [0, 0, 0, 0, 0, 0, 0, of_nat c]"
proof -
  have c: "unat (of_nat c :: 16 word) = c" using assms by (simp add: unat_of_nat take_bit_nat_eq_self)
  show ?thesis using assms c
    by (simp add: v6_number_def v6_segments_def segment_zero segment_bound word_unat_eq_iff del: distrib_right_numeral)
qed

lemma mapped_number:
  assumes "to_ipv4_mapped ip = Some v4"
  shows "v4_number v4 = v6_number ip mod 2 ^ 32"
proof -
  have h: "unat (ucast (drop_bit 8 w) :: 8 word) = unat w div 256" and l: "unat (ucast w :: 8 word) = unat w mod 256" for w :: "16 word"
  proof -
    have "unat w div 256 < 256" using segment_bound [of w] by simp
    then show "unat (ucast (drop_bit 8 w) :: 8 word) = unat w div 256"
      by (simp add: unsigned_ucast_eq drop_bit_eq_div take_bit_eq_mod unat_div)
    show "unat (ucast w :: 8 word) = unat w mod 256" by (simp add: unsigned_ucast_eq take_bit_eq_mod)
  qed
  have "v4_number v4 = (unat (v6_6 ip) div 256 * 256 + unat (v6_6 ip) mod 256) * 65536 +
      (unat (v6_7 ip) div 256 * 256 + unat (v6_7 ip) mod 256)"
  proof -
    have "v4 = \<lparr> v4_0 = ucast (drop_bit 8 (v6_6 ip)), v4_1 = ucast (v6_6 ip),
        v4_2 = ucast (drop_bit 8 (v6_7 ip)), v4_3 = ucast (v6_7 ip) \<rparr>"
      using assms unfolding to_ipv4_mapped_def by (simp split: if_splits)
    then have "v4_number v4 = unat (v6_6 ip) div 256 * 2 ^ 24 + unat (v6_6 ip) mod 256 * 2 ^ 16 +
        unat (v6_7 ip) div 256 * 2 ^ 8 + unat (v6_7 ip) mod 256"
      by (simp only: v4_number_def Ipv4Addr.simps h) (simp only: l)
    then show ?thesis by (simp only: distrib_right mult.assoc add.assoc) simp
  qed
  then show ?thesis unfolding div_mult_mod_eq v6_number_div .
qed

lemma is_prohibited_documented: "is_prohibited ip \<longleftrightarrow> documented_prohibited ip"
proof (cases ip)
  case (V4 v4)
  then show ?thesis by (simp add: is_prohibited_def is_prohibited_v4_nets)
next
  case (V6 v6)
  show ?thesis
  proof (cases "to_ipv4_mapped v6")
    case (Some v4)
    then have "in_net 128 (v6_number v6) mapped_net" using v6_mapped by (auto simp: to_ipv4_mapped_def split: if_splits)
    then show ?thesis using V6 Some mapped_number [OF Some]
      by (simp add: is_prohibited_def is_prohibited_v6_def is_prohibited_v4_nets)
  next
    case None
    then have "\<not> in_net 128 (v6_number v6) mapped_net" using v6_mapped by (auto simp: to_ipv4_mapped_def split: if_splits)
    then show ?thesis using V6 None v6_small [of 0 v6] v6_small [of 1 v6]
      by (simp add: is_prohibited_def is_prohibited_v6_def prohibited_nets_v6_def in_net_def segment_high
          v6_number_high [simplified])
  qed
qed

section \<open>The properties\<close>

text \<open>What a pattern of the allowlist admits, case aside.\<close>

definition pattern_admits :: "string \<Rightarrow> string \<Rightarrow> bool" where
  "pattern_admits pattern host \<longleftrightarrow>
     (\<exists>suff. map ascii_lower pattern = ''*.'' @ suff \<and>
        (map ascii_lower host = suff \<or> (\<exists>sub. map ascii_lower host = sub @ ''.'' @ suff))) \<or>
     (\<not> starts_with ''*.'' (map ascii_lower pattern) \<and> map ascii_lower host = map ascii_lower pattern)"

lemma hostname_matches_iff:
  "hostname_matches_allowlist host allowlist \<longleftrightarrow> (\<exists>pattern \<in> set allowlist. pattern_admits pattern host)"
proof (induction host allowlist rule: hostname_matches_allowlist.induct)
  case (2 host pattern allowlist)
  show ?case
  proof (cases "strip_prefix ''*.'' (map ascii_lower pattern)")
    case None
    then have "\<not> starts_with ''*.'' (map ascii_lower pattern)" by (simp add: starts_with_def)
    moreover have "map ascii_lower pattern \<noteq> ''*.'' @ suff" for suff using None strip_prefix_append by (metis option.distinct(1))
    ultimately have "pattern_admits pattern host \<longleftrightarrow> map ascii_lower host = map ascii_lower pattern"
      unfolding pattern_admits_def by blast
    then show ?thesis using 2 None by (auto simp: Let_def)
  next
    case (Some suff)
    then have p: "map ascii_lower pattern = ''*.'' @ suff" by (simp add: strip_prefix_Some)
    then have "starts_with ''*.'' (map ascii_lower pattern)" using Some by (simp add: starts_with_def)
    then have "pattern_admits pattern host \<longleftrightarrow> map ascii_lower host = suff \<or> ends_with (''.'' @ suff) (map ascii_lower host)"
      unfolding pattern_admits_def p ends_with_iff by auto
    then show ?thesis using 2 Some by (auto simp: Let_def)
  qed
qed simp

lemma classify_loop_filter: "classify_loop p ips = filter (\<lambda>ip. \<not> is_prohibited ip \<or> ip \<in> set (dp_endpoint_override_ips p)) ips"
  by (induction ips) auto

text \<open>C38: The destination check lets a connection through only to the configured port, to a host that a
  pattern of the allowlist admits when there is one, and only to resolved addresses outside every
  documented network (or configured as endpoint overrides). It returns exactly these addresses, in the
  order of the resolver, and never an empty list; and it refuses exactly when the port, the allowlist,
  the resolution or the absence of such an address calls for it.\<close>

theorem destination_check_safe:
  assumes "lookup_ip host = Inr resolved"
  shows "(check_destination p host port lookup_ip = Inr ips \<longleftrightarrow>
      port = dp_allowed_port p \<and>
      (\<forall>allowlist. dp_connect_allowlist p = Some allowlist \<longrightarrow> (\<exists>pattern \<in> set allowlist. pattern_admits pattern host)) \<and>
      ips \<noteq> [] \<and> ips = filter (\<lambda>ip. \<not> documented_prohibited ip \<or> ip \<in> set (dp_endpoint_override_ips p)) resolved) \<and>
    (check_destination p host port lookup_ip = Inl (IpRangeBlocked host resolved) \<longleftrightarrow>
      port = dp_allowed_port p \<and>
      (\<forall>allowlist. dp_connect_allowlist p = Some allowlist \<longrightarrow> (\<exists>pattern \<in> set allowlist. pattern_admits pattern host)) \<and>
      resolved \<noteq> [] \<and> (\<forall>ip \<in> set resolved. documented_prohibited ip \<and> ip \<notin> set (dp_endpoint_override_ips p)))"
proof -
  let ?f = "filter (\<lambda>ip. \<not> documented_prohibited ip \<or> ip \<in> set (dp_endpoint_override_ips p)) resolved"
  have c: "classify_ips p host resolved = (if ?f = [] then Inl (IpRangeBlocked host resolved) else Inr ?f)"
    by (simp only: classify_ips_def classify_loop_filter is_prohibited_documented Let_def)
  have e: "?f = [] \<longleftrightarrow> (\<forall>ip \<in> set resolved. documented_prohibited ip \<and> ip \<notin> set (dp_endpoint_override_ips p))"
    by (auto simp: filter_empty_conv)
  show ?thesis unfolding check_destination_def assms sum.case c e [symmetric]
    by (cases "dp_connect_allowlist p") (auto simp: hostname_matches_iff)
qed

theorem destination_check_safe_witness:
  "let public = V4 \<lparr> v4_0 = 52, v4_1 = 1, v4_2 = 2, v4_3 = 3 \<rparr>; metadata = V4 \<lparr> v4_0 = 169, v4_1 = 254, v4_2 = 169, v4_3 = 254 \<rparr>;
       lookup = \<lambda>host. Inr [metadata, public]; p = policy_new 443 (Some [''*.amazonaws.com'']) []
   in lookup ''s3.amazonaws.com'' = (Inr [metadata, public] :: string + IpAddr list) \<and>
      check_destination p ''s3.amazonaws.com'' 443 lookup = Inr [public]"
proof -
  let ?public = "V4 \<lparr> v4_0 = 52, v4_1 = 1, v4_2 = 2, v4_3 = 3 \<rparr>" and ?meta = "V4 \<lparr> v4_0 = 169, v4_1 = 254, v4_2 = 169, v4_3 = 254 \<rparr>"
  let ?lookup = "\<lambda>host :: string. Inr [?meta, ?public] :: string + IpAddr list" and ?p = "policy_new 443 (Some [''*.amazonaws.com'']) []"
  have l: "?lookup ''s3.amazonaws.com'' = Inr [?meta, ?public]" by simp
  have "hostname_matches_allowlist ''s3.amazonaws.com'' [''*.amazonaws.com'']" by code_simp
  then have a: "pattern_admits ''*.amazonaws.com'' ''s3.amazonaws.com''" unfolding hostname_matches_iff by simp
  have d: "documented_prohibited ?meta" "\<not> documented_prohibited ?public"
    unfolding is_prohibited_documented [symmetric] by (simp_all add: is_prohibited_def is_prohibited_v4_def)
  show ?thesis unfolding Let_def
    using destination_check_safe [of ?lookup "''s3.amazonaws.com''", OF l, of ?p 443 "[?public]"] a d
    by (simp add: policy_new_def)
qed

end
