(* ===== verification/Spec2Isabelle.thy ===== *)
theory Spec2Isabelle
  imports Cached_Response Decoder_State Inflight_Ledger Inflight_Tracker Destination_Policy
begin

text \<open>
  \<^bold>\<open>The program.\<close> A transparent caching proxy between S3 clients and S3. A response is stored as byte
  ranges of one object version: compressed range files on a disk that several instances share, with a
  metadata file per object and per-instance journals of changes that a consolidator folds into the
  metadata. A second tier keeps hot ranges in memory. A request is answered from the ranges the cache
  holds and from fetches for the missing ones, merged into one body. Around this stand the parsing of
  ranges and cache keys, the decoding of signed chunked uploads, the limits on memory and on
  duplicate fetches, and the restriction of outbound connections.

  \<^bold>\<open>Reading the model.\<close> Functions of \<open>src/src/*.rs\<close> keep their names; fields of a struct carry a
  prefix. Unsigned integers are natural numbers with the wrap-around written out (\<open>u64_add\<close>,
  \<open>saturating_sub\<close>, \<open>checked_add\<close>), signed 64-bit counters and octets are words, bytes and strings are
  character lists, \<open>Result\<close> is a sum with the error on the left, a panic is \<open>None\<close>, a hash map is an
  association list. The clock, the success of locks and every input or output failure are arguments.
  Third-party crates (BLAKE3, the percent encoder, LZ4, xxHash, JSON, HTTP dates, the DNS resolver, the
  broadcast channel) are parameters; what is needed of them is a named predicate (\<open>blake3_ok\<close>, \<open>pct_ok\<close>,
  \<open>codec_ok\<close>, \<open>journal_codec_ok\<close>, \<open>crates_ok\<close>, \<open>versions_ok\<close>) that a witness instantiates.

  \<^bold>\<open>Theories.\<close>
  \<^item> \<open>Rust_Prelude\<close>: integers, strings, UTF-8 and number formats of the standard library, \<open>reach\<close> and the
    locale \<open>transition_invariant\<close> through which every state machine below gets its invariant.
  \<^item> \<open>Cache_Types\<close> (\<open>error.rs\<close>, \<open>cache_types.rs\<close>): metadata records, expiry, scores, the multipart tracker.
    Parts recorded in any order tile the object.
  \<^item> \<open>Range_Spec\<close>, \<open>Range_Merge\<close> (\<open>range_handler.rs\<close>, \<open>http_proxy.rs\<close>): range headers, page widening,
    missing ranges, consolidation of fetches, and the merge of cached and fetched segments. Missing
    ranges are exact, merged ranges canonical, widening never loses a byte. The locale \<open>range_loader\<close> is
    what the merge asks of a loader.
  \<^item> \<open>Path_Safety\<close>, \<open>Cache_Keys\<close> (\<open>path_safety.rs\<close>, \<open>disk_cache.rs\<close>, \<open>cache.rs\<close>): file names stay inside the
    cache directory, host forms of one bucket share a key, suffixes of generated keys strip off again.
  \<^item> \<open>Compression\<close>, \<open>Range_Files\<close> (\<open>compression.rs\<close>, \<open>disk_cache.rs\<close>): frames, the incremental writer and
    the three readers of a range file. What is written is read back, by stream or buffer, and a failed
    publication leaves nothing.
  \<^item> \<open>Size_Accumulator\<close>, \<open>Journal\<close>, \<open>Journal_Files\<close> (\<open>journal_consolidator.rs\<close>, \<open>journal_manager.rs\<close>): size
    accounting under concurrent flushes, consolidation of one object to one version, journal files.
  \<^item> \<open>Disk_Lookup\<close>, \<open>Metadata_Writer\<close>, \<open>Object_Version\<close> (\<open>disk_cache.rs\<close>, \<open>hybrid_metadata_writer.rs\<close>):
    reading metadata with retries, finding cached ranges, recording a range, the takeover of an object
    by a newer version and the commit of a range.
  \<^item> \<open>Ram_Cache\<close>, \<open>Range_Serve\<close> (\<open>ram_cache.rs\<close>, \<open>cache.rs\<close>): the memory tier with capacity, recency and
    invalidation, as an instance of \<open>lossy_cache\<close>; loads through both tiers, as an instance of \<open>range_loader\<close>.
  \<^item> \<open>Cache_System\<close>, \<open>Cached_Response\<close>: all of this running together. Writers, version changes,
    consolidation, removal and loads interleave; \<open>cached_response_bytes\<close> says that a response merged
    from such a run carries the bytes of the object version.
  \<^item> \<open>Aws_Chunked\<close>, \<open>Chunked_Equivalence\<close>, \<open>Decoder_State\<close> (\<open>aws_chunked_decoder.rs\<close>): both decoders and the
    encoder. The wire format is the inductive relation \<open>framed\<close>; each decoder accepts it exactly up to
    its caps, over any slicing of the body, and the state of the incremental one stays bounded.
  \<^item> \<open>Inflight_Ledger\<close> (\<open>inflight_ledger.rs\<close>): the byte account, one atomic access per step, with stale
    reads and spurious failures. The ceiling holds in every interleaving.
  \<^item> \<open>Inflight_Tracker\<close> (\<open>inflight_tracker.rs\<close>): coalescing of fetches. One fetcher per flight key, and
    waiters subscribe only to open channels.
  \<^item> \<open>Destination_Policy\<close> (\<open>destination_policy.rs\<close>): the octet and segment tests decide exactly the
    documented networks, and a check returns only addresses outside them or configured as overrides.

  \<^bold>\<open>Bounds and fuel.\<close> Loops are structural or have a termination proof. The decompression loop has
  fuel, the length of its input plus one; \<open>decompress_terminates\<close> shows that this is enough for a decoder
  that consumes input. Metadata reads retry at most \<open>MAX_RETRIES\<close> times, as in the source. The retry loop
  of the ledger's exchange is not claimed to end: it is a step relation, so any number of failures is a run.
  Lengths below \<open>2 ^ 64\<close> are hypotheses where the source computes with them. Relaxed atomics of the
  ledger are modelled by arbitrary read values; each atomic itself is coherent.

  \<^bold>\<open>Not modelled.\<close>
  \<^item> Listening, connecting, TLS, DNS, HTTP framing and connection pools (\<open>http_proxy.rs\<close> apart from page
    widening, \<open>https_proxy.rs\<close>, \<open>tcp_proxy.rs\<close>, \<open>tls_proxy_listener.rs\<close>, \<open>tls_trust_store.rs\<close>,
    \<open>https_connector.rs\<close>, \<open>connection_pool.rs\<close>, \<open>s3_client.rs\<close>, \<open>tee_stream.rs\<close>, \<open>permit_body.rs\<close>,
    \<open>hedged_fetch.rs\<close>): their behaviour is that of hyper, rustls and tokio, which are not in the sources.
  \<^item> The forwarding of signed requests and uploads (\<open>signed_request_proxy.rs\<close>, \<open>signed_put_handler.rs\<close>):
    of it only the chunked decoder and the multipart tracker are modelled.
  \<^item> Background work over whole directories (\<open>background_recovery.rs\<close>, \<open>orphaned_range_recovery.rs\<close>,
    \<open>cache_initialization_coordinator.rs\<close>, \<open>cache_validator.rs\<close>, \<open>cache_size_tracker.rs\<close>, eviction in
    \<open>disk_cache.rs\<close> and \<open>cache.rs\<close>, \<open>write_cache_manager.rs\<close>, \<open>write_ledger.rs\<close>). \<open>Cache_System\<close> has a step that
    removes range files and listed ranges at any moment, which covers what deletion does to a reader.
    It has no step in which recovery lists an orphaned file again (\<open>add_range_to_metadata\<close>) or in which the
    write tier publishes a range, so \<open>cached_response_bytes\<close> is about runs without these.
  \<^item> Locks on metadata files and buffered access records (\<open>metadata_lock_manager.rs\<close>, \<open>metadata_cache.rs\<close>,
    \<open>cache_hit_update_buffer.rs\<close>): the success of a lock is an argument where the modelled code takes one.
  \<^item> Bandwidth shares (\<open>bandwidth_limiter.rs\<close>, \<open>throttle_stream.rs\<close>), presigned URLs (\<open>presigned_url.rs\<close>),
    upload capacity (\<open>capacity_manager.rs\<close>), per-bucket rules (\<open>bucket_settings.rs\<close>), transport overrides
    (\<open>upstream_overrides.rs\<close>) and configuration (\<open>config.rs\<close>): no modelled operation calls them, except for
    settings that are arguments here.
  \<^item> Start-up, shutdown, logging, metrics, health and the dashboard: input and output only.
\<close>

end
